(* ===== verification/Prelude.thy ===== *)
theory Prelude
  imports Main "HOL-Library.Multiset" "HOL-Library.Sublist" "HOL-Library.Word"
begin

text \<open>
  What the components share: the C types the server's code is written in, the
  collections of rewrite rules, and the lemmas on lists and maps that the component
  theories use.  Pointers are addresses; the memory a component writes through a
  pointer is an explicit function from addresses.
\<close>

type_synonym ptr = nat
type_synonym mem = "ptr \<Rightarrow> nat"
type_synonym uint32 = "32 word"
type_synonym uint16 = "16 word"
type_synonym byte = "8 word"

text \<open>Additions of two \<open>uint\<close> values wrap around.\<close>

definition uint_add :: "nat \<Rightarrow> nat \<Rightarrow> nat" where
  "uint_add a b = (a + b) mod 2 ^ 32"

text \<open>\<open>list_upd\<close> collects how the list observers read an updated list.\<close>

named_theorems list_upd

lemma nth_list_update_if [list_upd]:
  "j < length xs \<Longrightarrow> xs[i := x] ! j = (if i = j then x else xs ! j)"
  by (simp add: nth_list_update)

lemma mset_hole_move:
  assumes "i < length xs" "j < length xs" "i \<noteq> j"
  shows "mset ((xs[i := xs ! j])[j := e]) = mset (xs[i := e])"
proof -
  let ?ys = "xs[i := e]"
  have "(xs[i := xs ! j])[j := e] = ?ys[i := ?ys ! j, j := ?ys ! i]"
    using assms by (simp add: list_update_swap)
  then show ?thesis
    using assms mset_swap [of j ?ys i] by simp
qed

text \<open>The elements \<open>1 .. n\<close> of an array whose element 0 is not used.\<close>

definition elems :: "nat \<Rightarrow> 'a list \<Rightarrow> 'a list" where
  "elems n xs = take n (drop 1 xs)"

lemma length_elems [simp]: "n < length xs \<Longrightarrow> length (elems n xs) = n"
  by (simp add: elems_def)

lemma nth_elems: "n < length xs \<Longrightarrow> i < n \<Longrightarrow> elems n xs ! i = xs ! Suc i"
  by (simp add: elems_def)

lemma elems_update:
  "1 \<le> i \<Longrightarrow> elems n (xs[i := x]) = (elems n xs)[i - 1 := x]"
  by (simp add: elems_def drop_update_swap take_update_swap)

lemma elems_update_beyond [simp]:
  "n < i \<Longrightarrow> elems n (xs[i := x]) = elems n xs"
  using elems_update [of i n xs x] by (simp add: list_update_beyond elems_def)

lemma elems_Suc:
  "Suc n < length xs \<Longrightarrow> elems (Suc n) xs = elems n xs @ [xs ! Suc n]"
  by (simp add: elems_def take_Suc_conv_app_nth)

lemma set_elems: "n < length xs \<Longrightarrow> set (elems n xs) = (\<lambda>i. xs ! i) ` {1..n}"
proof (induction n)
  case 0
  then show ?case by (simp add: elems_def)
next
  case (Suc n)
  then show ?case by (simp add: elems_Suc atLeastAtMostSuc_conv)
qed

lemma elems_hole_move:
  assumes "1 \<le> i" "i \<le> n" "1 \<le> j" "j \<le> n" "i \<noteq> j" "n < length xs"
  shows "mset (elems n ((xs[i := xs ! j])[j := e])) = mset (elems n (xs[i := e]))"
proof -
  have "elems n xs ! (j - 1) = xs ! j"
    using assms nth_elems [of n xs "j - 1"] by simp
  then show ?thesis
    using assms mset_hole_move [of "i - 1" "elems n xs" "j - 1" e]
    by (simp add: elems_update eq_diff_iff)
qed

lemma distinct_elems_nth:
  assumes "distinct (elems n xs)" "n < length xs" "1 \<le> i" "i \<le> n" "1 \<le> j" "j \<le> n"
  shows "xs ! i = xs ! j \<longleftrightarrow> i = j"
proof -
  have "elems n xs ! (i - 1) = xs ! i" "elems n xs ! (j - 1) = xs ! j"
    using assms by (simp_all add: nth_elems)
  then show ?thesis
    using assms nth_eq_iff_index_eq [of "elems n xs" "i - 1" "j - 1"] by auto
qed

lemma subseq_setD: "subseq xs ys \<Longrightarrow> set xs \<subseteq> set ys"
  by (induction rule: list_emb.induct) auto

lemma subseq_ConsI: "subseq xs ys \<Longrightarrow> subseq xs (y # ys)"
  using subseq_drop_many [of xs ys "[y]"] by simp

end
