(* ===== verification/Queues.thy ===== *)
theory Queues
  imports Prelude
begin

text \<open>
  The priority queue of \<open>mysys/queues.c\<close> and \<open>include/queues.h\<close>: a binary heap in an
  array of element pointers, element 0 unused.  The array is a list (empty for a null
  \<open>root\<close>), an element is an address, and the optional position word that the queue keeps
  inside every element (\<open>offset_to_queue_pos\<close>) lives in an explicit memory that the
  operations return updated.  The allocator is a parameter: \<open>alloc n\<close> is the block of
  \<open>n\<close> pointers it returns, or \<open>None\<close>.
\<close>

section \<open>The queue and its operations\<close>

record 'a queue =
  q_root :: "ptr list"
  q_first_cmp_arg :: 'a
  q_elements :: nat
  q_max_elements :: nat
  q_offset_to_key :: nat
  q_offset_to_queue_pos :: nat
  q_auto_extent :: nat
  q_max_at_top :: int
  q_compare :: "'a \<Rightarrow> ptr \<Rightarrow> ptr \<Rightarrow> int"

definition queue_set_max_at_top :: "bool \<Rightarrow> int" where
  "queue_set_max_at_top set_arg = (if set_arg then - 1 else 1)"

definition init_queue ::
    "(nat \<Rightarrow> ptr list option) \<Rightarrow> 'a queue \<Rightarrow> nat \<Rightarrow> nat \<Rightarrow> bool \<Rightarrow>
     ('a \<Rightarrow> ptr \<Rightarrow> ptr \<Rightarrow> int) \<Rightarrow> 'a \<Rightarrow> nat \<Rightarrow> nat \<Rightarrow> 'a queue \<times> nat" where
  "init_queue alloc q max_elements offset_to_key max_at_top compare first_cmp_arg
      offset_to_queue_pos auto_extent =
     (case alloc (uint_add max_elements 1) of
        None \<Rightarrow> (q\<lparr>q_root := []\<rparr>, 1)
      | Some block \<Rightarrow>
          (q\<lparr>q_root := block, q_elements := 0, q_compare := compare,
             q_first_cmp_arg := first_cmp_arg, q_max_elements := max_elements,
             q_offset_to_key := offset_to_key,
             q_offset_to_queue_pos := offset_to_queue_pos,
             q_auto_extent := auto_extent,
             q_max_at_top := queue_set_max_at_top max_at_top\<rparr>, 0))"

definition my_realloc :: "(nat \<Rightarrow> ptr list option) \<Rightarrow> ptr list \<Rightarrow> nat \<Rightarrow> ptr list option" where
  "my_realloc alloc old n =
     (case alloc n of None \<Rightarrow> None
      | Some block \<Rightarrow> Some (take n old @ drop (length old) block))"

definition resize_queue ::
    "(nat \<Rightarrow> ptr list option) \<Rightarrow> 'a queue \<Rightarrow> nat \<Rightarrow> 'a queue \<times> nat" where
  "resize_queue alloc q max_elements =
     (if q_max_elements q = max_elements then (q, 0)
      else case my_realloc alloc (q_root q) (uint_add max_elements 1) of
        None \<Rightarrow> (q, 1)
      | Some new_root \<Rightarrow>
          (q\<lparr>q_elements := min (q_elements q) max_elements,
             q_max_elements := max_elements, q_root := new_root\<rparr>, 0))"

definition reinit_queue ::
    "(nat \<Rightarrow> ptr list option) \<Rightarrow> 'a queue \<Rightarrow> nat \<Rightarrow> nat \<Rightarrow> bool \<Rightarrow>
     ('a \<Rightarrow> ptr \<Rightarrow> ptr \<Rightarrow> int) \<Rightarrow> 'a \<Rightarrow> nat \<Rightarrow> nat \<Rightarrow> 'a queue \<times> nat" where
  "reinit_queue alloc q max_elements offset_to_key max_at_top compare first_cmp_arg
      offset_to_queue_pos auto_extent =
     resize_queue alloc
       (q\<lparr>q_elements := 0, q_compare := compare, q_first_cmp_arg := first_cmp_arg,
          q_offset_to_key := offset_to_key,
          q_offset_to_queue_pos := offset_to_queue_pos,
          q_auto_extent := auto_extent,
          q_max_at_top := queue_set_max_at_top max_at_top\<rparr>) max_elements"

definition delete_queue :: "'a queue \<Rightarrow> 'a queue" where
  "delete_queue q = q\<lparr>q_root := []\<rparr>"

text \<open>
  \<open>queue->compare(first_cmp_arg, a + offset_to_key, b + offset_to_key) * max_at_top\<close>
  for two elements, and the store of an element's position.
\<close>

definition queue_cmp :: "'a queue \<Rightarrow> ptr \<Rightarrow> ptr \<Rightarrow> int" where
  "queue_cmp q a b =
     q_compare q (q_first_cmp_arg q) (a + q_offset_to_key q) (b + q_offset_to_key q)
       * q_max_at_top q"

definition store_pos :: "nat \<Rightarrow> mem \<Rightarrow> ptr \<Rightarrow> nat \<Rightarrow> mem" where
  "store_pos off m element idx = (if off \<noteq> 0 then m(element + off - 1 := idx) else m)"

text \<open>The loop of \<open>queue_insert\<close>: move the larger ancestors down, give the free slot.\<close>

function queue_insert_loop ::
    "(ptr \<Rightarrow> ptr \<Rightarrow> int) \<Rightarrow> nat \<Rightarrow> ptr \<Rightarrow> ptr list \<Rightarrow> mem \<Rightarrow> nat \<Rightarrow> ptr list \<times> mem \<times> nat" where
  "queue_insert_loop cmp off element root m idx =
     (if idx > 1 \<and> cmp element (root ! (idx div 2)) < 0
      then let next = idx div 2; root' = root[idx := root ! next]
           in queue_insert_loop cmp off element root' (store_pos off m (root' ! idx) idx) next
      else (root, m, idx))"
  by pat_completeness auto
termination
  by (relation "measure (\<lambda>(cmp, off, element, root, m, idx). idx)") auto

definition queue_insert :: "'a queue \<Rightarrow> mem \<Rightarrow> ptr \<Rightarrow> 'a queue \<times> mem" where
  "queue_insert q m element =
     (let off = q_offset_to_queue_pos q; n = q_elements q + 1 in
      case queue_insert_loop (queue_cmp q) off element (q_root q) m n of
        (root, m', idx) \<Rightarrow>
          (q\<lparr>q_elements := n, q_root := root[idx := element]\<rparr>,
           store_pos off m' element idx))"

definition queue_insert_safe ::
    "(nat \<Rightarrow> ptr list option) \<Rightarrow> 'a queue \<Rightarrow> mem \<Rightarrow> ptr \<Rightarrow> ('a queue \<times> mem) \<times> nat" where
  "queue_insert_safe alloc q m element =
     (if q_elements q = q_max_elements q
      then if q_auto_extent q = 0 then ((q, m), 2)
           else case resize_queue alloc q (uint_add (q_max_elements q) (q_auto_extent q)) of
             (q', rc) \<Rightarrow> if rc \<noteq> 0 then ((q', m), 1) else (queue_insert q' m element, 0)
      else (queue_insert q m element, 0))"

text \<open>
  The first loop of \<open>_downheap\<close>: the free slot sinks along the smaller children.  It
  either stores the element at once and returns (\<open>Inl\<close>), or leaves the slot behind
  (\<open>Inr\<close>).  The callers' assertions exclude the slot 0, where the C loop would not
  advance; the model leaves the loop there.
\<close>

function downheap_sink ::
    "(ptr \<Rightarrow> ptr \<Rightarrow> int) \<Rightarrow> nat \<Rightarrow> nat \<Rightarrow> ptr \<Rightarrow> ptr list \<Rightarrow> mem \<Rightarrow> nat \<Rightarrow> bool \<Rightarrow>
     (ptr list \<times> mem) + (ptr list \<times> mem \<times> nat)" where
  "downheap_sink cmp off elements element root m idx first =
     (if 0 < idx \<and> idx \<le> elements div 2 then
        let next_index =
              (if idx + idx < elements \<and> cmp (root ! (idx + idx)) (root ! (idx + idx + 1)) > 0
               then idx + idx + 1 else idx + idx) in
        if first \<and> cmp (root ! next_index) element \<ge> 0
        then Inl (root[idx := element], store_pos off m element idx)
        else let root' = root[idx := root ! next_index] in
          downheap_sink cmp off elements element root'
            (store_pos off m (root' ! idx) idx) next_index False
      else Inr (root, m, idx))"
  by pat_completeness auto
termination
  by (relation "measure (\<lambda>(cmp, off, elements, element, root, m, idx, first). elements - idx)")
    (auto simp: Let_def)

text \<open>Its second loop: the slot rises again, but never to \<open>start_idx\<close>.\<close>

function downheap_rise ::
    "(ptr \<Rightarrow> ptr \<Rightarrow> int) \<Rightarrow> nat \<Rightarrow> nat \<Rightarrow> ptr \<Rightarrow> ptr list \<Rightarrow> mem \<Rightarrow> nat \<Rightarrow> ptr list \<times> mem \<times> nat" where
  "downheap_rise cmp off start_idx element root m idx =
     (if idx div 2 > start_idx \<and> cmp element (root ! (idx div 2)) < 0
      then let next_index = idx div 2; root' = root[idx := root ! next_index]
           in downheap_rise cmp off start_idx element root'
                (store_pos off m (root' ! idx) idx) next_index
      else (root, m, idx))"
  by pat_completeness auto
termination
  by (relation "measure (\<lambda>(cmp, off, start_idx, element, root, m, idx). idx)") auto

definition downheap :: "'a queue \<Rightarrow> mem \<Rightarrow> nat \<Rightarrow> ptr \<Rightarrow> 'a queue \<times> mem" where
  "downheap q m start_idx element =
     (let off = q_offset_to_queue_pos q in
      case downheap_sink (queue_cmp q) off (q_elements q) element (q_root q) m start_idx True of
        Inl (root, m') \<Rightarrow> (q\<lparr>q_root := root\<rparr>, m')
      | Inr (root, m', idx) \<Rightarrow>
          (case downheap_rise (queue_cmp q) off start_idx element root m' idx of
             (root', m'', idx') \<Rightarrow>
               (q\<lparr>q_root := root'[idx' := element]\<rparr>, store_pos off m'' element idx')))"

definition queue_remove :: "'a queue \<Rightarrow> mem \<Rightarrow> nat \<Rightarrow> ('a queue \<times> mem) \<times> ptr" where
  "queue_remove q m idx =
     (let element = q_root q ! idx; last = q_root q ! q_elements q in
      (downheap (q\<lparr>q_elements := q_elements q - 1\<rparr>) m idx last, element))"

fun queue_fix_loop :: "'a queue \<Rightarrow> mem \<Rightarrow> nat \<Rightarrow> 'a queue \<times> mem" where
  "queue_fix_loop q m 0 = (q, m)"
| "queue_fix_loop q m (Suc i) =
     (case downheap q m (Suc i) (q_root q ! Suc i) of (q', m') \<Rightarrow> queue_fix_loop q' m' i)"

definition queue_fix :: "'a queue \<Rightarrow> mem \<Rightarrow> 'a queue \<times> mem" where
  "queue_fix q m = queue_fix_loop q m (q_elements q div 2)"

definition queue_replace :: "'a queue \<Rightarrow> mem \<Rightarrow> nat \<Rightarrow> 'a queue \<times> mem" where
  "queue_replace q m idx =
     (let element = q_root q ! idx in
      case queue_remove q m idx of ((q', m'), _) \<Rightarrow> queue_insert q' m' element)"

definition queue_top :: "'a queue \<Rightarrow> ptr" where
  "queue_top q = q_root q ! 1"

definition queue_replace_top :: "'a queue \<Rightarrow> mem \<Rightarrow> 'a queue \<times> mem" where
  "queue_replace_top q m = downheap q m 1 (q_root q ! 1)"

definition queue_remove_top :: "'a queue \<Rightarrow> mem \<Rightarrow> ('a queue \<times> mem) \<times> ptr" where
  "queue_remove_top q m = queue_remove q m 1"

declare queue_insert_loop.simps [simp del] downheap_sink.simps [simp del]
  downheap_rise.simps [simp del]

section \<open>The contract of a comparison function\<close>

text \<open>
  What the queue relies on: the sign of \<open>cmp\<close> is antisymmetric and \<open>cmp a b \<le> 0\<close> is
  transitive.  The heap lemmas are proved once for every such function.
\<close>

text \<open>\<open>heap_from cmp k n r\<close>: every element \<open>2 .. n\<close> whose parent is at \<open>k\<close> or later is not
  before its parent.  With \<open>k = 1\<close> this is the heap order of the whole array.\<close>

definition heap_from :: "(ptr \<Rightarrow> ptr \<Rightarrow> int) \<Rightarrow> nat \<Rightarrow> nat \<Rightarrow> ptr list \<Rightarrow> bool" where
  "heap_from cmp k n r \<longleftrightarrow>
     (\<forall>i. 2 \<le> i \<and> i \<le> n \<and> k \<le> i div 2 \<longrightarrow> cmp (r ! (i div 2)) (r ! i) \<le> 0)"

text \<open>The same with a free slot \<open>h\<close>, whose parent is before the slot's children.\<close>

definition heap_hole :: "(ptr \<Rightarrow> ptr \<Rightarrow> int) \<Rightarrow> nat \<Rightarrow> nat \<Rightarrow> ptr list \<Rightarrow> nat \<Rightarrow> bool" where
  "heap_hole cmp k n r h \<longleftrightarrow>
     (\<forall>i. 2 \<le> i \<and> i \<le> n \<and> k \<le> i div 2 \<and> i \<noteq> h \<and> i div 2 \<noteq> h \<longrightarrow>
        cmp (r ! (i div 2)) (r ! i) \<le> 0) \<and>
     (\<forall>i. 2 \<le> h \<and> i \<le> n \<and> i div 2 = h \<and> k \<le> h div 2 \<longrightarrow>
        cmp (r ! (h div 2)) (r ! i) \<le> 0)"

lemma heap_hole_edge:
  "heap_hole cmp k n r h \<Longrightarrow> 2 \<le> i \<Longrightarrow> i \<le> n \<Longrightarrow> k \<le> i div 2 \<Longrightarrow> i \<noteq> h \<Longrightarrow> i div 2 \<noteq> h \<Longrightarrow>
   cmp (r ! (i div 2)) (r ! i) \<le> 0"
  by (simp add: heap_hole_def)

lemma heap_hole_skip:
  "heap_hole cmp k n r h \<Longrightarrow> 2 \<le> h \<Longrightarrow> i \<le> n \<Longrightarrow> i div 2 = h \<Longrightarrow> k \<le> h div 2 \<Longrightarrow>
   cmp (r ! (h div 2)) (r ! i) \<le> 0"
  by (simp add: heap_hole_def)

definition below_slot :: "(ptr \<Rightarrow> ptr \<Rightarrow> int) \<Rightarrow> nat \<Rightarrow> ptr list \<Rightarrow> nat \<Rightarrow> ptr \<Rightarrow> bool" where
  "below_slot cmp n r h e \<longleftrightarrow> (\<forall>i. 2 \<le> i \<and> i \<le> n \<and> i div 2 = h \<longrightarrow> cmp e (r ! i) \<le> 0)"

definition descends :: "nat \<Rightarrow> nat \<Rightarrow> bool" where
  "descends s h \<longleftrightarrow> (\<exists>d. h div 2 ^ d = s)"

lemma descends_refl [simp]: "descends s s"
  by (auto simp: descends_def intro: exI [of _ 0])

lemma descends_0 [simp]: "descends 0 h"
  unfolding descends_def by (rule exI [of _ h]) simp

lemma descends_child: "descends s h \<Longrightarrow> i div 2 = h \<Longrightarrow> descends s i"
  unfolding descends_def by (metis div_mult2_eq power_Suc)

lemma descends_parent:
  assumes "descends s h" "h \<noteq> s"
  shows "descends s (h div 2)"
proof -
  from assms obtain d where d: "h div 2 ^ d = s" by (auto simp: descends_def)
  with assms(2) obtain d' where "d = Suc d'" by (cases d) auto
  with d show ?thesis by (auto simp: descends_def div_mult2_eq)
qed

lemma descends_le: "descends s h \<Longrightarrow> s \<le> h"
  by (auto simp: descends_def)

section \<open>What every move of the free slot keeps\<close>

text \<open>
  \<open>pos_ok\<close>: every element of the queue stores its own index.  \<open>slot_inv\<close>: the array with
  the element put into the free slot holds the elements \<open>M\<close>; when positions are tracked
  (\<open>t\<close>: the queue has a position offset and the elements are different addresses), every
  other element stores its own index.
\<close>

definition pos_but :: "nat \<Rightarrow> nat \<Rightarrow> ptr list \<Rightarrow> mem \<Rightarrow> nat \<Rightarrow> bool" where
  "pos_but off n r m h \<longleftrightarrow> (\<forall>i. 1 \<le> i \<and> i \<le> n \<and> i \<noteq> h \<longrightarrow> m (r ! i + off - 1) = i)"

definition pos_ok :: "nat \<Rightarrow> nat \<Rightarrow> ptr list \<Rightarrow> mem \<Rightarrow> bool" where
  "pos_ok off n r m \<longleftrightarrow> (off \<noteq> 0 \<longrightarrow> (\<forall>i. 1 \<le> i \<and> i \<le> n \<longrightarrow> m (r ! i + off - 1) = i))"

definition slot_inv ::
    "bool \<Rightarrow> nat \<Rightarrow> nat \<Rightarrow> ptr \<Rightarrow> ptr multiset \<Rightarrow> ptr list \<Rightarrow> mem \<Rightarrow> nat \<Rightarrow> bool" where
  "slot_inv t off n e M r m h \<longleftrightarrow>
     n < length r \<and> 1 \<le> h \<and> h \<le> n \<and> mset (elems n (r[h := e])) = M \<and>
     (t \<longrightarrow> off \<noteq> 0 \<and> (\<forall>a. count M a \<le> 1) \<and> pos_but off n r m h)"

lemma distinct_elems_count: "(\<forall>a. count (mset xs) a \<le> 1) \<longleftrightarrow> distinct xs"
  by (metis distinct_count_atmost_1 count_eq_zero_iff le_numeral_extra(3,4) set_mset_mset
      less_one linorder_not_le nless_le zero_le)

lemma slot_step:
  assumes "slot_inv t off n e M r m h" "1 \<le> c" "c \<le> n" "c \<noteq> h"
  shows "slot_inv t off n e M (r[h := r ! c]) (store_pos off m (r ! c) h) c"
proof -
  have r: "n < length r" "1 \<le> h" "h \<le> n" and M: "mset (elems n (r[h := e])) = M"
    using assms(1) by (auto simp: slot_inv_def)
  have M': "mset (elems n ((r[h := r ! c])[c := e])) = M"
    using elems_hole_move [of h n c r e] assms r M by simp
  have "pos_but off n (r[h := r ! c]) (store_pos off m (r ! c) h) c"
    if t: t
    unfolding pos_but_def
  proof (intro allI impI)
    have off: "off \<noteq> 0" and cnt: "\<forall>a. count M a \<le> 1"
      using assms(1) t by (simp_all add: slot_inv_def)
    fix i assume i: "1 \<le> i \<and> i \<le> n \<and> i \<noteq> c"
    have d: "distinct (elems n (r[h := e]))"
      using cnt M by (metis distinct_elems_count)
    have old: "i \<noteq> h \<Longrightarrow> m (r ! i + off - 1) = i"
      using assms(1) t i by (auto simp: slot_inv_def pos_but_def)
    have ne: "i \<noteq> h \<Longrightarrow> r ! i \<noteq> r ! c"
      using distinct_elems_nth [OF d, of i c] i r assms by (simp add: nth_list_update)
    show "store_pos off m (r ! c) h (r[h := r ! c] ! i + off - 1) = i"
      using off old ne i r by (cases "i = h") (simp_all add: store_pos_def nth_list_update)
  qed
  with M' r assms show ?thesis by (simp add: slot_inv_def)
qed

lemma slot_fill:
  assumes "slot_inv t off n e M r m h"
  shows "mset (elems n (r[h := e])) = M"
    and "t \<Longrightarrow> pos_ok off n (r[h := e]) (store_pos off m e h)"
proof -
  have r: "n < length r" "1 \<le> h" "h \<le> n" and M: "mset (elems n (r[h := e])) = M"
    using assms(1) by (auto simp: slot_inv_def)
  then show "mset (elems n (r[h := e])) = M" by simp
  assume t: t
  then have cnt: "\<forall>a. count M a \<le> 1" using assms by (simp add: slot_inv_def)
  then have d: "distinct (elems n (r[h := e]))"
    using M by (metis distinct_elems_count)
  show "pos_ok off n (r[h := e]) (store_pos off m e h)"
    unfolding pos_ok_def
  proof (intro impI allI)
    fix i assume off: "off \<noteq> 0" and i: "1 \<le> i \<and> i \<le> n"
    have old: "i \<noteq> h \<Longrightarrow> m (r ! i + off - 1) = i"
      using assms(1) t i by (auto simp: slot_inv_def pos_but_def)
    have ne: "i \<noteq> h \<Longrightarrow> r ! i \<noteq> e"
      using distinct_elems_nth [OF d, of i h] i r by (simp add: nth_list_update)
    show "store_pos off m e h (r[h := e] ! i + off - 1) = i"
      using off old ne i r by (cases "i = h") (simp_all add: store_pos_def nth_list_update)
  qed
qed

text \<open>The loop of \<open>queue_insert\<close> is the second loop of \<open>_downheap\<close> with the bound 0.\<close>

lemma queue_insert_loop_rise:
  "queue_insert_loop cmp off e r m h = downheap_rise cmp off 0 e r m h"
proof (induction cmp off e r m h rule: queue_insert_loop.induct)
  case (1 cmp off e r m h)
  have "1 < h \<longleftrightarrow> 0 < h div 2" by linarith
  with 1 show ?case
    by (simp add: queue_insert_loop.simps [of cmp off e r m h]
        downheap_rise.simps [of cmp off 0 e r m h] Let_def)
qed

lemma downheap_rise_slot:
  assumes "slot_inv t off n e M r m h" "downheap_rise cmp off s e r m h = (r', m', h')"
  shows "slot_inv t off n e M r' m' h' \<and> length r' = length r"
  using assms
proof (induction cmp off s e r m h rule: downheap_rise.induct)
  case (1 cmp off s e r m h)
  have h: "h < length r" "1 \<le> h" "h \<le> n" using 1 by (auto simp: slot_inv_def)
  show ?case
  proof (cases "s < h div 2 \<and> cmp e (r ! (h div 2)) < 0")
    case True
    then have "slot_inv t off n e M (r[h := r ! (h div 2)]) (store_pos off m (r ! (h div 2)) h) (h div 2)"
      using slot_step [OF "1.prems"(1), of "h div 2"] h by simp
    with "1.IH" [OF True refl refl] "1.prems"(2) True h show ?thesis
      by (simp add: downheap_rise.simps [of cmp off s e r m h] Let_def)
  next
    case False
    with 1 show ?thesis by (auto simp: downheap_rise.simps [of cmp off s e r m h])
  qed
qed

locale queue_compare =
  fixes cmp :: "ptr \<Rightarrow> ptr \<Rightarrow> int"
  assumes cmp_swap: "sgn (cmp b a) = - sgn (cmp a b)"
    and cmp_trans: "cmp a b \<le> 0 \<Longrightarrow> cmp b c \<le> 0 \<Longrightarrow> cmp a c \<le> 0"
begin

lemma cmp_less_iff: "cmp a b < 0 \<longleftrightarrow> \<not> cmp b a \<le> 0"
  using cmp_swap [of a b] by (auto simp: sgn_if split: if_splits)

lemma cmp_ge_iff: "cmp a b \<ge> 0 \<longleftrightarrow> cmp b a \<le> 0"
  using cmp_swap [of a b] by (auto simp: sgn_if split: if_splits)

lemma cmp_total: "cmp a b \<le> 0 \<or> cmp b a \<le> 0"
  using cmp_less_iff [of a b] by linarith

lemma cmp_refl: "cmp a a \<le> 0"
  using cmp_total by blast

text \<open>Storing the element in the slot makes the array a heap.\<close>

lemma heap_fill:
  assumes "heap_hole cmp k n r h" "below_slot cmp n r h e" "n < length r" "h \<le> n"
    and "2 \<le> h \<Longrightarrow> k \<le> h div 2 \<Longrightarrow> cmp (r ! (h div 2)) e \<le> 0"
  shows "heap_from cmp k n (r[h := e])"
  unfolding heap_from_def
proof (intro allI impI)
  fix i assume i: "2 \<le> i \<and> i \<le> n \<and> k \<le> i div 2"
  then have "i div 2 < i" by simp
  then show "cmp (r[h := e] ! (i div 2)) (r[h := e] ! i) \<le> 0"
    using i assms by (auto simp: nth_list_update heap_hole_def below_slot_def)
qed

text \<open>One step of the slot up to its parent.\<close>

lemma heap_hole_rise:
  assumes hole: "heap_hole cmp k n r h" and below: "below_slot cmp n r h e"
    and h: "2 \<le> h" "h \<le> n" "k \<le> h div 2" "n < length r"
    and less: "cmp e (r ! (h div 2)) < 0"
  shows "heap_hole cmp k n (r[h := r ! (h div 2)]) (h div 2)" (is "heap_hole _ _ _ ?r ?p")
    and "below_slot cmp n (r[h := r ! (h div 2)]) (h div 2) e"
proof -
  have ph: "?p < h" "?p \<noteq> h" using h by auto
  have at: "?r ! i = (if i = h then r ! ?p else r ! i)" for i
    using h by (simp add: nth_list_update)
  have sib: "cmp (r ! ?p) (r ! i) \<le> 0" if "2 \<le> i" "i \<le> n" "i div 2 = ?p" "i \<noteq> h" for i
    using heap_hole_edge [OF hole, of i] that ph h by simp
  have e: "cmp e (r ! ?p) \<le> 0" using less by simp
  show "below_slot cmp n ?r ?p e"
    unfolding below_slot_def at using sib e cmp_trans [OF e] by auto
  show "heap_hole cmp k n ?r ?p"
    unfolding heap_hole_def
  proof (intro conjI allI impI; elim conjE)
    fix i assume i: "2 \<le> i" "i \<le> n" "k \<le> i div 2" "i \<noteq> ?p" "i div 2 \<noteq> ?p"
    then have "i \<noteq> h" by blast
    show "cmp (?r ! (i div 2)) (?r ! i) \<le> 0"
    proof (cases "i div 2 = h")
      case True
      with heap_hole_skip [OF hole _ _ True] i h \<open>i \<noteq> h\<close> show ?thesis by (simp add: at)
    next
      case False
      with heap_hole_edge [OF hole, of i] i \<open>i \<noteq> h\<close> show ?thesis by (simp add: at)
    qed
  next
    fix i assume i: "2 \<le> ?p" "i \<le> n" "i div 2 = ?p" "k \<le> ?p div 2"
    have pp: "?p div 2 \<noteq> h" using ph by linarith
    have top: "cmp (r ! (?p div 2)) (r ! ?p) \<le> 0"
      using heap_hole_edge [OF hole, of ?p] i ph pp h by simp
    have "2 \<le> i" using i by linarith
    show "cmp (?r ! (?p div 2)) (?r ! i) \<le> 0"
      using top pp sib [OF \<open>2 \<le> i\<close> i(2,3)] cmp_trans [OF top] by (simp add: at)
  qed
qed

text \<open>One step of the slot down to its smaller child \<open>c\<close>.\<close>

lemma heap_hole_sink:
  assumes hole: "heap_hole cmp k n r h"
    and h: "1 \<le> h" "k \<le> h" "n < length r" "c div 2 = h" "c \<le> n"
    and small: "\<And>i. 2 \<le> i \<Longrightarrow> i \<le> n \<Longrightarrow> i div 2 = h \<Longrightarrow> cmp (r ! c) (r ! i) \<le> 0"
  shows "heap_hole cmp k n (r[h := r ! c]) c" (is "heap_hole _ _ _ ?r _")
  unfolding heap_hole_def
proof (intro conjI allI impI; elim conjE)
  have hc: "h < c" "2 \<le> c" using h by linarith+
  have at: "?r ! i = (if i = h then r ! c else r ! i)" for i
    using h hc by (simp add: nth_list_update)
  {
    fix i assume i: "2 \<le> i" "i \<le> n" "k \<le> i div 2" "i \<noteq> c" "i div 2 \<noteq> c"
    then have "i div 2 \<noteq> i" by linarith
    then consider "i = h" "i div 2 \<noteq> h" | "i div 2 = h" "i \<noteq> h" | "i \<noteq> h" "i div 2 \<noteq> h"
      by metis
    then show "cmp (?r ! (i div 2)) (?r ! i) \<le> 0"
    proof cases
      case 1
      with heap_hole_skip [OF hole, of c] i h show ?thesis by (simp add: at)
    next
      case 2
      with small [of i] i show ?thesis by (simp add: at)
    next
      case 3
      with heap_hole_edge [OF hole, of i] i show ?thesis by (simp add: at)
    qed
  next
    fix i assume i: "2 \<le> c" "i \<le> n" "i div 2 = c" "k \<le> c div 2"
    then have "i \<noteq> h" "2 \<le> i" "c \<noteq> h" using hc by linarith+
    with heap_hole_edge [OF hole, of i] i h show "cmp (?r ! (c div 2)) (?r ! i) \<le> 0"
      by (simp add: at)
  }
qed

text \<open>The whole rise: the slot it leaves can be filled.\<close>

lemma downheap_rise_heap:
  assumes "downheap_rise cmp off s e r m h = (r', m', h')"
    and "slot_inv t off n e M r m h" "heap_hole cmp k n r h" "below_slot cmp n r h e"
    and "descends s h" "k \<le> Suc s"
    and "1 \<le> s \<Longrightarrow> h \<noteq> s \<Longrightarrow> cmp (r ! s) e \<le> 0"
    and "1 \<le> s \<Longrightarrow> h = s \<Longrightarrow> 2 \<le> h \<Longrightarrow> k \<le> h div 2 \<Longrightarrow> cmp (r ! (h div 2)) e \<le> 0"
  shows "heap_from cmp k n (r'[h' := e])"
  using assms
proof (induction h arbitrary: r m rule: less_induct)
  case (less h)
  have h: "n < length r" "1 \<le> h" "h \<le> n" using less.prems(2) by (auto simp: slot_inv_def)
  show ?case
  proof (cases "s < h div 2 \<and> cmp e (r ! (h div 2)) < 0")
    case True
    let ?r = "r[h := r ! (h div 2)]" and ?m = "store_pos off m (r ! (h div 2)) h"
    have hs: "h \<noteq> s" "h \<noteq> h div 2" "h div 2 < h" "2 \<le> h" using True by auto
    have run: "downheap_rise cmp off s e ?r ?m (h div 2) = (r', m', h')"
      using less.prems(1) True h by (simp add: downheap_rise.simps [of cmp off s e r m h] Let_def)
    have slot: "slot_inv t off n e M ?r ?m (h div 2)"
      using slot_step [OF less.prems(2), of "h div 2"] hs h by linarith
    note up = heap_hole_rise [OF less.prems(3,4) hs(4) h(3) _ h(1)]
    have kh: "k \<le> h div 2" using True less.prems(6) by linarith
    have d: "descends s (h div 2)" using descends_parent less.prems(5) hs by blast
    have "1 \<le> s \<Longrightarrow> cmp (?r ! s) e \<le> 0" using less.prems(7) hs by simp
    then show ?thesis
      using less.IH [OF hs(3) run slot] up kh True d less.prems(6) by auto
  next
    case False
    then have res: "r' = r" "h' = h"
      using less.prems(1) by (auto simp: downheap_rise.simps [of cmp off s e r m h] split: if_splits)
    have "cmp (r ! (h div 2)) e \<le> 0" if hh: "2 \<le> h" "k \<le> h div 2"
    proof (cases "s < h div 2")
      case True
      with False show ?thesis using cmp_less_iff by blast
    next
      case no: False
      show ?thesis
      proof (cases "h = s")
        case True
        with less.prems(8) hh h show ?thesis by simp
      next
        case neq: False
        then have "h div 2 = s"
          using descends_le descends_parent less.prems(5) no by fastforce
        with neq less.prems(7) hh show ?thesis by auto
      qed
    qed
    with heap_fill less.prems(3,4) h show ?thesis by (simp add: res)
  qed
qed

text \<open>The sinking slot: it ends at the start with the element stored, or at a leaf.\<close>

lemma downheap_sink_heap:
  assumes "slot_inv t off n e M r m h" "heap_hole cmp k n r h" "1 \<le> s" "k \<le> s" "descends s h"
    and "first \<longleftrightarrow> h = s" "\<not> first \<Longrightarrow> cmp (r ! s) e \<le> 0"
  shows "case downheap_sink cmp off n e r m h first of
      Inl (r', m') \<Rightarrow> first \<and> r' = r[h := e] \<and> m' = store_pos off m e h \<and> below_slot cmp n r h e
    | Inr (r', m', h') \<Rightarrow> slot_inv t off n e M r' m' h' \<and> length r' = length r \<and>
        heap_hole cmp k n r' h' \<and> descends s h' \<and> below_slot cmp n r' h' e \<and> h \<le> h' \<and>
        (h' \<noteq> s \<longrightarrow> cmp (r' ! s) e \<le> 0) \<and> (h' = h \<longrightarrow> r' = r)"
  using assms
proof (induction "n - h" arbitrary: r m h first rule: less_induct)
  case less
  have h: "n < length r" "1 \<le> h" "h \<le> n" "s \<le> h"
    using less.prems(1,5) descends_le by (auto simp: slot_inv_def)
  show ?case
  proof (cases "h \<le> n div 2")
    case in_loop: True
    define c where "c = (if h + h < n \<and> cmp (r ! (h + h)) (r ! (h + h + 1)) > 0
      then h + h + 1 else h + h)"
    have c: "c div 2 = h" "c \<le> n" "1 \<le> c" "c \<noteq> h" "h < c"
      using in_loop h by (auto simp: c_def)
    have small: "cmp (r ! c) (r ! i) \<le> 0" if "i \<le> n" "i div 2 = h" for i
    proof -
      have "i = h + h \<or> i = h + h + 1" using that by linarith
      then show ?thesis
        using that cmp_refl cmp_total [of "r ! (h + h)" "r ! (h + h + 1)"] by (auto simp: c_def)
    qed
    have unfold: "downheap_sink cmp off n e r m h first =
      (if first \<and> cmp (r ! c) e \<ge> 0 then Inl (r[h := e], store_pos off m e h)
       else downheap_sink cmp off n e (r[h := r ! c]) (store_pos off m (r ! c) h) c False)"
      using in_loop h by (subst downheap_sink.simps) (simp add: Let_def c_def)
    show ?thesis
    proof (cases "first \<and> cmp (r ! c) e \<ge> 0")
      case True
      then have "below_slot cmp n r h e"
        unfolding below_slot_def using small cmp_ge_iff cmp_trans by blast
      with True unfold show ?thesis by simp
    next
      case False
      define r1 m1 where "r1 = r[h := r ! c]" and "m1 = store_pos off m (r ! c) h"
      have run: "downheap_sink cmp off n e r m h first = downheap_sink cmp off n e r1 m1 c False"
        unfolding unfold r1_def m1_def by (rule if_not_P [OF False])
      have slot: "slot_inv t off n e M r1 m1 c"
        using slot_step [OF less.prems(1), of c] c by (simp add: r1_def m1_def)
      have hole: "heap_hole cmp k n r1 c"
        using heap_hole_sink [OF less.prems(2), of c] c h less.prems(4) small
        by (simp add: r1_def)
      have d: "descends s c" using descends_child less.prems(5) c by blast
      have top: "cmp (r1 ! s) e \<le> 0"
      proof (cases first)
        case True
        then have "cmp (r ! c) e \<le> 0" using False by linarith
        with True less.prems(6) h show ?thesis by (simp add: r1_def)
      next
        case nf: False
        with less.prems(6,7) show ?thesis by (simp add: r1_def)
      qed
      have lt: "n - c < n - h" and "c \<noteq> s" using c h by linarith+
      then have nf: "False = (c = s)" by simp
      note IH = less.hyps [OF lt slot hole less.prems(3,4) d nf top]
      have "length r1 = length r" by (simp add: r1_def)
      with IH c(5) show ?thesis unfolding run by (simp split: sum.splits prod.splits)
    qed
  next
    case False
    then have "below_slot cmp n r h e" by (auto simp: below_slot_def)
    moreover have "downheap_sink cmp off n e r m h first = Inr (r, m, h)"
      using False by (subst downheap_sink.simps) simp
    ultimately show ?thesis using less.prems by auto
  qed
qed

end

section \<open>The operations on heaps\<close>

text \<open>A queue whose array is big enough, whose \<open>max_at_top\<close> is one of the two values
  \<open>queue_set_max_at_top\<close> stores, and whose elements are in heap order.\<close>

definition queue_wf :: "'a queue \<Rightarrow> bool" where
  "queue_wf q \<longleftrightarrow> q_elements q \<le> q_max_elements q \<and> length (q_root q) = q_max_elements q + 1 \<and>
     q_max_at_top q \<in> {- 1, 1} \<and> queue_compare (q_compare q (q_first_cmp_arg q))"

definition queue_heap :: "'a queue \<Rightarrow> bool" where
  "queue_heap q \<longleftrightarrow> heap_from (queue_cmp q) 1 (q_elements q) (q_root q)"

definition queue_contents :: "'a queue \<Rightarrow> ptr multiset" where
  "queue_contents q = mset (elems (q_elements q) (q_root q))"

definition queue_pos_ok :: "'a queue \<Rightarrow> mem \<Rightarrow> bool" where
  "queue_pos_ok q m \<longleftrightarrow> pos_ok (q_offset_to_queue_pos q) (q_elements q) (q_root q) m"

lemma queue_cmp_compare:
  assumes "queue_wf q"
  shows "queue_compare (queue_cmp q)"
proof -
  let ?c = "q_compare q (q_first_cmp_arg q)"
  have c: "queue_compare ?c" and t: "q_max_at_top q = 1 \<or> q_max_at_top q = - 1"
    using assms by (auto simp: queue_wf_def)
  show ?thesis
  proof (unfold_locales)
    fix a b c
    show "sgn (queue_cmp q b a) = - sgn (queue_cmp q a b)"
      by (simp add: queue_cmp_def sgn_mult queue_compare.cmp_swap [OF c, of "b + q_offset_to_key q"])
    assume ab: "queue_cmp q a b \<le> 0" "queue_cmp q b c \<le> 0"
    from t show "queue_cmp q a c \<le> 0"
    proof
      assume "q_max_at_top q = 1"
      with ab queue_compare.cmp_trans [OF c] show ?thesis by (simp add: queue_cmp_def)
    next
      assume t: "q_max_at_top q = - 1"
      let ?k = "\<lambda>x. x + q_offset_to_key q"
      have "?c (?k b) (?k a) \<le> 0" "?c (?k c) (?k b) \<le> 0"
        using ab t queue_compare.cmp_ge_iff [OF c, of "?k a" "?k b"]
          queue_compare.cmp_ge_iff [OF c, of "?k b" "?k c"] by (simp_all add: queue_cmp_def)
      then have "?c (?k c) (?k a) \<le> 0"
        using queue_compare.cmp_trans [OF c] by blast
      then show ?thesis
        using t queue_compare.cmp_ge_iff [OF c, of "?k a" "?k c"] by (simp add: queue_cmp_def)
    qed
  qed
qed

lemma downheap_fields:
  "q_elements (fst (downheap q m s e)) = q_elements q"
  "q_max_elements (fst (downheap q m s e)) = q_max_elements q"
  "q_max_at_top (fst (downheap q m s e)) = q_max_at_top q"
  "q_compare (fst (downheap q m s e)) = q_compare q"
  "q_first_cmp_arg (fst (downheap q m s e)) = q_first_cmp_arg q"
  "q_offset_to_key (fst (downheap q m s e)) = q_offset_to_key q"
  "q_offset_to_queue_pos (fst (downheap q m s e)) = q_offset_to_queue_pos q"
  by (simp_all add: downheap_def Let_def split: sum.splits prod.splits)

lemma queue_cmp_cong:
  "q_compare q = q_compare q' \<Longrightarrow> q_first_cmp_arg q = q_first_cmp_arg q' \<Longrightarrow>
   q_offset_to_key q = q_offset_to_key q' \<Longrightarrow> q_max_at_top q = q_max_at_top q' \<Longrightarrow>
   queue_cmp q = queue_cmp q'"
  by (simp add: queue_cmp_def fun_eq_iff)

text \<open>\<open>_downheap\<close>: the subtree condition above \<open>start_idx\<close> carries over, nothing is lost.\<close>

lemma downheap_correct:
  assumes "queue_compare (queue_cmp q)"
    and slot: "slot_inv t (q_offset_to_queue_pos q) (q_elements q) e M (q_root q) m s"
    and hole: "heap_hole (queue_cmp q) k (q_elements q) (q_root q) s" and "k \<le> s"
    and up: "2 \<le> s \<Longrightarrow> k \<le> s div 2 \<Longrightarrow> queue_cmp q (q_root q ! (s div 2)) e \<le> 0"
    and run: "downheap q m s e = (q', m')"
  shows "heap_from (queue_cmp q) k (q_elements q) (q_root q')"
    and "mset (elems (q_elements q) (q_root q')) = M"
    and "length (q_root q') = length (q_root q)"
    and "t \<Longrightarrow> pos_ok (q_offset_to_queue_pos q) (q_elements q) (q_root q') m'"
proof -
  let ?off = "q_offset_to_queue_pos q" and ?n = "q_elements q" and ?c = "queue_cmp q"
  let ?r = "q_root q"
  have s: "1 \<le> s" "s \<le> ?n" "?n < length ?r" using slot by (auto simp: slot_inv_def)
  note sink = queue_compare.downheap_sink_heap [OF assms(1) slot hole s(1) \<open>k \<le> s\<close>, of True]
  have "heap_from ?c k ?n (q_root q') \<and> mset (elems ?n (q_root q')) = M \<and>
    length (q_root q') = length ?r \<and> (t \<longrightarrow> pos_ok ?off ?n (q_root q') m')"
  proof (cases "downheap_sink ?c ?off ?n e ?r m s True")
    case (Inl p)
    then obtain r1 m1 where d: "downheap_sink ?c ?off ?n e ?r m s True = Inl (r1, m1)"
      by (cases p) auto
    with sink have r1: "r1 = ?r[s := e]" "m1 = store_pos ?off m e s" "below_slot ?c ?n ?r s e"
      by auto
    have "q_root q' = r1" "m' = m1" using run d by (auto simp: downheap_def)
    with r1 show ?thesis
      using queue_compare.heap_fill [OF assms(1) hole r1(3) s(3,2) up] slot_fill [OF slot] by auto
  next
    case (Inr p)
    then obtain r1 m1 h1 where d: "downheap_sink ?c ?off ?n e ?r m s True = Inr (r1, m1, h1)"
      by (cases p) auto
    obtain r2 m2 h2 where u: "downheap_rise ?c ?off s e r1 m1 h1 = (r2, m2, h2)"
      by (cases "downheap_rise ?c ?off s e r1 m1 h1") auto
    have res: "q_root q' = r2[h2 := e]" "m' = store_pos ?off m2 e h2"
      using run d u by (auto simp: downheap_def)
    from sink d have s1: "slot_inv t ?off ?n e M r1 m1 h1" "heap_hole ?c k ?n r1 h1"
      "below_slot ?c ?n r1 h1 e" "descends s h1" "length r1 = length ?r"
      "h1 \<noteq> s \<Longrightarrow> ?c (r1 ! s) e \<le> 0" "h1 = s \<Longrightarrow> r1 = ?r" by auto
    have "heap_from ?c k ?n (r2[h2 := e])"
      by (rule queue_compare.downheap_rise_heap [OF assms(1) u s1(1-4)])
        (use s1(6,7) up \<open>k \<le> s\<close> in auto)
    with downheap_rise_slot [OF s1(1) u] slot_fill res s1(5) show ?thesis by auto
  qed
  then show "heap_from ?c k ?n (q_root q')" "mset (elems ?n (q_root q')) = M"
    "length (q_root q') = length ?r"
    "t \<Longrightarrow> pos_ok ?off ?n (q_root q') m'" by auto
qed

text \<open>\<open>queue_insert\<close> keeps the heap, adds the element, and keeps the stored positions.\<close>

definition tracked :: "'a queue \<Rightarrow> mem \<Rightarrow> ptr multiset \<Rightarrow> bool" where
  "tracked q m M \<longleftrightarrow> q_offset_to_queue_pos q \<noteq> 0 \<and> queue_pos_ok q m \<and> (\<forall>a. count M a \<le> 1)"

lemma queue_insert_full:
  assumes wf: "queue_wf q" "queue_heap q" and room: "q_elements q < q_max_elements q"
    and run: "queue_insert q m e = (q', m')"
  shows "queue_wf q' \<and> queue_heap q' \<and> queue_contents q' = add_mset e (queue_contents q) \<and>
    (tracked q m (add_mset e (queue_contents q)) \<longrightarrow> queue_pos_ok q' m')"
proof -
  let ?n = "q_elements q + 1" and ?off = "q_offset_to_queue_pos q" and ?r = "q_root q"
  let ?M = "add_mset e (queue_contents q)" and ?c = "queue_cmp q"
  have len: "?n < length ?r" using wf room by (simp add: queue_wf_def)
  obtain r1 m1 h1 where u: "downheap_rise ?c ?off 0 e ?r m ?n = (r1, m1, h1)"
    by (cases "downheap_rise ?c ?off 0 e ?r m ?n") auto
  have q': "q' = q\<lparr>q_elements := ?n, q_root := r1[h1 := e]\<rparr>" "m' = store_pos ?off m1 e h1"
    using run u by (simp_all add: queue_insert_def queue_insert_loop_rise Let_def)
  have slot: "slot_inv (tracked q m ?M) ?off ?n e ?M ?r m ?n"
    using len unfolding slot_inv_def pos_but_def
    by (simp add: elems_Suc queue_contents_def tracked_def queue_pos_ok_def pos_ok_def)
  have hole: "heap_hole ?c 1 ?n ?r ?n" "below_slot ?c ?n ?r ?n e"
    using wf by (auto simp: queue_heap_def heap_from_def heap_hole_def below_slot_def)
  have "heap_from ?c 1 ?n (r1[h1 := e])"
    by (rule queue_compare.downheap_rise_heap [OF queue_cmp_compare [OF wf(1)] u slot hole])
      simp_all
  moreover have "queue_cmp q' = ?c" by (rule queue_cmp_cong) (simp_all add: q')
  moreover have s1: "slot_inv (tracked q m ?M) ?off ?n e ?M r1 m1 h1" "length r1 = length ?r"
    using downheap_rise_slot [OF slot u] by simp_all
  moreover note slot_fill(1) [OF s1(1)]
  moreover have "tracked q m ?M \<longrightarrow> pos_ok ?off ?n (r1[h1 := e]) (store_pos ?off m1 e h1)"
    using slot_fill(2) [OF s1(1)] by blast
  ultimately show ?thesis
    using wf room by (simp add: q' queue_wf_def queue_heap_def queue_contents_def queue_pos_ok_def)
qed

text \<open>The same for \<open>_downheap\<close> on a whole queue, with the slot at \<open>s\<close>.\<close>

lemma downheap_full:
  assumes wf: "queue_wf q" and s: "1 \<le> s" "s \<le> q_elements q" "k \<le> s"
    and hole: "heap_hole (queue_cmp q) k (q_elements q) (q_root q) s"
    and up: "2 \<le> s \<Longrightarrow> k \<le> s div 2 \<Longrightarrow> queue_cmp q (q_root q ! (s div 2)) e \<le> 0"
    and run: "downheap q m s e = (q', m')"
  shows "queue_wf q' \<and> queue_cmp q' = queue_cmp q \<and> q_elements q' = q_elements q \<and>
    q_max_elements q' = q_max_elements q \<and>
    heap_from (queue_cmp q) k (q_elements q) (q_root q') \<and>
    queue_contents q' = mset (elems (q_elements q) ((q_root q)[s := e])) \<and>
    (pos_but (q_offset_to_queue_pos q) (q_elements q) (q_root q) m s \<and>
     (\<forall>a. count (queue_contents q') a \<le> 1) \<longrightarrow> queue_pos_ok q' m')"
proof -
  let ?off = "q_offset_to_queue_pos q" and ?n = "q_elements q" and ?r = "q_root q"
  let ?M = "mset (elems ?n (?r[s := e]))"
  let ?t = "?off \<noteq> 0 \<and> (\<forall>a. count ?M a \<le> 1) \<and> pos_but ?off ?n ?r m s"
  have slot: "slot_inv ?t ?off ?n e ?M ?r m s"
    using wf s by (simp add: slot_inv_def queue_wf_def)
  note d = downheap_correct [OF queue_cmp_compare [OF wf] slot hole s(3) up run]
  note f = downheap_fields [of q m s e, unfolded run fst_conv]
  have "queue_cmp q' = queue_cmp q" by (rule queue_cmp_cong) (simp_all add: f)
  moreover have "queue_wf q'" using wf d(3) by (simp add: queue_wf_def f)
  moreover have "queue_contents q' = ?M" using d(2) by (simp add: queue_contents_def f)
  moreover have "?t \<or> ?off = 0 \<longrightarrow> queue_pos_ok q' m'"
    using d(4) by (auto simp: queue_pos_ok_def f pos_ok_def)
  ultimately show ?thesis using d(1) by (auto simp: f)
qed

lemma heap_from_hole: "heap_from cmp k n r \<Longrightarrow> 1 \<le> s \<Longrightarrow> k \<le> s \<Longrightarrow>
    (\<And>i. i \<le> n \<Longrightarrow> i div 2 = s \<Longrightarrow> 2 \<le> s \<Longrightarrow> k \<le> s div 2 \<Longrightarrow> cmp (r ! (s div 2)) (r ! i) \<le> 0) \<Longrightarrow>
    heap_hole cmp k n r s"
  by (simp add: heap_from_def heap_hole_def)

text \<open>A heap with any slot freed.\<close>

lemma heap_any_hole:
  assumes "queue_compare cmp" "heap_from cmp 1 n r" "1 \<le> s" "s \<le> n" and that: "n' \<le> n"
  shows "heap_hole cmp 1 n' r s"
proof (rule heap_from_hole)
  show "heap_from cmp 1 n' r" using assms(2) that by (simp add: heap_from_def)
  fix i assume i: "i \<le> n'" "i div 2 = s" "2 \<le> s"
  have a: "cmp (r ! (s div 2)) (r ! s) \<le> 0"
    using assms(2) i assms(4) by (simp add: heap_from_def)
  have "2 \<le> i" "1 \<le> i div 2" using i by linarith+
  with i that have b: "cmp (r ! s) (r ! i) \<le> 0"
    using assms(2) by (auto simp: heap_from_def)
  show "cmp (r ! (s div 2)) (r ! i) \<le> 0"
    by (rule queue_compare.cmp_trans [OF assms(1) a b])
qed (use assms in auto)

lemma elems_remove:
  assumes "1 \<le> s" "s \<le> Suc n" "Suc n < length r"
  shows "add_mset (r ! s) (mset (elems n (r[s := r ! Suc n]))) = mset (elems (Suc n) r)"
proof (cases "s = Suc n")
  case True
  with assms show ?thesis by (simp add: elems_Suc)
next
  case False
  then have s: "s - 1 < length (elems n r)" using assms by simp
  have "r ! s \<in> set (elems n r)" "elems n r ! (s - 1) = r ! s"
    using assms s nth_elems [of n r "s - 1"] nth_mem [OF s] by auto
  with s assms show ?thesis
    by (simp add: elems_update mset_update elems_Suc)
qed

text \<open>
  \<open>queue_remove\<close>: the element that fills the slot must not be before the parent of the
  slot.  For the top this holds; for the last element there is no slot to fill.
\<close>

lemma queue_remove_full:
  assumes wf: "queue_wf q" "queue_heap q" and idx: "1 \<le> idx" "idx \<le> q_elements q"
    and up: "2 \<le> idx \<Longrightarrow> idx < q_elements q \<Longrightarrow>
      queue_cmp q (q_root q ! (idx div 2)) (q_root q ! q_elements q) \<le> 0"
    and run: "queue_remove q m idx = ((q', m'), x)"
  shows "queue_wf q' \<and> queue_heap q' \<and> x = q_root q ! idx \<and>
    queue_contents q = add_mset x (queue_contents q') \<and>
    (tracked q m (queue_contents q) \<longrightarrow> queue_pos_ok q' m')"
proof -
  obtain n where n: "q_elements q = Suc n" using idx by (cases "q_elements q") auto
  define q1 where "q1 = q\<lparr>q_elements := n\<rparr>"
  have x: "x = q_root q ! idx" and d: "downheap q1 m idx (q_root q ! Suc n) = (q', m')"
    using run by (auto simp: queue_remove_def Let_def n q1_def)
  have wf1: "queue_wf q1" using wf n by (simp add: queue_wf_def q1_def)
  have c1: "queue_cmp q1 = queue_cmp q" by (rule queue_cmp_cong) (simp_all add: q1_def)
  have f1: "q_root q1 = q_root q" "q_elements q1 = n"
    "q_offset_to_queue_pos q1 = q_offset_to_queue_pos q" by (simp_all add: q1_def)
  have len: "Suc n < length (q_root q)" using wf n by (simp add: queue_wf_def)
  have heap: "heap_from (queue_cmp q) 1 (Suc n) (q_root q)" using wf n by (simp add: queue_heap_def)
  show ?thesis
  proof (cases "idx = Suc n")
    case True
    have "\<not> Suc n \<le> n div 2" by linarith
    then have "downheap_sink (queue_cmp q) (q_offset_to_queue_pos q) n (q_root q ! Suc n) (q_root q) m
        (Suc n) True = Inr (q_root q, m, Suc n)" by (subst downheap_sink.simps) simp
    moreover have "\<not> Suc n < Suc n div 2" by linarith
    then have "downheap_rise (queue_cmp q) (q_offset_to_queue_pos q) (Suc n) (q_root q ! Suc n)
        (q_root q) m (Suc n) = (q_root q, m, Suc n)" by (subst downheap_rise.simps) simp
    ultimately have q': "q' = q1" "m' = store_pos (q_offset_to_queue_pos q) m (q_root q ! Suc n) (Suc n)"
      using d by (simp_all add: downheap_def c1 f1 True) (simp add: q1_def)
    have "queue_heap q1" using heap by (simp add: queue_heap_def heap_from_def c1) (simp add: q1_def)
    moreover have "queue_contents q = add_mset x (queue_contents q1)"
      using len by (simp add: queue_contents_def n q1_def elems_Suc x True)
    moreover have "queue_pos_ok q1 m'" if t: "tracked q m (queue_contents q)"
    proof -
      have dist: "distinct (elems (Suc n) (q_root q))"
        using t by (simp add: tracked_def queue_contents_def n distinct_elems_count del: One_nat_def)
      have "q_root q ! i + q_offset_to_queue_pos q - 1 \<noteq> q_root q ! Suc n + q_offset_to_queue_pos q - 1"
        if "1 \<le> i" "i \<le> n" for i
        using distinct_elems_nth [OF dist len, of i "Suc n"] that t by (auto simp: tracked_def)
      with t show ?thesis
        by (simp add: tracked_def queue_pos_ok_def pos_ok_def q' q1_def n store_pos_def)
    qed
    ultimately show ?thesis using wf1 by (simp add: q' x)
  next
    case False
    then have le: "idx \<le> n" using idx n by simp
    have hole: "heap_hole (queue_cmp q1) 1 (q_elements q1) (q_root q1) idx"
      using heap_any_hole [OF queue_cmp_compare [OF wf(1)] heap idx(1), of n] le
      by (simp add: c1 f1)
    have "2 \<le> idx \<Longrightarrow> queue_cmp q1 (q_root q1 ! (idx div 2)) (q_root q ! Suc n) \<le> 0"
      using up le n by (simp add: c1 f1)
    then have df: "queue_wf q' \<and> queue_cmp q' = queue_cmp q \<and> q_elements q' = n \<and>
      heap_from (queue_cmp q) 1 n (q_root q') \<and>
      queue_contents q' = mset (elems n ((q_root q)[idx := q_root q ! Suc n])) \<and>
      (pos_but (q_offset_to_queue_pos q) n (q_root q) m idx \<and>
       (\<forall>a. count (queue_contents q') a \<le> 1) \<longrightarrow> queue_pos_ok q' m')"
      using downheap_full [OF wf1 idx(1) _ idx(1) hole _ d] le by (simp add: c1 f1)
    moreover have "queue_contents q = add_mset x (queue_contents q')"
      using elems_remove [OF idx(1) _ len] le df by (simp add: queue_contents_def [of q] n x)
    moreover have "tracked q m (queue_contents q) \<longrightarrow>
      pos_but (q_offset_to_queue_pos q) n (q_root q) m idx \<and> (\<forall>a. count (queue_contents q') a \<le> 1)"
      using calculation(2)
      by (auto simp: tracked_def queue_pos_ok_def pos_ok_def pos_but_def n split: if_splits)
    ultimately show ?thesis by (auto simp: queue_heap_def x)
  qed
qed

lemma heap_top_min:
  assumes "queue_compare cmp" "heap_from cmp 1 n r" "1 \<le> i" "i \<le> n"
  shows "cmp (r ! 1) (r ! i) \<le> 0"
  using assms(3,4)
proof (induction i rule: less_induct)
  case (less i)
  show ?case
  proof (cases "i = 1")
    case True
    then show ?thesis using queue_compare.cmp_refl [OF assms(1)] by simp
  next
    case False
    then have i: "i div 2 < i" "1 \<le> i div 2" "i div 2 \<le> n" "2 \<le> i" using less.prems by linarith+
    then have "cmp (r ! (i div 2)) (r ! i) \<le> 0"
      using assms(2) less.prems by (simp add: heap_from_def)
    with less.IH [OF i(1-3)] show ?thesis by (rule queue_compare.cmp_trans [OF assms(1)])
  qed
qed

lemma queue_top_min:
  assumes "queue_wf q" "queue_heap q" "y \<in># queue_contents q"
  shows "queue_cmp q (queue_top q) y \<le> 0"
proof -
  have "q_elements q < length (q_root q)" using assms(1) by (simp add: queue_wf_def)
  then obtain i where "y = q_root q ! i" "1 \<le> i" "i \<le> q_elements q"
    using assms(3) by (auto simp: queue_contents_def set_elems)
  with heap_top_min [OF queue_cmp_compare] assms(1,2) show ?thesis
    by (simp add: queue_top_def queue_heap_def)
qed

lemma queue_fix_loop_heap:
  assumes "queue_wf q" "i \<le> q_elements q"
    and "heap_from (queue_cmp q) (Suc i) (q_elements q) (q_root q)"
    and "queue_fix_loop q m i = (q', m')"
  shows "queue_wf q' \<and> queue_heap q' \<and> queue_contents q' = queue_contents q \<and>
    (tracked q m (queue_contents q) \<longrightarrow> queue_pos_ok q' m')"
  using assms
proof (induction i arbitrary: q m)
  case 0
  then show ?case by (simp add: queue_heap_def tracked_def)
next
  case (Suc i)
  let ?e = "q_root q ! Suc i"
  obtain q1 m1 where d: "downheap q m (Suc i) ?e = (q1, m1)"
    by (cases "downheap q m (Suc i) ?e") auto
  have no_parent: "\<not> Suc i \<le> Suc i div 2" by linarith
  have hole: "heap_hole (queue_cmp q) (Suc i) (q_elements q) (q_root q) (Suc i)"
    using Suc.prems(3) by (auto simp: heap_hole_def heap_from_def)
  have df: "queue_wf q1 \<and> queue_cmp q1 = queue_cmp q \<and> q_elements q1 = q_elements q \<and>
    heap_from (queue_cmp q) (Suc i) (q_elements q) (q_root q1) \<and>
    queue_contents q1 = queue_contents q \<and>
    (pos_but (q_offset_to_queue_pos q) (q_elements q) (q_root q) m (Suc i) \<and>
     (\<forall>a. count (queue_contents q1) a \<le> 1) \<longrightarrow> queue_pos_ok q1 m1)"
    using downheap_full [OF Suc.prems(1) _ Suc.prems(2) _ hole _ d] no_parent
    by (simp add: queue_contents_def [of q])
  have off: "q_offset_to_queue_pos q1 = q_offset_to_queue_pos q"
    using downheap_fields(7) [of q m "Suc i" ?e] d by simp
  have "tracked q m (queue_contents q) \<longrightarrow> tracked q1 m1 (queue_contents q)"
    using df off by (auto simp: tracked_def queue_pos_ok_def [of q] pos_ok_def pos_but_def)
  moreover have "queue_fix_loop q1 m1 i = (q', m')" using Suc.prems(4) d by simp
  ultimately show ?case
    using Suc.IH [of q1 m1] df Suc.prems(2) by auto
qed

section \<open>Comparison functions of the queue's users\<close>

text \<open>\<open>compare_ulong\<close> of \<open>mysys/thr_alarm.c\<close>; \<open>ul\<close> reads an \<open>ulong\<close> at an address.\<close>

definition compare_ulong :: "(ptr \<Rightarrow> nat) \<Rightarrow> unit \<Rightarrow> ptr \<Rightarrow> ptr \<Rightarrow> int" where
  "compare_ulong ul not_used a_ptr b_ptr =
     (let a = ul a_ptr; b = ul b_ptr in if a < b then - 1 else if a = b then 0 else 1)"

interpretation alarm: queue_compare "compare_ulong ul arg" for ul arg
  by unfold_locales (auto simp: compare_ulong_def Let_def split: if_splits)

text \<open>
  \<open>event_queue_element_compare_q\<close> of \<open>sql/event_queue.cc\<close>, over the two fields of the
  event that it reads.
\<close>

record event_queue_element =
  ev_execute_at :: int
  ev_disabled :: bool

definition event_queue_element_compare_q ::
    "(ptr \<Rightarrow> event_queue_element) \<Rightarrow> unit \<Rightarrow> ptr \<Rightarrow> ptr \<Rightarrow> int" where
  "event_queue_element_compare_q ev vptr a b =
     (let left = ev a; right = ev b; lhs = ev_execute_at left; rhs = ev_execute_at right in
      if ev_disabled left then (if ev_disabled right then 0 else 1)
      else if ev_disabled right then 1
      else if lhs < rhs then - 1 else if lhs > rhs then 1 else 0)"

section \<open>Properties\<close>

text \<open>A queue of alarms for the witnesses: seven elements at the addresses 10 to 70 whose key
  is the tenth of the address, with the position stored one word behind the key.\<close>

definition alarm_queue :: "ptr list \<Rightarrow> nat \<Rightarrow> unit queue" where
  "alarm_queue r n =
     \<lparr>q_root = r, q_first_cmp_arg = (), q_elements = n, q_max_elements = length r - 1,
      q_offset_to_key = 0, q_offset_to_queue_pos = 2, q_auto_extent = 4, q_max_at_top = 1,
      q_compare = compare_ulong (\<lambda>p. p)\<rparr>"

lemma alarm_queue_wf: "r \<noteq> [] \<Longrightarrow> n < length r \<Longrightarrow> queue_wf (alarm_queue r n)"
  by (auto simp: queue_wf_def alarm_queue_def alarm.queue_compare_axioms)

lemma alarm_queue_cmp: "queue_cmp (alarm_queue r n) a b \<le> 0 \<longleftrightarrow> a \<le> b"
  by (simp add: queue_cmp_def alarm_queue_def compare_ulong_def Let_def)

lemma heap_from_code:
  "heap_from cmp k n r \<longleftrightarrow>
     list_all (\<lambda>i. k \<le> i div 2 \<longrightarrow> cmp (r ! (i div 2)) (r ! i) \<le> 0) [2..<Suc n]"
  by (auto simp: heap_from_def list_all_iff)

text \<open>
  C6: inserting into a queue that is not full keeps it a heap with exactly the new element
  added, and every element's stored position stays its index in the array.
\<close>

theorem queue_insert_correct:
  assumes "queue_wf q" "queue_heap q" "q_elements q < q_max_elements q"
  shows "case queue_insert q m e of (q', m') \<Rightarrow>
    queue_wf q' \<and> queue_heap q' \<and> queue_contents q' = add_mset e (queue_contents q) \<and>
    (tracked q m (add_mset e (queue_contents q)) \<longrightarrow> queue_pos_ok q' m')"
  using queue_insert_full [OF assms] by (cases "queue_insert q m e") simp

theorem queue_insert_correct_witness:
  "case queue_insert (alarm_queue [0, 20, 30, 0] 2) (\<lambda>p. if p = 21 then 1 else 2) 10 of (q', m') \<Rightarrow>
     queue_heap q' \<and> queue_contents q' = {#10, 20, 30#} \<and> queue_pos_ok q' m'"
proof -
  let ?q = "alarm_queue [0, 20, 30, 0] 2" and ?m = "\<lambda>p::nat. if p = 21 then 1 else (2::nat)"
  have h: "queue_heap ?q"
    by (simp add: queue_heap_def heap_from_code alarm_queue_cmp) (simp add: alarm_queue_def upt_rec)
  have c: "queue_contents ?q = {#20, 30#}"
    by (simp add: queue_contents_def alarm_queue_def elems_def)
  have t: "tracked ?q ?m (add_mset 10 (queue_contents ?q))"
    unfolding c by (auto simp: tracked_def queue_pos_ok_def pos_ok_def alarm_queue_def
        le_Suc_eq numeral_2_eq_2)
  have wf: "queue_wf ?q" by (rule alarm_queue_wf) simp_all
  have room: "q_elements ?q < q_max_elements ?q" by (simp add: alarm_queue_def)
  show ?thesis
    using queue_insert_correct [OF wf h room, where m = ?m and e = 10] t
    by (auto simp: c)
qed

text \<open>
  C7: removing the top of a non-empty heap returns an element that no element of the queue
  is before, and leaves a heap with exactly the other elements, positions up to date.
\<close>

theorem queue_remove_top_correct:
  assumes "queue_wf q" "queue_heap q" "0 < q_elements q"
  shows "case queue_remove_top q m of ((q', m'), x) \<Rightarrow>
    (\<forall>y \<in># queue_contents q. queue_cmp q x y \<le> 0) \<and> queue_wf q' \<and> queue_heap q' \<and>
    queue_contents q = add_mset x (queue_contents q') \<and>
    (tracked q m (queue_contents q) \<longrightarrow> queue_pos_ok q' m')"
proof -
  obtain q' m' x where run: "queue_remove q m 1 = ((q', m'), x)"
    by (metis prod.collapse)
  have x: "x = queue_top q" using run by (simp add: queue_remove_def queue_top_def Let_def)
  have "queue_wf q' \<and> queue_heap q' \<and> queue_contents q = add_mset x (queue_contents q') \<and>
    (tracked q m (queue_contents q) \<longrightarrow> queue_pos_ok q' m')"
    using queue_remove_full [OF assms(1,2) _ _ _ run] assms(3) by simp
  then show ?thesis
    unfolding queue_remove_top_def run prod.case
    using queue_top_min [OF assms(1,2)] x by blast
qed

theorem queue_remove_top_correct_witness:
  "case queue_remove_top (alarm_queue [0, 10, 20, 30] 3) (\<lambda>p. p div 10) of ((q', m'), x) \<Rightarrow>
     queue_heap q' \<and> {#10, 20, 30#} = add_mset x (queue_contents q')"
proof -
  let ?q = "alarm_queue [0, 10, 20, 30] 3"
  have h: "queue_heap ?q"
    by (simp add: queue_heap_def heap_from_code alarm_queue_cmp) (simp add: alarm_queue_def upt_rec)
  have c: "queue_contents ?q = {#10, 20, 30#}"
    by (simp add: queue_contents_def alarm_queue_def elems_def)
  have wf: "queue_wf ?q" by (rule alarm_queue_wf) simp_all
  have "0 < q_elements ?q" by (simp add: alarm_queue_def)
  then show ?thesis
    using queue_remove_top_correct [OF wf h, where m = "\<lambda>p. p div 10"] by (auto simp: c)
qed

text \<open>
  C12: \<open>queue_fix\<close> turns an array with any elements into a heap of the same elements.
\<close>

theorem queue_fix_correct:
  assumes "queue_wf q"
  shows "case queue_fix q m of (q', m') \<Rightarrow>
    queue_wf q' \<and> queue_heap q' \<and> queue_contents q' = queue_contents q \<and>
    (tracked q m (queue_contents q) \<longrightarrow> queue_pos_ok q' m')"
proof -
  obtain q' m' where run: "queue_fix_loop q m (q_elements q div 2) = (q', m')"
    by (metis prod.collapse)
  have "\<not> (i \<le> q_elements q \<and> Suc (q_elements q div 2) \<le> i div 2)" for i by linarith
  then have "heap_from (queue_cmp q) (Suc (q_elements q div 2)) (q_elements q) (q_root q)"
    by (auto simp: heap_from_def)
  with queue_fix_loop_heap [OF assms _ _ run] show ?thesis
    by (simp add: queue_fix_def run)
qed

theorem queue_fix_correct_witness:
  "case queue_fix (alarm_queue [0, 70, 60, 50, 40] 4) (\<lambda>p. 0) of (q', m') \<Rightarrow>
     queue_heap q' \<and> queue_contents q' = {#40, 50, 60, 70#}"
proof -
  let ?q = "alarm_queue [0, 70, 60, 50, 40] 4"
  have c: "queue_contents ?q = {#40, 50, 60, 70#}"
    by (simp add: queue_contents_def alarm_queue_def elems_def)
  have wf: "queue_wf ?q" by (rule alarm_queue_wf) simp_all
  show ?thesis using queue_fix_correct [OF wf, where m = "\<lambda>p. 0"] by (auto simp: c)
qed

text \<open>
  C31: \<open>queue_remove\<close> of an inner element can destroy the heap: of the alarms
  1, 10, 2, 11, 12, 3, 4 it removes the fourth and leaves the last one (4) below 10.
\<close>

theorem queue_remove_inner_breaks_heap:
  "\<exists>q m idx. queue_wf q \<and> queue_heap q \<and> 1 \<le> idx \<and> idx \<le> q_elements q \<and>
     \<not> queue_heap (fst (fst (queue_remove (q :: unit queue) m idx)))"
proof -
  let ?q = "alarm_queue [0, 1, 10, 2, 11, 12, 3, 4] 7"
  have wf: "queue_wf ?q" by (rule alarm_queue_wf) simp_all
  have h: "queue_heap ?q"
    by (simp add: queue_heap_def heap_from_code alarm_queue_cmp) (simp add: alarm_queue_def upt_rec)
  let ?q1 = "alarm_queue [0, 1, 10, 2, 4, 12, 3, 4] 6"
  have "fst (fst (queue_remove ?q (\<lambda>p. 0) 4)) = ?q1\<lparr>q_max_elements := 7\<rparr>"
    by (simp add: queue_remove_def downheap_def alarm_queue_def downheap_sink.simps
        downheap_rise.simps Let_def)
  moreover have "\<not> queue_heap (?q1\<lparr>q_max_elements := 7\<rparr>)"
    by (simp add: queue_heap_def heap_from_code queue_cmp_def compare_ulong_def alarm_queue_def
        Let_def upt_rec)
  ultimately have "\<not> queue_heap (fst (fst (queue_remove ?q (\<lambda>p. 0) 4)))" by metis
  moreover have "(1::nat) \<le> 4" "4 \<le> q_elements ?q" by (simp_all add: alarm_queue_def)
  ultimately show ?thesis using wf h by blast
qed

text \<open>
  C32: the comparison function of the event queue is not one: it gives 1 both ways round
  for an enabled and a disabled event, so it never meets the contract the queue relies on.
\<close>

theorem event_compare_not_antisymmetric:
  "ev_disabled (ev b) \<and> \<not> ev_disabled (ev a) \<Longrightarrow>
   event_queue_element_compare_q ev () a b = 1 \<and> event_queue_element_compare_q ev () b a = 1 \<and>
   \<not> queue_compare (event_queue_element_compare_q ev ())"
proof -
  assume d: "ev_disabled (ev b) \<and> \<not> ev_disabled (ev a)"
  then have ab: "event_queue_element_compare_q ev () a b = 1"
    "event_queue_element_compare_q ev () b a = 1"
    by (simp_all add: event_queue_element_compare_q_def Let_def)
  moreover have "\<not> queue_compare (event_queue_element_compare_q ev ())"
    using queue_compare.cmp_swap [of "event_queue_element_compare_q ev ()" a b] ab by auto
  ultimately show ?thesis by simp
qed

theorem event_compare_not_antisymmetric_witness:
  "let ev = (\<lambda>p. \<lparr>ev_execute_at = 5, ev_disabled = (p = 1)\<rparr>) in
   event_queue_element_compare_q ev () 0 1 = 1 \<and> event_queue_element_compare_q ev () 1 0 = 1"
  using event_compare_not_antisymmetric
    [of "\<lambda>p. \<lparr>ev_execute_at = 5, ev_disabled = (p = 1)\<rparr>" 1 0] by simp

end
