(* ===== verification/Mdl_Types.thy ===== *)
theory Mdl_Types
  imports Prelude
begin

unbundle bit_operations_syntax

text \<open>
  The data of the metadata locking subsystem (\<open>sql/mdl.h\<close>, \<open>sql/mdl.cc\<close>): lock types and
  durations, object keys, and the compatibility matrices of scoped and per-object locks,
  as the bitmaps the code stores.
\<close>

section \<open>Lock types and bitmaps\<close>

datatype enum_mdl_type =
    MDL_INTENTION_EXCLUSIVE | MDL_SHARED | MDL_SHARED_HIGH_PRIO | MDL_SHARED_READ
  | MDL_SHARED_WRITE | MDL_SHARED_UPGRADABLE | MDL_SHARED_NO_WRITE
  | MDL_SHARED_NO_READ_WRITE | MDL_EXCLUSIVE

primrec mdl_type_index :: "enum_mdl_type \<Rightarrow> nat" where
  "mdl_type_index MDL_INTENTION_EXCLUSIVE = 0"
| "mdl_type_index MDL_SHARED = 1"
| "mdl_type_index MDL_SHARED_HIGH_PRIO = 2"
| "mdl_type_index MDL_SHARED_READ = 3"
| "mdl_type_index MDL_SHARED_WRITE = 4"
| "mdl_type_index MDL_SHARED_UPGRADABLE = 5"
| "mdl_type_index MDL_SHARED_NO_WRITE = 6"
| "mdl_type_index MDL_SHARED_NO_READ_WRITE = 7"
| "mdl_type_index MDL_EXCLUSIVE = 8"

lemma mdl_type_index_less [simp]: "mdl_type_index t < 9"
  by (cases t) simp_all

lemma mdl_type_index_inj [simp]: "mdl_type_index a = mdl_type_index b \<longleftrightarrow> a = b"
  by (cases a; cases b) simp_all

text \<open>The code compares lock types by their enumeration value.\<close>

instantiation enum_mdl_type :: linorder
begin

definition less_eq_enum_mdl_type :: "enum_mdl_type \<Rightarrow> enum_mdl_type \<Rightarrow> bool" where
  "less_eq_enum_mdl_type a b \<longleftrightarrow> mdl_type_index a \<le> mdl_type_index b"

definition less_enum_mdl_type :: "enum_mdl_type \<Rightarrow> enum_mdl_type \<Rightarrow> bool" where
  "less_enum_mdl_type a b \<longleftrightarrow> mdl_type_index a < mdl_type_index b"

instance
  by standard (auto simp: less_eq_enum_mdl_type_def less_enum_mdl_type_def)

end

datatype enum_mdl_duration = MDL_STATEMENT | MDL_TRANSACTION | MDL_EXPLICIT

type_synonym bitmap_t = uint16

definition MDL_BIT :: "enum_mdl_type \<Rightarrow> bitmap_t" where
  "MDL_BIT a = push_bit (mdl_type_index a) 1"

text \<open>Reading a bitmap as a set of lock types.\<close>

definition bm_has :: "bitmap_t \<Rightarrow> enum_mdl_type \<Rightarrow> bool" where
  "bm_has m t \<longleftrightarrow> bit m (mdl_type_index t)"

named_theorems bm_simps

lemma bm_has_MDL_BIT [bm_simps]: "bm_has (MDL_BIT a) t \<longleftrightarrow> t = a"
proof -
  have "mdl_type_index t < 16" using mdl_type_index_less [of t] by linarith
  then show ?thesis
    by (auto simp: bm_has_def MDL_BIT_def bit_exp_iff)
qed

lemma bm_has_or [bm_simps]: "bm_has (m OR n) t \<longleftrightarrow> bm_has m t \<or> bm_has n t"
  by (simp add: bm_has_def bit_or_iff)

lemma bm_has_and [bm_simps]: "bm_has (m AND n) t \<longleftrightarrow> bm_has m t \<and> bm_has n t"
  by (simp add: bm_has_def bit_and_iff)

lemma bm_has_not [bm_simps]: "bm_has (NOT m) t \<longleftrightarrow> \<not> bm_has m t"
proof -
  have "mdl_type_index t < 16" using mdl_type_index_less [of t] by linarith
  then show ?thesis by (simp add: bm_has_def bit_not_iff)
qed

lemma bm_has_0 [bm_simps]: "\<not> bm_has 0 t"
  by (simp add: bm_has_def)

text \<open>A bitmap whose bits all stand for lock types.\<close>

definition bm_wf :: "bitmap_t \<Rightarrow> bool" where
  "bm_wf m \<longleftrightarrow> (\<forall>i. bit m i \<longrightarrow> i < 9)"

lemma bm_index_ex: "i < 9 \<Longrightarrow> \<exists>t. mdl_type_index t = i"
proof -
  assume "i < 9"
  then have "i = 0 \<or> i = 1 \<or> i = 2 \<or> i = 3 \<or> i = 4 \<or> i = 5 \<or> i = 6 \<or> i = 7 \<or> i = 8" by linarith
  then show ?thesis by (metis mdl_type_index.simps)
qed

lemma bm_wf_and_zero:
  assumes "bm_wf n"
  shows "m AND n = 0 \<longleftrightarrow> (\<forall>t. \<not> (bm_has m t \<and> bm_has n t))"
proof
  assume "m AND n = 0"
  then show "\<forall>t. \<not> (bm_has m t \<and> bm_has n t)" by (metis bm_has_0 bm_has_and)
next
  assume none: "\<forall>t. \<not> (bm_has m t \<and> bm_has n t)"
  have "\<not> bit (m AND n) i" for i
  proof
    assume "bit (m AND n) i"
    then have b: "bit m i" "bit n i" by (simp_all add: bit_and_iff)
    then obtain t where "mdl_type_index t = i" using assms bm_index_ex by (auto simp: bm_wf_def)
    with b none show False by (auto simp: bm_has_def)
  qed
  then show "m AND n = 0" by (simp add: bit_eq_iff)
qed

lemma bm_wf_0 [simp]: "bm_wf 0"
  by (simp add: bm_wf_def)

lemma bm_wf_MDL_BIT [simp]: "bm_wf (MDL_BIT a)"
  by (auto simp: bm_wf_def MDL_BIT_def bit_exp_iff)

lemma bm_wf_or [simp]: "bm_wf m \<Longrightarrow> bm_wf n \<Longrightarrow> bm_wf (m OR n)"
  by (auto simp: bm_wf_def bit_or_iff)

lemma bm_wf_and [simp]: "bm_wf m \<Longrightarrow> bm_wf (m AND n)"
  by (auto simp: bm_wf_def bit_and_iff)

lemma MDL_BIT_and_zero: "MDL_BIT a AND m = 0 \<longleftrightarrow> \<not> bm_has m a"
  using bm_wf_and_zero [of "MDL_BIT a" m] by (auto simp: bm_simps and.commute)

section \<open>Compatibility matrices\<close>

datatype mdl_strategy = MDL_scoped_lock | MDL_object_lock

definition scoped_granted_incompatible :: "bitmap_t list" where
  "scoped_granted_incompatible =
    [MDL_BIT MDL_EXCLUSIVE OR MDL_BIT MDL_SHARED,
     MDL_BIT MDL_EXCLUSIVE OR MDL_BIT MDL_INTENTION_EXCLUSIVE, 0, 0, 0, 0, 0, 0,
     MDL_BIT MDL_EXCLUSIVE OR MDL_BIT MDL_SHARED OR MDL_BIT MDL_INTENTION_EXCLUSIVE]"

definition scoped_waiting_incompatible :: "bitmap_t list" where
  "scoped_waiting_incompatible =
    [MDL_BIT MDL_EXCLUSIVE OR MDL_BIT MDL_SHARED,
     MDL_BIT MDL_EXCLUSIVE, 0, 0, 0, 0, 0, 0, 0]"

definition object_granted_incompatible :: "bitmap_t list" where
  "object_granted_incompatible =
    [0,
     MDL_BIT MDL_EXCLUSIVE,
     MDL_BIT MDL_EXCLUSIVE,
     MDL_BIT MDL_EXCLUSIVE OR MDL_BIT MDL_SHARED_NO_READ_WRITE,
     MDL_BIT MDL_EXCLUSIVE OR MDL_BIT MDL_SHARED_NO_READ_WRITE OR
       MDL_BIT MDL_SHARED_NO_WRITE,
     MDL_BIT MDL_EXCLUSIVE OR MDL_BIT MDL_SHARED_NO_READ_WRITE OR
       MDL_BIT MDL_SHARED_NO_WRITE OR MDL_BIT MDL_SHARED_UPGRADABLE,
     MDL_BIT MDL_EXCLUSIVE OR MDL_BIT MDL_SHARED_NO_READ_WRITE OR
       MDL_BIT MDL_SHARED_NO_WRITE OR MDL_BIT MDL_SHARED_UPGRADABLE OR
       MDL_BIT MDL_SHARED_WRITE,
     MDL_BIT MDL_EXCLUSIVE OR MDL_BIT MDL_SHARED_NO_READ_WRITE OR
       MDL_BIT MDL_SHARED_NO_WRITE OR MDL_BIT MDL_SHARED_UPGRADABLE OR
       MDL_BIT MDL_SHARED_WRITE OR MDL_BIT MDL_SHARED_READ,
     MDL_BIT MDL_EXCLUSIVE OR MDL_BIT MDL_SHARED_NO_READ_WRITE OR
       MDL_BIT MDL_SHARED_NO_WRITE OR MDL_BIT MDL_SHARED_UPGRADABLE OR
       MDL_BIT MDL_SHARED_WRITE OR MDL_BIT MDL_SHARED_READ OR
       MDL_BIT MDL_SHARED_HIGH_PRIO OR MDL_BIT MDL_SHARED]"

definition object_waiting_incompatible :: "bitmap_t list" where
  "object_waiting_incompatible =
    [0,
     MDL_BIT MDL_EXCLUSIVE,
     0,
     MDL_BIT MDL_EXCLUSIVE OR MDL_BIT MDL_SHARED_NO_READ_WRITE,
     MDL_BIT MDL_EXCLUSIVE OR MDL_BIT MDL_SHARED_NO_READ_WRITE OR
       MDL_BIT MDL_SHARED_NO_WRITE,
     MDL_BIT MDL_EXCLUSIVE,
     MDL_BIT MDL_EXCLUSIVE,
     MDL_BIT MDL_EXCLUSIVE,
     0]"

primrec incompatible_granted_types_bitmap :: "mdl_strategy \<Rightarrow> bitmap_t list" where
  "incompatible_granted_types_bitmap MDL_scoped_lock = scoped_granted_incompatible"
| "incompatible_granted_types_bitmap MDL_object_lock = object_granted_incompatible"

primrec incompatible_waiting_types_bitmap :: "mdl_strategy \<Rightarrow> bitmap_t list" where
  "incompatible_waiting_types_bitmap MDL_scoped_lock = scoped_waiting_incompatible"
| "incompatible_waiting_types_bitmap MDL_object_lock = object_waiting_incompatible"

primrec hog_lock_types_bitmap :: "mdl_strategy \<Rightarrow> bitmap_t" where
  "hog_lock_types_bitmap MDL_scoped_lock = 0"
| "hog_lock_types_bitmap MDL_object_lock =
     MDL_BIT MDL_SHARED_NO_WRITE OR MDL_BIT MDL_SHARED_NO_READ_WRITE OR MDL_BIT MDL_EXCLUSIVE"

abbreviation granted_incompat :: "mdl_strategy \<Rightarrow> enum_mdl_type \<Rightarrow> bitmap_t" where
  "granted_incompat st t \<equiv> incompatible_granted_types_bitmap st ! mdl_type_index t"

abbreviation waiting_incompat :: "mdl_strategy \<Rightarrow> enum_mdl_type \<Rightarrow> bitmap_t" where
  "waiting_incompat st t \<equiv> incompatible_waiting_types_bitmap st ! mdl_type_index t"

lemmas mdl_matrices =
  scoped_granted_incompatible_def scoped_waiting_incompatible_def
  object_granted_incompatible_def object_waiting_incompatible_def

lemma bm_wf_granted [simp]: "bm_wf (granted_incompat st t)"
  by (cases st; cases t) (simp_all add: mdl_matrices)

lemma bm_wf_waiting [simp]: "bm_wf (waiting_incompat st t)"
  by (cases st; cases t) (simp_all add: mdl_matrices)

text \<open>
  Three facts about the matrices that the locking protocol rests on: incompatibility of
  granted locks is symmetric; a request that a pending one holds up is also
  incompatible with it once that one is granted; and so the grants never disagree with
  the priorities.
\<close>

lemma granted_incompat_sym:
  "bm_has (granted_incompat st a) b \<longleftrightarrow> bm_has (granted_incompat st b) a"
  by (cases st; cases a; cases b) (simp_all add: mdl_matrices bm_simps)

lemma waiting_incompat_granted:
  "bm_has (waiting_incompat st a) b \<Longrightarrow> bm_has (granted_incompat st a) b"
  by (cases st; cases a; cases b) (simp_all add: mdl_matrices bm_simps)

end
