(* ===== verification/Mdl_Key.thy ===== *)
theory Mdl_Key
  imports Prelude
begin

text \<open>
  Keys of metadata locks (\<open>class MDL_key\<close> in \<open>sql/mdl.h\<close>): the byte string of the namespace,
  the database name and the object name, each name closed by a zero byte.  C strings are
  byte lists read up to their first zero.
\<close>

section \<open>Building and comparing keys\<close>

datatype enum_mdl_namespace =
  GLOBAL | SCHEMA | TABLE | FUNCTION | PROCEDURE | TRIGGER | EVENT | COMMIT | USER_LOCK

primrec namespace_byte :: "enum_mdl_namespace \<Rightarrow> byte" where
  "namespace_byte GLOBAL = 0"
| "namespace_byte SCHEMA = 1"
| "namespace_byte TABLE = 2"
| "namespace_byte FUNCTION = 3"
| "namespace_byte PROCEDURE = 4"
| "namespace_byte TRIGGER = 5"
| "namespace_byte EVENT = 6"
| "namespace_byte COMMIT = 7"
| "namespace_byte USER_LOCK = 8"

definition NAME_LEN :: nat where
  "NAME_LEN = 64 * 3"

definition cstr :: "byte list \<Rightarrow> byte list" where
  "cstr s = takeWhile (\<lambda>c. c \<noteq> 0) s"

text \<open>The characters \<open>strmake(dst, src, length)\<close> puts before the terminating zero.\<close>

fun strmake :: "byte list \<Rightarrow> nat \<Rightarrow> byte list" where
  "strmake (c # src) (Suc len) = (if c = 0 then [] else c # strmake src len)"
| "strmake src len = []"

record MDL_key =
  m_ptr :: "byte list"
  m_db_name_length :: nat

definition mdl_key_init :: "enum_mdl_namespace \<Rightarrow> byte list \<Rightarrow> byte list \<Rightarrow> MDL_key" where
  "mdl_key_init mdl_namespace_arg db name_arg =
     (let d = strmake db NAME_LEN; n = strmake name_arg NAME_LEN in
      \<lparr>m_ptr = namespace_byte mdl_namespace_arg # d @ [0] @ n @ [0],
       m_db_name_length = length d\<rparr>)"

definition mdl_namespace :: "MDL_key \<Rightarrow> byte" where
  "mdl_namespace k = m_ptr k ! 0"

definition db_name :: "MDL_key \<Rightarrow> byte list" where
  "db_name k = cstr (drop 1 (m_ptr k))"

definition mdl_key_name :: "MDL_key \<Rightarrow> byte list" where
  "mdl_key_name k = cstr (drop (m_db_name_length k + 2) (m_ptr k))"

fun memcmp :: "byte list \<Rightarrow> byte list \<Rightarrow> nat \<Rightarrow> int" where
  "memcmp (x # xs) (y # ys) (Suc n) =
     (if x = y then memcmp xs ys n else if x < y then - 1 else 1)"
| "memcmp xs ys n = 0"

definition is_equal :: "MDL_key \<Rightarrow> MDL_key \<Rightarrow> bool" where
  "is_equal k rhs \<longleftrightarrow>
     length (m_ptr k) = length (m_ptr rhs) \<and> memcmp (m_ptr k) (m_ptr rhs) (length (m_ptr k)) = 0"

definition mdl_key_cmp :: "MDL_key \<Rightarrow> MDL_key \<Rightarrow> int" where
  "mdl_key_cmp k rhs =
     memcmp (m_ptr k) (m_ptr rhs) (min (length (m_ptr k)) (length (m_ptr rhs)))"

section \<open>Lemmas\<close>

lemma strmake_eq: "strmake s n = take n (cstr s)"
  by (induction s n rule: strmake.induct) (auto simp: cstr_def)

lemma strmake_no_zero: "0 \<notin> set (strmake s n)"
  by (auto simp: strmake_eq cstr_def dest!: in_set_takeD set_takeWhileD)

lemma cstr_append_zero: "0 \<notin> set d \<Longrightarrow> cstr (d @ 0 # x) = d"
  by (induction d) (auto simp: cstr_def)

lemma zero_terminated_eq:
  fixes d :: "byte list"
  assumes "0 \<notin> set d" "0 \<notin> set d'"
  shows "d @ 0 # x = d' @ 0 # y \<longleftrightarrow> d = d' \<and> x = y"
proof
  assume eq: "d @ 0 # x = d' @ 0 # y"
  then have "cstr (d @ 0 # x) = cstr (d' @ 0 # y)" by simp
  then have "d = d'" using assms by (simp add: cstr_append_zero)
  with eq show "d = d' \<and> x = y" by simp
qed simp

lemma memcmp_zero:
  "n \<le> length xs \<Longrightarrow> n \<le> length ys \<Longrightarrow> memcmp xs ys n = 0 \<longleftrightarrow> take n xs = take n ys"
  by (induction xs ys n rule: memcmp.induct) auto

lemma memcmp_swap: "memcmp ys xs n = - memcmp xs ys n"
  by (induction xs ys n rule: memcmp.induct) auto

lemma is_equal_iff: "is_equal k r \<longleftrightarrow> m_ptr k = m_ptr r"
  by (auto simp: is_equal_def memcmp_zero)

text \<open>No key is a proper prefix of another.\<close>

lemma key_prefix_eq:
  assumes "m_ptr (mdl_key_init ns db nm) @ z = m_ptr (mdl_key_init ns' db' nm')"
  shows "z = []"
proof -
  let ?d = "strmake db NAME_LEN" and ?n = "strmake nm NAME_LEN"
  let ?d' = "strmake db' NAME_LEN" and ?n' = "strmake nm' NAME_LEN"
  have "?d @ 0 # (?n @ 0 # z) = ?d' @ 0 # (?n' @ 0 # [])"
    using assms by (simp add: mdl_key_init_def Let_def)
  then have "?n @ 0 # z = ?n' @ 0 # []"
    using zero_terminated_eq strmake_no_zero by blast
  then show ?thesis using zero_terminated_eq strmake_no_zero by blast
qed

lemma key_cmp_zero:
  "mdl_key_cmp (mdl_key_init ns db nm) (mdl_key_init ns' db' nm') = 0 \<longleftrightarrow>
   m_ptr (mdl_key_init ns db nm) = m_ptr (mdl_key_init ns' db' nm')" (is "mdl_key_cmp ?k ?r = 0 \<longleftrightarrow> _")
proof
  let ?n = "min (length (m_ptr ?k)) (length (m_ptr ?r))"
  assume "mdl_key_cmp ?k ?r = 0"
  then have eq: "take ?n (m_ptr ?k) = take ?n (m_ptr ?r)"
    by (simp add: mdl_key_cmp_def memcmp_zero)
  show "m_ptr ?k = m_ptr ?r"
  proof (cases "length (m_ptr ?k) \<le> length (m_ptr ?r)")
    case True
    with eq have "m_ptr ?k @ drop (length (m_ptr ?k)) (m_ptr ?r) = m_ptr ?r"
      by (metis append_take_drop_id min_absorb1 order_refl take_all)
    with key_prefix_eq show ?thesis by (metis append_Nil2)
  next
    case False
    with eq have "m_ptr ?r @ drop (length (m_ptr ?r)) (m_ptr ?k) = m_ptr ?k"
      by (metis append_take_drop_id min_absorb2 nle_le order_refl take_all)
    with key_prefix_eq show ?thesis by (metis append_Nil2)
  qed
next
  assume "m_ptr ?k = m_ptr ?r"
  then show "mdl_key_cmp ?k ?r = 0" by (simp add: mdl_key_cmp_def memcmp_zero)
qed

lemma memcmp_less_trans:
  "memcmp xs ys (min (length xs) (length ys)) < 0 \<Longrightarrow>
   memcmp ys zs (min (length ys) (length zs)) < 0 \<Longrightarrow>
   memcmp xs zs (min (length xs) (length zs)) < 0"
proof (induction xs arbitrary: ys zs)
  case Nil
  then show ?case by simp
next
  case (Cons x xs)
  obtain y ys' where ys: "ys = y # ys'" using Cons.prems by (cases ys) auto
  obtain z zs' where zs: "zs = z # zs'" using Cons.prems ys by (cases zs) auto
  show ?case
    using Cons.prems Cons.IH [of ys' zs'] by (auto simp: ys zs split: if_splits)
qed

lemma key_cmp_trans:
  assumes "mdl_key_cmp (mdl_key_init n1 d1 m1) (mdl_key_init n2 d2 m2) \<le> 0" (is "mdl_key_cmp ?a ?b \<le> 0")
    and "mdl_key_cmp (mdl_key_init n2 d2 m2) (mdl_key_init n3 d3 m3) \<le> 0" (is "mdl_key_cmp _ ?c \<le> 0")
  shows "mdl_key_cmp (mdl_key_init n1 d1 m1) (mdl_key_init n3 d3 m3) \<le> 0"
proof -
  consider "m_ptr ?a = m_ptr ?b" | "m_ptr ?b = m_ptr ?c"
    | "mdl_key_cmp ?a ?b < 0" "mdl_key_cmp ?b ?c < 0"
    using assms key_cmp_zero by (metis order_le_less)
  then show ?thesis
  proof cases
    case 1
    with assms(2) show ?thesis by (simp add: mdl_key_cmp_def)
  next
    case 2
    with assms(1) show ?thesis by (simp add: mdl_key_cmp_def)
  next
    case 3
    then show ?thesis unfolding mdl_key_cmp_def using memcmp_less_trans order_less_imp_le by blast
  qed
qed

lemma key_cmp_swap: "mdl_key_cmp r k = - mdl_key_cmp k r"
  unfolding mdl_key_cmp_def by (subst min.commute) (rule memcmp_swap)

section \<open>Properties\<close>

text \<open>
  C15: a key gives back the namespace and the two names it was built from (up to the length
  the buffer holds), so two keys are equal exactly when these are.
\<close>

theorem mdl_key_roundtrip:
  "mdl_namespace (mdl_key_init ns db nm) = namespace_byte ns \<and>
   db_name (mdl_key_init ns db nm) = take NAME_LEN (cstr db) \<and>
   mdl_key_name (mdl_key_init ns db nm) = take NAME_LEN (cstr nm) \<and>
   (is_equal (mdl_key_init ns db nm) (mdl_key_init ns' db' nm') \<longleftrightarrow>
      ns = ns' \<and> take NAME_LEN (cstr db) = take NAME_LEN (cstr db') \<and>
      take NAME_LEN (cstr nm) = take NAME_LEN (cstr nm'))"
proof -
  have inj: "namespace_byte ns = namespace_byte ns' \<longleftrightarrow> ns = ns'"
    by (cases ns; cases ns') simp_all
  have names: "cstr (strmake db NAME_LEN @ 0 # x) = strmake db NAME_LEN"
    "cstr (strmake nm NAME_LEN @ 0 # x) = strmake nm NAME_LEN" for x
    by (simp_all add: cstr_append_zero strmake_no_zero)
  have "is_equal (mdl_key_init ns db nm) (mdl_key_init ns' db' nm') \<longleftrightarrow>
      ns = ns' \<and> strmake db NAME_LEN = strmake db' NAME_LEN \<and> strmake nm NAME_LEN = strmake nm' NAME_LEN"
    by (simp add: is_equal_iff mdl_key_init_def Let_def inj zero_terminated_eq strmake_no_zero)
  moreover have "mdl_namespace (mdl_key_init ns db nm) = namespace_byte ns"
    "db_name (mdl_key_init ns db nm) = strmake db NAME_LEN"
    "mdl_key_name (mdl_key_init ns db nm) = strmake nm NAME_LEN"
    using names by (simp_all add: mdl_namespace_def db_name_def mdl_key_name_def mdl_key_init_def Let_def)
  ultimately show ?thesis by (simp add: strmake_eq)
qed

text \<open>
  C16: the comparison that orders a batch of lock requests is a total order on keys: it is
  zero only for equal keys, changes sign when swapped, and is transitive.
\<close>

theorem mdl_key_cmp_order:
  "(mdl_key_cmp (mdl_key_init n1 d1 m1) (mdl_key_init n2 d2 m2) = 0 \<longleftrightarrow>
      is_equal (mdl_key_init n1 d1 m1) (mdl_key_init n2 d2 m2)) \<and>
   mdl_key_cmp (mdl_key_init n2 d2 m2) (mdl_key_init n1 d1 m1) =
      - mdl_key_cmp (mdl_key_init n1 d1 m1) (mdl_key_init n2 d2 m2) \<and>
   (mdl_key_cmp (mdl_key_init n1 d1 m1) (mdl_key_init n2 d2 m2) \<le> 0 \<and>
    mdl_key_cmp (mdl_key_init n2 d2 m2) (mdl_key_init n3 d3 m3) \<le> 0 \<longrightarrow>
    mdl_key_cmp (mdl_key_init n1 d1 m1) (mdl_key_init n3 d3 m3) \<le> 0)"
  using key_cmp_zero [of n1 d1 m1 n2 d2 m2] key_cmp_trans [of n1 d1 m1 n2 d2 m2 n3 d3 m3]
    key_cmp_swap [of "mdl_key_init n2 d2 m2" "mdl_key_init n1 d1 m1"]
  unfolding is_equal_iff by blast

theorem mdl_key_cmp_order_witness:
  "mdl_key_cmp (mdl_key_init TABLE [97] [98]) (mdl_key_init TABLE [97] [98, 99]) \<le> 0 \<and>
   mdl_key_cmp (mdl_key_init TABLE [97] [98, 99]) (mdl_key_init EVENT [97] [98]) \<le> 0 \<and>
   mdl_key_cmp (mdl_key_init TABLE [97] [98]) (mdl_key_init EVENT [97] [98]) \<le> 0"
proof -
  have "mdl_key_cmp (mdl_key_init TABLE [97] [98]) (mdl_key_init TABLE [97] [98, 99]) \<le> 0"
    "mdl_key_cmp (mdl_key_init TABLE [97] [98, 99]) (mdl_key_init EVENT [97] [98]) \<le> 0"
    by code_simp+
  then show ?thesis
    using mdl_key_cmp_order [of TABLE "[97]" "[98]" TABLE "[97]" "[98, 99]" EVENT "[97]" "[98]"] by blast
qed

end
