(* ===== verification/Mdl_Lock.thy ===== *)
theory Mdl_Lock
  imports Mdl_Types Mdl_Key
begin

unbundle bit_operations_syntax

text \<open>
  One metadata lock (\<open>class MDL_lock\<close> in \<open>sql/mdl.cc\<close>): the lists of granted and waiting
  tickets with their type bitmaps, the grant decision, and the rescheduling of waiters.
  Tickets live in a store \<open>tk\<close>, the wait slots of the contexts (\<open>MDL_context::m_wait\<close>) in
  a map \<open>ws\<close>.  The model is of the build without \<open>WITH_WSREP\<close>; the read-write lock of an
  \<open>MDL_lock\<close> makes every operation here one step.
\<close>

section \<open>Tickets, lists and the lock\<close>

type_synonym ctx_id = nat
type_synonym ticket_id = nat
type_synonym lock_id = "byte list"

record MDL_ticket =
  m_type :: enum_mdl_type
  m_ctx :: ctx_id
  m_lock :: lock_id

type_synonym tickets = "ticket_id \<Rightarrow> MDL_ticket"

datatype enum_wait_status = EMPTY | GRANTED | VICTIM | TIMEOUT | KILLED

type_synonym waits = "ctx_id \<Rightarrow> enum_wait_status"

record ticket_list =
  tl_list :: "ticket_id list"
  tl_bitmap :: bitmap_t

record MDL_lock =
  lk_key :: lock_id
  m_granted :: ticket_list
  m_waiting :: ticket_list
  m_hog_lock_count :: nat

text \<open>\<open>MDL_wait::set_status\<close>: the first message stays; the result says whether the slot was
  occupied.\<close>

definition set_status :: "waits \<Rightarrow> ctx_id \<Rightarrow> enum_wait_status \<Rightarrow> waits \<times> bool" where
  "set_status ws c status_arg = (if ws c = EMPTY then (ws(c := status_arg), False) else (ws, True))"

definition reset_status :: "waits \<Rightarrow> ctx_id \<Rightarrow> waits" where
  "reset_status ws c = ws(c := EMPTY)"

definition empty_ticket_list :: ticket_list where
  "empty_ticket_list = \<lparr>tl_list = [], tl_bitmap = 0\<rparr>"

definition clear_bit_if_not_in_list :: "tickets \<Rightarrow> ticket_list \<Rightarrow> enum_mdl_type \<Rightarrow> ticket_list" where
  "clear_bit_if_not_in_list tk tls ty =
     (if list_ex (\<lambda>t. m_type (tk t) = ty) (tl_list tls) then tls
      else tls\<lparr>tl_bitmap := tl_bitmap tls AND NOT (MDL_BIT ty)\<rparr>)"

definition add_ticket :: "tickets \<Rightarrow> ticket_list \<Rightarrow> ticket_id \<Rightarrow> ticket_list" where
  "add_ticket tk tls t =
     tls\<lparr>tl_list := tl_list tls @ [t], tl_bitmap := tl_bitmap tls OR MDL_BIT (m_type (tk t))\<rparr>"

definition tl_remove_ticket :: "tickets \<Rightarrow> ticket_list \<Rightarrow> ticket_id \<Rightarrow> ticket_list" where
  "tl_remove_ticket tk tls t =
     clear_bit_if_not_in_list tk (tls\<lparr>tl_list := remove1 t (tl_list tls)\<rparr>) (m_type (tk t))"

text \<open>The strategy a lock gets from its namespace when it is created.\<close>

definition strategy_of :: "lock_id \<Rightarrow> mdl_strategy" where
  "strategy_of k =
     (if k ! 0 = namespace_byte GLOBAL \<or> k ! 0 = namespace_byte COMMIT \<or> k ! 0 = namespace_byte SCHEMA
      then MDL_scoped_lock else MDL_object_lock)"

definition new_lock :: "lock_id \<Rightarrow> MDL_lock" where
  "new_lock k =
     \<lparr>lk_key = k, m_granted = empty_ticket_list, m_waiting = empty_ticket_list, m_hog_lock_count = 0\<rparr>"

abbreviation m_strategy :: "MDL_lock \<Rightarrow> mdl_strategy" where
  "m_strategy l \<equiv> strategy_of (lk_key l)"

definition lock_is_empty :: "MDL_lock \<Rightarrow> bool" where
  "lock_is_empty l \<longleftrightarrow> tl_list (m_granted l) = [] \<and> tl_list (m_waiting l) = []"

definition is_incompatible_when_granted :: "MDL_ticket \<Rightarrow> enum_mdl_type \<Rightarrow> bool" where
  "is_incompatible_when_granted t ty \<longleftrightarrow>
     MDL_BIT (m_type t) AND granted_incompat (strategy_of (m_lock t)) ty \<noteq> 0"

definition is_incompatible_when_waiting :: "MDL_ticket \<Rightarrow> enum_mdl_type \<Rightarrow> bool" where
  "is_incompatible_when_waiting t ty \<longleftrightarrow>
     MDL_BIT (m_type t) AND waiting_incompat (strategy_of (m_lock t)) ty \<noteq> 0"

definition has_stronger_or_equal_type :: "MDL_ticket \<Rightarrow> enum_mdl_type \<Rightarrow> bool" where
  "has_stronger_or_equal_type t ty \<longleftrightarrow>
     granted_incompat (strategy_of (m_lock t)) ty
       AND NOT (granted_incompat (strategy_of (m_lock t)) (m_type t)) = 0"

definition can_grant_lock ::
    "tickets \<Rightarrow> MDL_lock \<Rightarrow> enum_mdl_type \<Rightarrow> ctx_id \<Rightarrow> bool \<Rightarrow> bool" where
  "can_grant_lock tk l type_arg requestor_ctx ignore_lock_priority =
     (let waiting_incompat_map = waiting_incompat (m_strategy l) type_arg;
          granted_incompat_map = granted_incompat (m_strategy l) type_arg in
      if ignore_lock_priority \<or> tl_bitmap (m_waiting l) AND waiting_incompat_map = 0
      then if tl_bitmap (m_granted l) AND granted_incompat_map = 0 then True
           else \<not> list_ex (\<lambda>t. m_ctx (tk t) \<noteq> requestor_ctx \<and>
                  is_incompatible_when_granted (tk t) type_arg) (tl_list (m_granted l))
      else False)"

fun reschedule_loop ::
    "tickets \<Rightarrow> bool \<Rightarrow> ticket_id list \<Rightarrow> waits \<Rightarrow> MDL_lock \<Rightarrow> waits \<times> MDL_lock" where
  "reschedule_loop tk skip [] ws l = (ws, l)"
| "reschedule_loop tk skip (t # ts) ws l =
     (let hog = hog_lock_types_bitmap (m_strategy l); ty = m_type (tk t); c = m_ctx (tk t) in
      if skip \<and> MDL_BIT ty AND hog \<noteq> 0 then reschedule_loop tk skip ts ws l
      else if can_grant_lock tk l ty c skip then
        (case set_status ws c GRANTED of
           (ws', False) \<Rightarrow>
             reschedule_loop tk skip ts ws'
               (l\<lparr>m_waiting := tl_remove_ticket tk (m_waiting l) t,
                  m_granted := add_ticket tk (m_granted l) t,
                  m_hog_lock_count :=
                    (if MDL_BIT ty AND hog \<noteq> 0 then m_hog_lock_count l + 1 else m_hog_lock_count l)\<rparr>)
         | (ws', True) \<Rightarrow> reschedule_loop tk skip ts ws' l)
      else reschedule_loop tk skip ts ws l)"

definition reschedule_skip :: "nat \<Rightarrow> MDL_lock \<Rightarrow> bool" where
  "reschedule_skip max_write_lock_count l \<longleftrightarrow>
     m_hog_lock_count l \<ge> max_write_lock_count \<and>
     tl_bitmap (m_waiting l) AND NOT (hog_lock_types_bitmap (m_strategy l)) \<noteq> 0"

definition reschedule_waiters :: "nat \<Rightarrow> tickets \<Rightarrow> waits \<Rightarrow> MDL_lock \<Rightarrow> waits \<times> MDL_lock" where
  "reschedule_waiters max_write_lock_count tk ws l =
     (case reschedule_loop tk (reschedule_skip max_write_lock_count l) (tl_list (m_waiting l)) ws l of
        (ws', l') \<Rightarrow>
          (ws', if tl_bitmap (m_waiting l') AND NOT (hog_lock_types_bitmap (m_strategy l')) = 0
                then l'\<lparr>m_hog_lock_count := 0\<rparr> else l'))"

definition has_pending_conflicting_lock :: "MDL_lock \<Rightarrow> enum_mdl_type \<Rightarrow> bool" where
  "has_pending_conflicting_lock l ty \<longleftrightarrow>
     tl_bitmap (m_waiting l) AND granted_incompat (m_strategy l) ty \<noteq> 0"

definition get_lock_owner :: "tickets \<Rightarrow> MDL_lock \<Rightarrow> ctx_id option" where
  "get_lock_owner tk l =
     (case tl_list (m_granted l) of [] \<Rightarrow> None | t # _ \<Rightarrow> Some (m_ctx (tk t)))"

definition needs_notification :: "mdl_strategy \<Rightarrow> MDL_ticket \<Rightarrow> bool" where
  "needs_notification st t =
     (case st of MDL_scoped_lock \<Rightarrow> m_type t = MDL_SHARED
      | MDL_object_lock \<Rightarrow> m_type t \<ge> MDL_SHARED_NO_WRITE)"

definition conflicting_locks :: "mdl_strategy \<Rightarrow> MDL_ticket \<Rightarrow> bool" where
  "conflicting_locks st t =
     (case st of MDL_scoped_lock \<Rightarrow> m_type t = MDL_INTENTION_EXCLUSIVE
      | MDL_object_lock \<Rightarrow> m_type t < MDL_SHARED_UPGRADABLE)"

text \<open>The contexts that \<open>notify_conflicting_locks\<close> sends its notification to, in order.\<close>

definition notify_conflicting_locks :: "tickets \<Rightarrow> MDL_lock \<Rightarrow> ctx_id \<Rightarrow> ctx_id list" where
  "notify_conflicting_locks tk l c =
     map (\<lambda>t. m_ctx (tk t))
       (filter (\<lambda>t. m_ctx (tk t) \<noteq> c \<and> conflicting_locks (m_strategy l) (tk t)) (tl_list (m_granted l)))"

section \<open>The lists and their bitmaps\<close>

definition tl_ok :: "tickets \<Rightarrow> ticket_list \<Rightarrow> bool" where
  "tl_ok tk tls \<longleftrightarrow> distinct (tl_list tls) \<and> bm_wf (tl_bitmap tls) \<and>
     (\<forall>ty. bm_has (tl_bitmap tls) ty \<longleftrightarrow> (\<exists>t \<in> set (tl_list tls). m_type (tk t) = ty))"

lemma tl_ok_empty [simp]: "tl_ok tk empty_ticket_list"
  by (simp add: tl_ok_def empty_ticket_list_def bm_simps)

lemma tl_ok_add: "tl_ok tk tls \<Longrightarrow> t \<notin> set (tl_list tls) \<Longrightarrow> tl_ok tk (add_ticket tk tls t)"
  by (auto simp: tl_ok_def add_ticket_def bm_simps)

lemma tl_list_add [simp]: "tl_list (add_ticket tk tls t) = tl_list tls @ [t]"
  by (simp add: add_ticket_def)

lemma tl_list_remove [simp]: "tl_list (tl_remove_ticket tk tls t) = remove1 t (tl_list tls)"
  by (simp add: tl_remove_ticket_def clear_bit_if_not_in_list_def)

lemma tl_ok_remove:
  assumes "tl_ok tk tls" "t \<in> set (tl_list tls)"
  shows "tl_ok tk (tl_remove_ticket tk tls t)"
proof -
  have set: "set (remove1 t (tl_list tls)) = set (tl_list tls) - {t}"
    using assms(1) by (simp add: tl_ok_def)
  show ?thesis
    using assms
    by (auto simp: tl_ok_def tl_remove_ticket_def clear_bit_if_not_in_list_def list_ex_iff set bm_simps)
qed

lemma tl_ok_cong:
  "(\<And>t. t \<in> set (tl_list tls) \<Longrightarrow> m_type (tk t) = m_type (tk' t)) \<Longrightarrow> tl_ok tk tls \<longleftrightarrow> tl_ok tk' tls"
  by (auto simp: tl_ok_def)

section \<open>The lock invariant\<close>

text \<open>\<open>lock_ok\<close>: both lists are well formed, no ticket is in both, every ticket belongs to this
  lock, the locks granted to different contexts are compatible, and a context waits with at
  most one ticket.\<close>

definition compatible_tickets :: "tickets \<Rightarrow> ticket_id \<Rightarrow> ticket_id \<Rightarrow> bool" where
  "compatible_tickets tk a b \<longleftrightarrow> m_ctx (tk a) = m_ctx (tk b) \<or>
     \<not> bm_has (granted_incompat (strategy_of (m_lock (tk a))) (m_type (tk a))) (m_type (tk b))"

definition lock_ok :: "tickets \<Rightarrow> MDL_lock \<Rightarrow> bool" where
  "lock_ok tk l \<longleftrightarrow> tl_ok tk (m_granted l) \<and> tl_ok tk (m_waiting l) \<and>
     set (tl_list (m_granted l)) \<inter> set (tl_list (m_waiting l)) = {} \<and>
     (\<forall>t \<in> set (tl_list (m_granted l)) \<union> set (tl_list (m_waiting l)). m_lock (tk t) = lk_key l) \<and>
     (\<forall>a \<in> set (tl_list (m_granted l)). \<forall>b \<in> set (tl_list (m_granted l)). compatible_tickets tk a b) \<and>
     inj_on (\<lambda>t. m_ctx (tk t)) (set (tl_list (m_waiting l)))"

abbreviation granted_set :: "MDL_lock \<Rightarrow> ticket_id set" where
  "granted_set l \<equiv> set (tl_list (m_granted l))"

abbreviation waiting_set :: "MDL_lock \<Rightarrow> ticket_id set" where
  "waiting_set l \<equiv> set (tl_list (m_waiting l))"

lemma lock_okD:
  assumes "lock_ok tk l"
  shows "tl_ok tk (m_granted l)" "tl_ok tk (m_waiting l)" "granted_set l \<inter> waiting_set l = {}"
    and "t \<in> granted_set l \<Longrightarrow> m_lock (tk t) = lk_key l"
    and "t \<in> waiting_set l \<Longrightarrow> m_lock (tk t) = lk_key l"
    and "a \<in> granted_set l \<Longrightarrow> b \<in> granted_set l \<Longrightarrow> compatible_tickets tk a b"
    and "inj_on (\<lambda>t. m_ctx (tk t)) (waiting_set l)"
  using assms unfolding lock_ok_def by auto

lemma lock_okI:
  assumes "tl_ok tk (m_granted l)" "tl_ok tk (m_waiting l)" "granted_set l \<inter> waiting_set l = {}"
    and "\<And>t. t \<in> granted_set l \<Longrightarrow> m_lock (tk t) = lk_key l"
    and "\<And>t. t \<in> waiting_set l \<Longrightarrow> m_lock (tk t) = lk_key l"
    and "\<And>a b. a \<in> granted_set l \<Longrightarrow> b \<in> granted_set l \<Longrightarrow> compatible_tickets tk a b"
    and "inj_on (\<lambda>t. m_ctx (tk t)) (waiting_set l)"
  shows "lock_ok tk l"
  using assms unfolding lock_ok_def by blast

lemma lock_ok_new [simp]: "lock_ok tk (new_lock k)"
  by (rule lock_okI) (simp_all add: new_lock_def, simp_all add: empty_ticket_list_def)

text \<open>What stops a request: an incompatible lock granted to another context, or a pending
  request of a higher priority.\<close>

definition granted_blocks :: "tickets \<Rightarrow> MDL_lock \<Rightarrow> enum_mdl_type \<Rightarrow> ctx_id \<Rightarrow> bool" where
  "granted_blocks tk l ty c \<longleftrightarrow> (\<exists>g \<in> granted_set l. m_ctx (tk g) \<noteq> c \<and>
     bm_has (granted_incompat (m_strategy l) ty) (m_type (tk g)))"

definition waiting_blocks :: "tickets \<Rightarrow> MDL_lock \<Rightarrow> enum_mdl_type \<Rightarrow> bool" where
  "waiting_blocks tk l ty \<longleftrightarrow> (\<exists>w \<in> waiting_set l.
     bm_has (waiting_incompat (m_strategy l) ty) (m_type (tk w)))"

lemma tl_bitmap_and_zero:
  assumes "tl_ok tk tls" "bm_wf m"
  shows "tl_bitmap tls AND m = 0 \<longleftrightarrow> \<not> (\<exists>t \<in> set (tl_list tls). bm_has m (m_type (tk t)))"
  using assms bm_wf_and_zero [OF assms(2)] by (auto simp: tl_ok_def)

lemma can_grant_lock_iff:
  assumes "lock_ok tk l"
  shows "can_grant_lock tk l ty c ign \<longleftrightarrow>
    (ign \<or> \<not> waiting_blocks tk l ty) \<and> \<not> granted_blocks tk l ty c"
proof -
  note ok = lock_okD [OF assms]
  have w: "tl_bitmap (m_waiting l) AND waiting_incompat (m_strategy l) ty = 0 \<longleftrightarrow>
      \<not> waiting_blocks tk l ty"
    unfolding waiting_blocks_def by (rule tl_bitmap_and_zero [OF ok(2) bm_wf_waiting])
  have g: "tl_bitmap (m_granted l) AND granted_incompat (m_strategy l) ty = 0 \<Longrightarrow>
      \<not> granted_blocks tk l ty c"
    unfolding granted_blocks_def tl_bitmap_and_zero [OF ok(1) bm_wf_granted] by blast
  have e: "list_ex (\<lambda>t. m_ctx (tk t) \<noteq> c \<and> is_incompatible_when_granted (tk t) ty)
      (tl_list (m_granted l)) \<longleftrightarrow> granted_blocks tk l ty c"
    using ok(4) by (auto simp: list_ex_iff granted_blocks_def is_incompatible_when_granted_def
        MDL_BIT_and_zero)
  show ?thesis
    unfolding can_grant_lock_def Let_def w e using g by auto
qed

lemma MDL_BIT_hog [simp]: "MDL_BIT ty AND hog_lock_types_bitmap st \<noteq> 0 \<longleftrightarrow> bm_has (hog_lock_types_bitmap st) ty"
  by (simp add: MDL_BIT_and_zero)

section \<open>Granting one waiter\<close>

definition grant_waiter :: "tickets \<Rightarrow> MDL_lock \<Rightarrow> ticket_id \<Rightarrow> MDL_lock" where
  "grant_waiter tk l t =
     l\<lparr>m_waiting := tl_remove_ticket tk (m_waiting l) t,
       m_granted := add_ticket tk (m_granted l) t,
       m_hog_lock_count :=
         (if MDL_BIT (m_type (tk t)) AND hog_lock_types_bitmap (m_strategy l) \<noteq> 0
          then m_hog_lock_count l + 1 else m_hog_lock_count l)\<rparr>"

lemma grant_waiter_sel [simp]:
  "lk_key (grant_waiter tk l t) = lk_key l"
  "m_waiting (grant_waiter tk l t) = tl_remove_ticket tk (m_waiting l) t"
  "m_granted (grant_waiter tk l t) = add_ticket tk (m_granted l) t"
  by (simp_all add: grant_waiter_def)

lemma reschedule_loop_Cons:
  "reschedule_loop tk skip (t # ts) ws l =
     (if \<not> (skip \<and> bm_has (hog_lock_types_bitmap (m_strategy l)) (m_type (tk t))) \<and>
         can_grant_lock tk l (m_type (tk t)) (m_ctx (tk t)) skip \<and> ws (m_ctx (tk t)) = EMPTY
      then reschedule_loop tk skip ts (ws(m_ctx (tk t) := GRANTED)) (grant_waiter tk l t)
      else reschedule_loop tk skip ts ws l)"
  by (auto simp: Let_def set_status_def grant_waiter_def)

declare reschedule_loop.simps(2) [simp del]

lemma waiting_set_remove:
  "lock_ok tk l \<Longrightarrow> set (remove1 t (tl_list (m_waiting l))) = waiting_set l - {t}"
  using lock_okD(2) [of tk l] by (simp add: tl_ok_def)

lemma granted_set_remove:
  "lock_ok tk l \<Longrightarrow> set (remove1 t (tl_list (m_granted l))) = granted_set l - {t}"
  using lock_okD(1) [of tk l] by (simp add: tl_ok_def)

lemma not_granted_blocks_compatible:
  assumes "lock_ok tk l" "\<not> granted_blocks tk l (m_type (tk t)) (m_ctx (tk t))"
    and "m_lock (tk t) = lk_key l" "a \<in> granted_set l"
  shows "compatible_tickets tk a t" "compatible_tickets tk t a"
  using assms lock_okD(4) [OF assms(1,4)]
  by (auto simp: compatible_tickets_def granted_blocks_def granted_incompat_sym)

lemma lock_ok_grant_waiter:
  assumes ok: "lock_ok tk l" and t: "t \<in> waiting_set l"
    and free: "\<not> granted_blocks tk l (m_type (tk t)) (m_ctx (tk t))"
  shows "lock_ok tk (grant_waiter tk l t)"
proof (rule lock_okI)
  note d = lock_okD [OF ok]
  have t': "t \<notin> granted_set l" using t d(3) by auto
  show "tl_ok tk (m_granted (grant_waiter tk l t))" using tl_ok_add [OF d(1) t'] by simp
  show "tl_ok tk (m_waiting (grant_waiter tk l t))" using tl_ok_remove [OF d(2) t] by simp
  show "granted_set (grant_waiter tk l t) \<inter> waiting_set (grant_waiter tk l t) = {}"
    using d(3) by (auto simp: waiting_set_remove [OF ok])
  show "m_lock (tk x) = lk_key (grant_waiter tk l t)" if "x \<in> granted_set (grant_waiter tk l t)" for x
    using that d(4,5) t by auto
  show "m_lock (tk x) = lk_key (grant_waiter tk l t)" if "x \<in> waiting_set (grant_waiter tk l t)" for x
    using that d(5) by (auto simp: waiting_set_remove [OF ok])
  have self: "compatible_tickets tk t t" by (simp add: compatible_tickets_def)
  show "compatible_tickets tk a b"
    if "a \<in> granted_set (grant_waiter tk l t)" "b \<in> granted_set (grant_waiter tk l t)" for a b
    using that d(6) self not_granted_blocks_compatible [OF ok free d(5) [OF t]] by auto
  show "inj_on (\<lambda>t. m_ctx (tk t)) (waiting_set (grant_waiter tk l t))"
    using d(7) by (auto simp: waiting_set_remove [OF ok] intro: inj_on_subset)
qed

section \<open>What rescheduling grants\<close>

text \<open>The effect of the loop, as a specification: a list \<open>moved\<close> of tickets goes from the
  waiting to the granted list, in the order of the queue, and exactly their contexts, whose
  slots were empty, are told so.\<close>

definition moves_waiters ::
    "tickets \<Rightarrow> ticket_id list \<Rightarrow> waits \<Rightarrow> MDL_lock \<Rightarrow> waits \<Rightarrow> MDL_lock \<Rightarrow> bool" where
  "moves_waiters tk moved ws l ws' l' \<longleftrightarrow>
     lk_key l' = lk_key l \<and> distinct moved \<and>
     tl_list (m_granted l') = tl_list (m_granted l) @ moved \<and>
     tl_list (m_waiting l') = filter (\<lambda>t. t \<notin> set moved) (tl_list (m_waiting l)) \<and>
     (\<forall>t \<in> set moved. ws (m_ctx (tk t)) = EMPTY) \<and>
     ws' = (\<lambda>c. if c \<in> (\<lambda>t. m_ctx (tk t)) ` set moved then GRANTED else ws c)"

lemma moves_waiters_Nil: "moves_waiters tk [] ws l ws l"
  by (simp add: moves_waiters_def)

lemma moves_waiters_Cons:
  assumes ok: "lock_ok tk l" and t: "t \<in> waiting_set l" "ws (m_ctx (tk t)) = EMPTY"
    and m: "moves_waiters tk moved (ws(m_ctx (tk t) := GRANTED)) (grant_waiter tk l t) ws' l'"
    and sub: "set moved \<subseteq> waiting_set l - {t}"
  shows "moves_waiters tk (t # moved) ws l ws' l'"
proof -
  have d: "distinct (tl_list (m_waiting l))" using lock_okD(2) [OF ok] by (simp add: tl_ok_def)
  have e: "ws (m_ctx (tk x)) = EMPTY" if "x \<in> set moved" for x
    using m that unfolding moves_waiters_def by (metis enum_wait_status.distinct(1) fun_upd_apply)
  have f: "(filter (\<lambda>x. x \<notin> set moved) (remove1 t (tl_list (m_waiting l)))) =
      filter (\<lambda>x. x \<notin> set (t # moved)) (tl_list (m_waiting l))"
    by (simp add: distinct_remove1_removeAll [OF d] removeAll_filter_not_eq conj_commute eq_commute)
  note m' = m [unfolded moves_waiters_def grant_waiter_sel tl_list_add tl_list_remove]
  have ws: "ws' = (\<lambda>c. if c \<in> (\<lambda>t. m_ctx (tk t)) ` set (t # moved) then GRANTED else ws c)"
    using m' by (simp add: fun_eq_iff)
  have "distinct (t # moved)" using m' sub by auto
  moreover have "tl_list (m_granted l') = tl_list (m_granted l) @ t # moved" using m' by simp
  moreover have "\<forall>x \<in> set (t # moved). ws (m_ctx (tk x)) = EMPTY" using t e by simp
  ultimately show ?thesis
    unfolding moves_waiters_def using m' ws f by simp
qed

lemma reschedule_loop_moves:
  assumes "lock_ok tk l" "set ts \<subseteq> waiting_set l" "distinct ts"
  shows "\<exists>moved. subseq moved ts \<and>
    moves_waiters tk moved ws l (fst (reschedule_loop tk skip ts ws l)) (snd (reschedule_loop tk skip ts ws l)) \<and>
    lock_ok tk (snd (reschedule_loop tk skip ts ws l))"
  using assms
proof (induction ts arbitrary: ws l)
  case Nil
  then show ?case using moves_waiters_Nil by fastforce
next
  case (Cons t ts)
  let ?grant = "\<not> (skip \<and> bm_has (hog_lock_types_bitmap (m_strategy l)) (m_type (tk t))) \<and>
         can_grant_lock tk l (m_type (tk t)) (m_ctx (tk t)) skip \<and> ws (m_ctx (tk t)) = EMPTY"
  show ?case
  proof (cases ?grant)
    case True
    have t: "t \<in> waiting_set l" using Cons.prems(2) by simp
    have ok: "lock_ok tk (grant_waiter tk l t)"
      using lock_ok_grant_waiter [OF Cons.prems(1) t] True can_grant_lock_iff [OF Cons.prems(1)] by blast
    have sub: "set ts \<subseteq> waiting_set (grant_waiter tk l t)"
      using Cons.prems by (auto simp: waiting_set_remove)
    obtain moved where m: "subseq moved ts"
      "moves_waiters tk moved (ws(m_ctx (tk t) := GRANTED)) (grant_waiter tk l t)
        (fst (reschedule_loop tk skip (t # ts) ws l)) (snd (reschedule_loop tk skip (t # ts) ws l))"
      "lock_ok tk (snd (reschedule_loop tk skip (t # ts) ws l))"
      using Cons.IH [OF ok sub, of "ws(m_ctx (tk t) := GRANTED)"] Cons.prems(3)
      unfolding reschedule_loop_Cons if_P [OF True] distinct.simps by blast
    have "set moved \<subseteq> waiting_set l - {t}"
      using subseq_setD [OF m(1)] Cons.prems by auto
    then have "moves_waiters tk (t # moved) ws l
        (fst (reschedule_loop tk skip (t # ts) ws l)) (snd (reschedule_loop tk skip (t # ts) ws l))"
      using moves_waiters_Cons [OF Cons.prems(1) t _ m(2)] True by blast
    then show ?thesis using m(1,3) by (metis subseq_Cons2)
  next
    case False
    then show ?thesis
      using Cons.IH [of l ws] Cons.prems unfolding reschedule_loop_Cons if_not_P [OF False]
      by (auto intro: subseq_ConsI)
  qed
qed

section \<open>No grantable waiter is left behind\<close>

text \<open>A waiter is \<^emph>\<open>stuck\<close> when its slot is taken by some other message, or when the grant decision
  refuses it.  Granting one waiter leaves every other stuck waiter stuck: a pending request
  that held it up now holds it up as a granted lock of another context.\<close>

definition stuck :: "tickets \<Rightarrow> bool \<Rightarrow> waits \<Rightarrow> MDL_lock \<Rightarrow> ticket_id \<Rightarrow> bool" where
  "stuck tk skip ws l t \<longleftrightarrow> ws (m_ctx (tk t)) \<noteq> EMPTY \<or>
     (skip \<and> bm_has (hog_lock_types_bitmap (m_strategy l)) (m_type (tk t))) \<or>
     \<not> can_grant_lock tk l (m_type (tk t)) (m_ctx (tk t)) skip"

lemma stuck_grant_waiter:
  assumes ok: "lock_ok tk l" and t: "t \<in> waiting_set l"
    and free: "\<not> granted_blocks tk l (m_type (tk t)) (m_ctx (tk t))"
    and w: "w \<in> waiting_set l" "w \<noteq> t" and st: "stuck tk skip ws l w"
  shows "stuck tk skip (ws(m_ctx (tk t) := GRANTED)) (grant_waiter tk l t) w"
proof -
  let ?l' = "grant_waiter tk l t" and ?ty = "m_type (tk w)" and ?c = "m_ctx (tk w)"
  have ne: "m_ctx (tk t) \<noteq> ?c"
    using lock_okD(7) [OF ok] t w by (auto simp: inj_on_def)
  have g: "granted_blocks tk l ?ty ?c \<Longrightarrow> granted_blocks tk ?l' ?ty ?c"
    by (auto simp: granted_blocks_def)
  have b: "granted_blocks tk ?l' ?ty ?c \<or> waiting_blocks tk ?l' ?ty" if "waiting_blocks tk l ?ty"
  proof -
    from that obtain u where
      u: "u \<in> waiting_set l" "bm_has (waiting_incompat (m_strategy l) ?ty) (m_type (tk u))"
      by (auto simp: waiting_blocks_def)
    show ?thesis
    proof (cases "u = t")
      case True
      then have "granted_blocks tk ?l' ?ty ?c"
        using u ne waiting_incompat_granted by (auto simp: granted_blocks_def)
      then show ?thesis ..
    next
      case False
      then show ?thesis using u by (auto simp: waiting_blocks_def waiting_set_remove [OF ok])
    qed
  qed
  show ?thesis
    using st g b unfolding stuck_def can_grant_lock_iff [OF ok]
      can_grant_lock_iff [OF lock_ok_grant_waiter [OF ok t free]] grant_waiter_sel
    using ne by auto
qed

lemma reschedule_loop_stuck:
  assumes "lock_ok tk l" "set ts \<subseteq> waiting_set l" "distinct ts"
    and "\<And>w. w \<in> waiting_set l - set ts \<Longrightarrow> stuck tk skip ws l w"
    and "w \<in> waiting_set (snd (reschedule_loop tk skip ts ws l))"
  shows "stuck tk skip (fst (reschedule_loop tk skip ts ws l)) (snd (reschedule_loop tk skip ts ws l)) w"
  using assms
proof (induction ts arbitrary: ws l)
  case Nil
  then show ?case by simp
next
  case (Cons t ts)
  let ?grant = "\<not> (skip \<and> bm_has (hog_lock_types_bitmap (m_strategy l)) (m_type (tk t))) \<and>
         can_grant_lock tk l (m_type (tk t)) (m_ctx (tk t)) skip \<and> ws (m_ctx (tk t)) = EMPTY"
  show ?case
  proof (cases ?grant)
    case True
    let ?l' = "grant_waiter tk l t"
    have t: "t \<in> waiting_set l" using Cons.prems(2) by simp
    have free: "\<not> granted_blocks tk l (m_type (tk t)) (m_ctx (tk t))"
      using True can_grant_lock_iff [OF Cons.prems(1)] by blast
    have sub: "set ts \<subseteq> waiting_set ?l'"
      using Cons.prems by (auto simp: waiting_set_remove)
    have st: "stuck tk skip (ws(m_ctx (tk t) := GRANTED)) ?l' v" if "v \<in> waiting_set ?l' - set ts" for v
      using that Cons.prems(1,4) stuck_grant_waiter [OF Cons.prems(1) t free]
      by (simp add: waiting_set_remove)
    have d: "distinct ts" using Cons.prems(3) by simp
    show ?thesis
      using Cons.IH [OF lock_ok_grant_waiter [OF Cons.prems(1) t free] sub d st] Cons.prems(5)
      unfolding reschedule_loop_Cons if_P [OF True] by blast
  next
    case False
    then have "stuck tk skip ws l t" by (auto simp: stuck_def)
    then have "stuck tk skip ws l v" if "v \<in> waiting_set l - set ts" for v
      using that Cons.prems(4) [of v] by auto
    then show ?thesis
      using Cons.IH [of l ws] Cons.prems unfolding reschedule_loop_Cons if_not_P [OF False] by auto
  qed
qed

section \<open>The rescheduler\<close>

lemma lock_ok_hog [simp]: "lock_ok tk (l\<lparr>m_hog_lock_count := n\<rparr>) = lock_ok tk l"
  by (simp add: lock_ok_def)

lemma can_grant_lock_hog [simp]:
  "can_grant_lock tk (l\<lparr>m_hog_lock_count := n\<rparr>) ty c ign = can_grant_lock tk l ty c ign"
  by (simp add: can_grant_lock_def)

lemma stuck_hog [simp]: "stuck tk skip ws (l\<lparr>m_hog_lock_count := n\<rparr>) t = stuck tk skip ws l t"
  by (simp add: stuck_def)

lemma moves_waiters_hog [simp]:
  "moves_waiters tk moved ws l ws' (l'\<lparr>m_hog_lock_count := n\<rparr>) = moves_waiters tk moved ws l ws' l'"
  by (simp add: moves_waiters_def)

lemma reschedule_waiters_cases:
  obtains n where
    "fst (reschedule_waiters mx tk ws l) =
       fst (reschedule_loop tk (reschedule_skip mx l) (tl_list (m_waiting l)) ws l)"
    "snd (reschedule_waiters mx tk ws l) =
       (snd (reschedule_loop tk (reschedule_skip mx l) (tl_list (m_waiting l)) ws l))\<lparr>m_hog_lock_count := n\<rparr>"
proof -
  let ?r = "reschedule_loop tk (reschedule_skip mx l) (tl_list (m_waiting l)) ws l"
  have "snd (reschedule_waiters mx tk ws l) = (snd ?r)\<lparr>m_hog_lock_count := 0\<rparr> \<or>
      snd (reschedule_waiters mx tk ws l) = (snd ?r)\<lparr>m_hog_lock_count := m_hog_lock_count (snd ?r)\<rparr>"
    by (cases ?r) (simp add: reschedule_waiters_def)
  moreover have "fst (reschedule_waiters mx tk ws l) = fst ?r"
    by (cases ?r) (simp add: reschedule_waiters_def)
  ultimately show thesis using that by blast
qed

lemma reschedule_waiters_moves:
  assumes ok: "lock_ok tk l"
  obtains moved where "subseq moved (tl_list (m_waiting l))"
    and "moves_waiters tk moved ws l (fst (reschedule_waiters mx tk ws l)) (snd (reschedule_waiters mx tk ws l))"
    and "lock_ok tk (snd (reschedule_waiters mx tk ws l))"
proof -
  obtain n where e: "fst (reschedule_waiters mx tk ws l) =
       fst (reschedule_loop tk (reschedule_skip mx l) (tl_list (m_waiting l)) ws l)"
    "snd (reschedule_waiters mx tk ws l) =
       (snd (reschedule_loop tk (reschedule_skip mx l) (tl_list (m_waiting l)) ws l))\<lparr>m_hog_lock_count := n\<rparr>"
    by (rule reschedule_waiters_cases)
  have d: "distinct (tl_list (m_waiting l))" using lock_okD(2) [OF ok] by (simp add: tl_ok_def)
  show thesis
    using reschedule_loop_moves [OF ok subset_refl d, of ws "reschedule_skip mx l"] that
    unfolding e moves_waiters_hog lock_ok_hog by blast
qed

lemma reschedule_waiters_stuck:
  assumes ok: "lock_ok tk l" and w: "w \<in> waiting_set (snd (reschedule_waiters mx tk ws l))"
  shows "stuck tk (reschedule_skip mx l)
    (fst (reschedule_waiters mx tk ws l)) (snd (reschedule_waiters mx tk ws l)) w"
proof -
  obtain n where e: "fst (reschedule_waiters mx tk ws l) =
       fst (reschedule_loop tk (reschedule_skip mx l) (tl_list (m_waiting l)) ws l)"
    "snd (reschedule_waiters mx tk ws l) =
       (snd (reschedule_loop tk (reschedule_skip mx l) (tl_list (m_waiting l)) ws l))\<lparr>m_hog_lock_count := n\<rparr>"
    by (rule reschedule_waiters_cases)
  have d: "distinct (tl_list (m_waiting l))" using lock_okD(2) [OF ok] by (simp add: tl_ok_def)
  show ?thesis
    using reschedule_loop_stuck [OF ok subset_refl d, of "reschedule_skip mx l" ws w] w
    unfolding e stuck_hog by simp
qed

text \<open>C10: The grant decision, which looks at the bitmaps first and walks the granted list only
  when they conflict, is the one the comment states: a request is granted exactly when no
  other context holds an incompatible granted lock and, unless priorities are
  ignored, no pending request of a higher priority exists.\<close>

theorem can_grant_lock_correct:
  assumes "lock_ok tk l"
  shows "can_grant_lock tk l ty c ign \<longleftrightarrow>
    (ign \<or> (\<forall>w \<in> waiting_set l. \<not> bm_has (waiting_incompat (m_strategy l) ty) (m_type (tk w)))) \<and>
    (\<forall>g \<in> granted_set l. m_ctx (tk g) \<noteq> c \<longrightarrow> \<not> bm_has (granted_incompat (m_strategy l) ty) (m_type (tk g)))"
  unfolding can_grant_lock_iff [OF assms] by (auto simp: waiting_blocks_def granted_blocks_def)

text \<open>C8: Rescheduling keeps the lock invariant (so granted locks of different contexts stay
  compatible), moves waiters to the granted list in queue order and tells exactly those contexts;
  and it leaves no grantable waiter behind: afterwards a waiter with an empty slot is refused by
  the grant decision, or, when the strong requests give way, is a strong request.\<close>

theorem reschedule_waiters_correct:
  assumes "lock_ok tk l"
    and "reschedule_waiters max_write_lock_count tk ws l = (ws', l')"
  shows "lock_ok tk l' \<and>
    (\<exists>moved. subseq moved (tl_list (m_waiting l)) \<and> moves_waiters tk moved ws l ws' l') \<and>
    (\<forall>w \<in> waiting_set l'. ws' (m_ctx (tk w)) = EMPTY \<longrightarrow>
       (if reschedule_skip max_write_lock_count l
        then bm_has (hog_lock_types_bitmap (m_strategy l')) (m_type (tk w)) \<or>
             granted_blocks tk l' (m_type (tk w)) (m_ctx (tk w))
        else \<not> can_grant_lock tk l' (m_type (tk w)) (m_ctx (tk w)) False))"
proof -
  have e: "ws' = fst (reschedule_waiters max_write_lock_count tk ws l)"
    "l' = snd (reschedule_waiters max_write_lock_count tk ws l)" using assms(2) by simp_all
  obtain moved where m: "subseq moved (tl_list (m_waiting l))" "moves_waiters tk moved ws l ws' l'"
    "lock_ok tk l'"
    unfolding e by (rule reschedule_waiters_moves [OF assms(1)])
  have "stuck tk (reschedule_skip max_write_lock_count l) ws' l' w" if "w \<in> waiting_set l'" for w
    using reschedule_waiters_stuck [OF assms(1)] that unfolding e by blast
  then show ?thesis
    using m by (auto simp: stuck_def can_grant_lock_iff [OF m(3)])
qed

section \<open>Concrete locks\<close>

definition sample_key :: lock_id where
  "sample_key = [namespace_byte TABLE, 100, 0, 116, 0]"

definition sample_lock :: "tickets \<Rightarrow> nat \<Rightarrow> ticket_id list \<Rightarrow> ticket_id list \<Rightarrow> MDL_lock" where
  "sample_lock tk hog gs us =
     (new_lock sample_key)\<lparr>m_granted := foldl (add_ticket tk) empty_ticket_list gs,
        m_waiting := foldl (add_ticket tk) empty_ticket_list us, m_hog_lock_count := hog\<rparr>"

definition sample_tickets :: tickets where
  "sample_tickets t = \<lparr>m_type = (if t = 0 then MDL_SHARED_NO_WRITE else MDL_SHARED),
     m_ctx = t, m_lock = sample_key\<rparr>"

lemma tl_list_foldl_add [simp]: "tl_list (foldl (add_ticket tk) tls ts) = tl_list tls @ ts"
  by (induction ts arbitrary: tls) simp_all

lemma tl_ok_foldl_add:
  "tl_ok tk tls \<Longrightarrow> distinct ts \<Longrightarrow> set ts \<inter> set (tl_list tls) = {} \<Longrightarrow>
     tl_ok tk (foldl (add_ticket tk) tls ts)"
  by (induction ts arbitrary: tls) (auto simp: tl_ok_add)

lemma tl_list_empty [simp]: "tl_list empty_ticket_list = []"
  by (simp add: empty_ticket_list_def)

lemma sample_lock_ok: "distinct us \<Longrightarrow> lock_ok sample_tickets (sample_lock sample_tickets hog [] us)"
  by (rule lock_okI) (auto simp: sample_lock_def tl_ok_foldl_add new_lock_def inj_on_def sample_tickets_def)

theorem can_grant_lock_correct_witness:
  "lock_ok sample_tickets (sample_lock sample_tickets 0 [] [0, 1]) \<and>
   \<not> can_grant_lock sample_tickets (sample_lock sample_tickets 0 [] [0, 1]) MDL_SHARED_WRITE 7 False \<and>
   can_grant_lock sample_tickets (sample_lock sample_tickets 0 [] [0, 1]) MDL_SHARED_WRITE 7 True"
proof -
  have ok: "lock_ok sample_tickets (sample_lock sample_tickets 0 [] [0, 1])"
    by (rule sample_lock_ok) simp
  show ?thesis
    unfolding can_grant_lock_correct [OF ok] using ok
    by (simp add: sample_lock_def sample_tickets_def new_lock_def sample_key_def strategy_of_def
        mdl_matrices bm_simps)
qed

theorem reschedule_waiters_correct_witness:
  "snd (reschedule_waiters 5 sample_tickets (\<lambda>_. EMPTY) (sample_lock sample_tickets 0 [] [0, 1]))
     = sample_lock sample_tickets 0 [0, 1] [] \<and>
   lock_ok sample_tickets (sample_lock sample_tickets 0 [0, 1] [])"
proof -
  have ok: "lock_ok sample_tickets (sample_lock sample_tickets 0 [] [0, 1])"
    by (rule sample_lock_ok) simp
  have e: "snd (reschedule_waiters 5 sample_tickets (\<lambda>_. EMPTY) (sample_lock sample_tickets 0 [] [0, 1]))
     = sample_lock sample_tickets 0 [0, 1] []" by code_simp
  show ?thesis
    using reschedule_waiters_correct [OF ok prod.collapse [symmetric], of 5 "\<lambda>_. EMPTY"] unfolding e by blast
qed


end
