(* ===== verification/Mdl_Context.thy ===== *)
theory Mdl_Context
  imports Mdl_Lock
begin

unbundle bit_operations_syntax

text \<open>
  The lock map (\<open>MDL_map\<close>) and the operations of a connection's locking context
  (\<open>MDL_context\<close>, \<open>sql/mdl.cc\<close>) on the shared state: acquiring with and without waiting,
  upgrading, downgrading, releasing, savepoints and lock durations.  The hash of locks
  (\<open>mysys/lf_hash.c\<close>) is a map from key bytes to locks; a ticket's address is a number that is
  never used again.  A blocked \<open>acquire_lock\<close> keeps its local variables in a frame, so that the
  steps of other contexts can come between.
\<close>

section \<open>State\<close>

record MDL_request =
  rq_key :: lock_id
  rq_type :: enum_mdl_type
  rq_duration :: enum_mdl_duration

record wait_frame =
  fr_request :: MDL_request
  fr_ticket :: ticket_id
  fr_wait_status :: enum_wait_status

record mdl_state =
  st_locks :: "lock_id \<Rightarrow> MDL_lock option"
  st_tk :: tickets
  st_ws :: waits
  m_tickets :: "ctx_id \<Rightarrow> enum_mdl_duration \<Rightarrow> ticket_id list"
  m_waiting_for :: "ctx_id \<Rightarrow> ticket_id option"
  st_frame :: "ctx_id \<Rightarrow> wait_frame option"
  st_next :: ticket_id

record MDL_savepoint =
  m_stmt_ticket :: "ticket_id option"
  m_trans_ticket :: "ticket_id option"

text \<open>How the allocations of one call go: the pins of the hash, the ticket, the lock object.\<close>

datatype mdl_alloc = Alloc_ok | Pins_fail | Ticket_fail | Lock_fail

datatype try_result = Try_error | Try_granted ticket_id | Try_conflict ticket_id

primrec duration_index :: "enum_mdl_duration \<Rightarrow> nat" where
  "duration_index MDL_STATEMENT = 0"
| "duration_index MDL_TRANSACTION = 1"
| "duration_index MDL_EXPLICIT = 2"

definition duration_of :: "nat \<Rightarrow> enum_mdl_duration" where
  "duration_of n = (if n = 0 then MDL_STATEMENT else if n = 1 then MDL_TRANSACTION else MDL_EXPLICIT)"

section \<open>The lock map\<close>

definition global_key :: lock_id where
  "global_key = [namespace_byte GLOBAL, 0, 0]"

definition commit_key :: lock_id where
  "commit_key = [namespace_byte COMMIT, 0, 0]"

definition lock_of_key :: "lock_id \<Rightarrow> lock_id" where
  "lock_of_key k =
     (if k ! 0 = namespace_byte GLOBAL then global_key
      else if k ! 0 = namespace_byte COMMIT then commit_key else k)"

definition mdl_map_init :: "lock_id \<Rightarrow> MDL_lock option" where
  "mdl_map_init = [global_key \<mapsto> new_lock global_key, commit_key \<mapsto> new_lock commit_key]"

definition find_or_insert :: "(lock_id \<Rightarrow> MDL_lock option) \<Rightarrow> lock_id \<Rightarrow> MDL_lock" where
  "find_or_insert m k =
     (case m (lock_of_key k) of Some l \<Rightarrow> l | None \<Rightarrow> new_lock (lock_of_key k))"

definition map_get_lock_owner :: "mdl_state \<Rightarrow> lock_id \<Rightarrow> ctx_id option" where
  "map_get_lock_owner s k =
     (case st_locks s (lock_of_key k) of Some l \<Rightarrow> get_lock_owner (st_tk s) l | None \<Rightarrow> None)"

definition map_remove :: "(lock_id \<Rightarrow> MDL_lock option) \<Rightarrow> MDL_lock \<Rightarrow> lock_id \<Rightarrow> MDL_lock option" where
  "map_remove m l =
     (if lk_key l ! 0 = namespace_byte GLOBAL \<or> lk_key l ! 0 = namespace_byte COMMIT
      then m(lk_key l \<mapsto> l) else m(lk_key l := None))"

definition mdl_init :: mdl_state where
  "mdl_init = \<lparr>st_locks = mdl_map_init,
     st_tk = (\<lambda>_. \<lparr>m_type = MDL_SHARED, m_ctx = 0, m_lock = global_key\<rparr>),
     st_ws = (\<lambda>_. EMPTY), m_tickets = (\<lambda>_ _. []), m_waiting_for = (\<lambda>_. None),
     st_frame = (\<lambda>_. None), st_next = 0\<rparr>"

definition put_lock :: "mdl_state \<Rightarrow> MDL_lock \<Rightarrow> mdl_state" where
  "put_lock s l = s\<lparr>st_locks := (st_locks s)(lk_key l \<mapsto> l)\<rparr>"

text \<open>What \<open>MDL_lock::remove_ticket\<close> does after it has removed the ticket.\<close>

definition lock_finish :: "nat \<Rightarrow> mdl_state \<Rightarrow> lock_id \<Rightarrow> mdl_state" where
  "lock_finish mx s k =
     (case st_locks s k of
        None \<Rightarrow> s
      | Some l \<Rightarrow>
          if lock_is_empty l then s\<lparr>st_locks := map_remove (st_locks s) l\<rparr>
          else case reschedule_waiters mx (st_tk s) (st_ws s) l of
                 (ws', l2) \<Rightarrow> s\<lparr>st_locks := (st_locks s)(lk_key l2 \<mapsto> l2), st_ws := ws'\<rparr>)"

text \<open>\<open>MDL_lock::remove_ticket\<close>: take the ticket off one of the two lists, then drop the lock object or
  reschedule.  The code hands over the list as a member pointer, here the flag \<open>waiting\<close>.\<close>

definition lock_remove_ticket :: "nat \<Rightarrow> mdl_state \<Rightarrow> bool \<Rightarrow> ticket_id \<Rightarrow> mdl_state" where
  "lock_remove_ticket mx s waiting t =
     (case st_locks s (m_lock (st_tk s t)) of
        None \<Rightarrow> s
      | Some l \<Rightarrow>
          lock_finish mx
            (put_lock s (if waiting then l\<lparr>m_waiting := tl_remove_ticket (st_tk s) (m_waiting l) t\<rparr>
                         else l\<lparr>m_granted := tl_remove_ticket (st_tk s) (m_granted l) t\<rparr>))
            (lk_key l))"

section \<open>Tickets of a context\<close>

definition push_front :: "mdl_state \<Rightarrow> ctx_id \<Rightarrow> enum_mdl_duration \<Rightarrow> ticket_id \<Rightarrow> mdl_state" where
  "push_front s c d t =
     s\<lparr>m_tickets := (m_tickets s)(c := (m_tickets s c)(d := t # m_tickets s c d))\<rparr>"

definition tickets_remove :: "mdl_state \<Rightarrow> ctx_id \<Rightarrow> enum_mdl_duration \<Rightarrow> ticket_id \<Rightarrow> mdl_state" where
  "tickets_remove s c d t =
     s\<lparr>m_tickets := (m_tickets s)(c := (m_tickets s c)(d := remove1 t (m_tickets s c d)))\<rparr>"

fun find_ticket_loop :: "mdl_state \<Rightarrow> ctx_id \<Rightarrow> MDL_request \<Rightarrow> nat list \<Rightarrow> (ticket_id \<times> enum_mdl_duration) option" where
  "find_ticket_loop s c r [] = None"
| "find_ticket_loop s c r (i # is) =
     (let d = duration_of ((duration_index (rq_duration r) + i) mod 3) in
      case find (\<lambda>t. rq_key r = m_lock (st_tk s t) \<and> has_stronger_or_equal_type (st_tk s t) (rq_type r))
             (m_tickets s c d) of
        Some t \<Rightarrow> Some (t, d)
      | None \<Rightarrow> find_ticket_loop s c r is)"

definition find_ticket :: "mdl_state \<Rightarrow> ctx_id \<Rightarrow> MDL_request \<Rightarrow> (ticket_id \<times> enum_mdl_duration) option" where
  "find_ticket s c r = find_ticket_loop s c r [0, 1, 2]"

text \<open>\<open>MDL_ticket::create\<close> followed by the assignment of \<open>m_lock\<close>.\<close>

definition ticket_create :: "mdl_state \<Rightarrow> ctx_id \<Rightarrow> enum_mdl_type \<Rightarrow> lock_id \<Rightarrow> mdl_state" where
  "ticket_create s c ty k =
     s\<lparr>st_tk := (st_tk s)(st_next s := \<lparr>m_type = ty, m_ctx = c, m_lock = k\<rparr>), st_next := st_next s + 1\<rparr>"

definition grant_new :: "mdl_state \<Rightarrow> MDL_lock \<Rightarrow> ticket_id \<Rightarrow> mdl_state" where
  "grant_new s l t = put_lock s (l\<lparr>m_granted := add_ticket (st_tk s) (m_granted l) t\<rparr>)"

definition clone_ticket ::
    "mdl_state \<Rightarrow> ctx_id \<Rightarrow> MDL_request \<Rightarrow> ticket_id \<Rightarrow> mdl_alloc \<Rightarrow> mdl_state \<times> ticket_id option" where
  "clone_ticket s c r orig alloc =
     (if alloc = Pins_fail \<or> alloc = Ticket_fail then (s, None)
      else let k = m_lock (st_tk s orig); t = st_next s; s1 = ticket_create s c (rq_type r) k in
        case st_locks s k of
          None \<Rightarrow> (s, None)
        | Some l \<Rightarrow> (push_front (grant_new s1 l t) c (rq_duration r) t, Some t))"

definition try_acquire_lock_impl ::
    "mdl_state \<Rightarrow> ctx_id \<Rightarrow> MDL_request \<Rightarrow> mdl_alloc \<Rightarrow> mdl_state \<times> try_result" where
  "try_acquire_lock_impl s c r alloc =
     (case find_ticket s c r of
        Some (orig, found_duration) \<Rightarrow>
          if found_duration \<noteq> rq_duration r \<or> rq_duration r = MDL_EXPLICIT
          then case clone_ticket s c r orig alloc of
                 (s', Some t) \<Rightarrow> (s', Try_granted t)
               | (s', None) \<Rightarrow> (s', Try_error)
          else (s, Try_granted orig)
      | None \<Rightarrow>
          if alloc \<noteq> Alloc_ok then (s, Try_error)
          else
            let l = find_or_insert (st_locks s) (rq_key r); t = st_next s;
                s1 = ticket_create s c (rq_type r) (lk_key l) in
            if can_grant_lock (st_tk s1) l (rq_type r) c False
            then (push_front (grant_new s1 l t) c (rq_duration r) t, Try_granted t)
            else (put_lock s1 l, Try_conflict t))"

definition try_acquire_lock ::
    "mdl_state \<Rightarrow> ctx_id \<Rightarrow> MDL_request \<Rightarrow> mdl_alloc \<Rightarrow> mdl_state \<times> bool \<times> ticket_id option" where
  "try_acquire_lock s c r alloc =
     (case try_acquire_lock_impl s c r alloc of
        (s', Try_error) \<Rightarrow> (s', True, None)
      | (s', Try_granted t) \<Rightarrow> (s', False, Some t)
      | (s', Try_conflict t) \<Rightarrow> (s', False, None))"

section \<open>Acquiring with waiting\<close>

text \<open>\<open>acquire_lock\<close> up to its wait: it returns at once, or leaves a frame.\<close>

definition acquire_lock_begin :: "mdl_state \<Rightarrow> ctx_id \<Rightarrow> MDL_request \<Rightarrow> mdl_alloc \<Rightarrow> mdl_state" where
  "acquire_lock_begin s c r alloc =
     (case try_acquire_lock_impl s c r alloc of
        (s', Try_conflict t) \<Rightarrow>
          (case st_locks s' (m_lock (st_tk s' t)) of
             None \<Rightarrow> s'
           | Some l \<Rightarrow>
               (put_lock s' (l\<lparr>m_waiting := add_ticket (st_tk s') (m_waiting l) t\<rparr>))
                 \<lparr>st_ws := reset_status (st_ws s') c,
                  m_waiting_for := (m_waiting_for s')(c \<mapsto> t),
                  st_frame := (st_frame s')(c \<mapsto>
                    \<lparr>fr_request = r, fr_ticket = t, fr_wait_status = EMPTY\<rparr>)\<rparr>)
      | (s', _) \<Rightarrow> s')"

text \<open>\<open>MDL_wait::timed_wait\<close> once its loop has ended: the slot is set, or the owner is killed, or
  the time is up.\<close>

definition timed_wait :: "waits \<Rightarrow> ctx_id \<Rightarrow> bool \<Rightarrow> bool \<Rightarrow> waits \<times> enum_wait_status" where
  "timed_wait ws c is_killed set_status_on_timeout =
     (let ws' = (if ws c = EMPTY
                 then if is_killed then ws(c := KILLED)
                      else if set_status_on_timeout then ws(c := TIMEOUT) else ws
                 else ws)
      in (ws', ws' c))"

definition set_wait_status :: "mdl_state \<Rightarrow> ctx_id \<Rightarrow> wait_frame \<Rightarrow> enum_wait_status \<Rightarrow> mdl_state" where
  "set_wait_status s c f st = s\<lparr>st_frame := (st_frame s)(c \<mapsto> f\<lparr>fr_wait_status := st\<rparr>)\<rparr>"

text \<open>One round of the short wait, and the final wait up to the timeout.\<close>

definition acquire_lock_short_wait :: "mdl_state \<Rightarrow> ctx_id \<Rightarrow> wait_frame \<Rightarrow> bool \<Rightarrow> bool \<Rightarrow> mdl_state" where
  "acquire_lock_short_wait s c f is_killed is_connected =
     (case timed_wait (st_ws s) c is_killed False of
        (ws', wait_status) \<Rightarrow>
          if wait_status \<noteq> EMPTY then set_wait_status (s\<lparr>st_ws := ws'\<rparr>) c f wait_status
          else if \<not> is_connected then set_wait_status (s\<lparr>st_ws := ws'\<rparr>) c f TIMEOUT
          else s\<lparr>st_ws := ws'\<rparr>)"

definition acquire_lock_long_wait :: "mdl_state \<Rightarrow> ctx_id \<Rightarrow> wait_frame \<Rightarrow> bool \<Rightarrow> mdl_state" where
  "acquire_lock_long_wait s c f is_killed =
     (case timed_wait (st_ws s) c is_killed True of
        (ws', wait_status) \<Rightarrow> set_wait_status (s\<lparr>st_ws := ws'\<rparr>) c f wait_status)"

text \<open>The end of \<open>acquire_lock\<close>.  The value is \<open>None\<close> when the ticket to be taken off the waiting list
  is not on it: the links of the intrusive list are then those of another list, and the
  call corrupts it.\<close>

definition acquire_lock_end :: "nat \<Rightarrow> mdl_state \<Rightarrow> ctx_id \<Rightarrow> wait_frame \<Rightarrow> mdl_state option" where
  "acquire_lock_end mx s c f =
     (let t = fr_ticket f;
          s1 = s\<lparr>m_waiting_for := (m_waiting_for s)(c := None), st_frame := (st_frame s)(c := None)\<rparr> in
      if fr_wait_status f \<noteq> GRANTED then
        (case st_locks s1 (m_lock (st_tk s1 t)) of
           None \<Rightarrow> None
         | Some l \<Rightarrow> if t \<in> waiting_set l then Some (lock_remove_ticket mx s1 True t) else None)
      else Some (push_front s1 c (rq_duration (fr_request f)) t))"

section \<open>Upgrade and downgrade\<close>

definition retype :: "mdl_state \<Rightarrow> ticket_id \<Rightarrow> enum_mdl_type \<Rightarrow> mdl_state" where
  "retype s t ty = s\<lparr>st_tk := (st_tk s)(t := (st_tk s t)\<lparr>m_type := ty\<rparr>)\<rparr>"

text \<open>Take a ticket out of the granted queue, change its type, and put it back.\<close>

definition requeue_granted :: "mdl_state \<Rightarrow> MDL_lock \<Rightarrow> ticket_id \<Rightarrow> enum_mdl_type \<Rightarrow> mdl_state \<times> MDL_lock" where
  "requeue_granted s l t ty =
     (let l1 = l\<lparr>m_granted := tl_remove_ticket (st_tk s) (m_granted l) t\<rparr>; s1 = retype s t ty in
      (s1, l1\<lparr>m_granted := add_ticket (st_tk s1) (m_granted l1) t\<rparr>))"

text \<open>\<open>upgrade_shared_lock\<close> returns at once, or acquires a lock of the new type and then merges it
  into the ticket; here the request it makes, and the merge.\<close>

definition upgrade_request :: "mdl_state \<Rightarrow> ticket_id \<Rightarrow> enum_mdl_type \<Rightarrow> MDL_request option" where
  "upgrade_request s mdl_ticket new_type =
     (if has_stronger_or_equal_type (st_tk s mdl_ticket) new_type then None
      else Some \<lparr>rq_key = m_lock (st_tk s mdl_ticket), rq_type = new_type, rq_duration = MDL_TRANSACTION\<rparr>)"

definition upgrade_merge ::
    "mdl_state \<Rightarrow> ctx_id \<Rightarrow> ticket_id \<Rightarrow> enum_mdl_type \<Rightarrow> ticket_id \<Rightarrow> bool \<Rightarrow> mdl_state" where
  "upgrade_merge s c mdl_ticket new_type x is_new_ticket =
     (case st_locks s (m_lock (st_tk s mdl_ticket)) of
        None \<Rightarrow> s
      | Some l \<Rightarrow>
          (let l1 = (if is_new_ticket then l\<lparr>m_granted := tl_remove_ticket (st_tk s) (m_granted l) x\<rparr> else l)
           in case requeue_granted s l1 mdl_ticket new_type of
                (s1, l2) \<Rightarrow>
                  let s2 = put_lock s1 l2 in
                  if is_new_ticket then tickets_remove s2 c MDL_TRANSACTION x else s2))"

definition downgrade_lock :: "nat \<Rightarrow> mdl_state \<Rightarrow> ticket_id \<Rightarrow> enum_mdl_type \<Rightarrow> mdl_state" where
  "downgrade_lock mx s t ty =
     (if m_type (st_tk s t) = ty \<or> \<not> has_stronger_or_equal_type (st_tk s t) ty then s
      else case st_locks s (m_lock (st_tk s t)) of
             None \<Rightarrow> s
           | Some l \<Rightarrow>
               (case requeue_granted s l t ty of
                  (s1, l1) \<Rightarrow>
                    case reschedule_waiters mx (st_tk s1) (st_ws s1) l1 of
                      (ws', l2) \<Rightarrow> (put_lock s1 l2)\<lparr>st_ws := ws'\<rparr>))"

section \<open>Release, savepoints and durations\<close>

definition release_lock :: "nat \<Rightarrow> mdl_state \<Rightarrow> ctx_id \<Rightarrow> enum_mdl_duration \<Rightarrow> ticket_id \<Rightarrow> mdl_state" where
  "release_lock mx s c d t = tickets_remove (lock_remove_ticket mx s False t) c d t"

fun release_loop ::
    "nat \<Rightarrow> ctx_id \<Rightarrow> enum_mdl_duration \<Rightarrow> ticket_id option \<Rightarrow> ticket_id list \<Rightarrow> mdl_state \<Rightarrow> mdl_state" where
  "release_loop mx c d sentinel [] s = s"
| "release_loop mx c d sentinel (t # ts) s =
     (if Some t = sentinel then s else release_loop mx c d sentinel ts (release_lock mx s c d t))"

definition release_locks_stored_before ::
    "nat \<Rightarrow> mdl_state \<Rightarrow> ctx_id \<Rightarrow> enum_mdl_duration \<Rightarrow> ticket_id option \<Rightarrow> mdl_state" where
  "release_locks_stored_before mx s c d sentinel = release_loop mx c d sentinel (m_tickets s c d) s"

fun release_name_loop :: "nat \<Rightarrow> ctx_id \<Rightarrow> lock_id \<Rightarrow> ticket_id list \<Rightarrow> mdl_state \<Rightarrow> mdl_state" where
  "release_name_loop mx c k [] s = s"
| "release_name_loop mx c k (t # ts) s =
     release_name_loop mx c k ts
       (if m_lock (st_tk s t) = k then release_lock mx s c MDL_EXPLICIT t else s)"

definition release_all_locks_for_name :: "nat \<Rightarrow> mdl_state \<Rightarrow> ctx_id \<Rightarrow> ticket_id \<Rightarrow> mdl_state" where
  "release_all_locks_for_name mx s c name =
     release_name_loop mx c (m_lock (st_tk s name)) (m_tickets s c MDL_EXPLICIT) s"

definition front :: "'a list \<Rightarrow> 'a option" where
  "front xs = (case xs of [] \<Rightarrow> None | x # _ \<Rightarrow> Some x)"

definition mdl_savepoint :: "mdl_state \<Rightarrow> ctx_id \<Rightarrow> MDL_savepoint" where
  "mdl_savepoint s c =
     \<lparr>m_stmt_ticket = front (m_tickets s c MDL_STATEMENT), m_trans_ticket = front (m_tickets s c MDL_TRANSACTION)\<rparr>"

definition rollback_to_savepoint :: "nat \<Rightarrow> mdl_state \<Rightarrow> ctx_id \<Rightarrow> MDL_savepoint \<Rightarrow> mdl_state" where
  "rollback_to_savepoint mx s c svp =
     release_locks_stored_before mx
       (release_locks_stored_before mx s c MDL_STATEMENT (m_stmt_ticket svp)) c MDL_TRANSACTION (m_trans_ticket svp)"

definition release_transactional_locks :: "nat \<Rightarrow> mdl_state \<Rightarrow> ctx_id \<Rightarrow> mdl_state" where
  "release_transactional_locks mx s c =
     release_locks_stored_before mx (release_locks_stored_before mx s c MDL_STATEMENT None) c MDL_TRANSACTION None"

definition release_statement_locks :: "nat \<Rightarrow> mdl_state \<Rightarrow> ctx_id \<Rightarrow> mdl_state" where
  "release_statement_locks mx s c = release_locks_stored_before mx s c MDL_STATEMENT None"

definition release_explicit_locks :: "nat \<Rightarrow> mdl_state \<Rightarrow> ctx_id \<Rightarrow> mdl_state" where
  "release_explicit_locks mx s c = release_locks_stored_before mx s c MDL_EXPLICIT None"

definition has_explicit_locks :: "mdl_state \<Rightarrow> ctx_id \<Rightarrow> bool" where
  "has_explicit_locks s c \<longleftrightarrow> m_tickets s c MDL_EXPLICIT \<noteq> []"

definition is_lock_owner :: "mdl_state \<Rightarrow> ctx_id \<Rightarrow> lock_id \<Rightarrow> enum_mdl_type \<Rightarrow> bool" where
  "is_lock_owner s c k ty \<longleftrightarrow>
     find_ticket s c \<lparr>rq_key = k, rq_type = ty, rq_duration = MDL_TRANSACTION\<rparr> \<noteq> None"

text \<open>Whether the ticket is found before the sentinel in a list of tickets.\<close>

fun stored_before :: "ticket_id list \<Rightarrow> ticket_id option \<Rightarrow> ticket_id \<Rightarrow> bool" where
  "stored_before [] sentinel t = False"
| "stored_before (x # xs) sentinel t =
     (if Some x = sentinel then False else if x = t then True else stored_before xs sentinel t)"

definition has_lock :: "mdl_state \<Rightarrow> ctx_id \<Rightarrow> MDL_savepoint \<Rightarrow> ticket_id \<Rightarrow> bool" where
  "has_lock s c svp t =
     (if stored_before (m_tickets s c MDL_STATEMENT) (m_stmt_ticket svp) t then False
      else if stored_before (m_tickets s c MDL_TRANSACTION) (m_trans_ticket svp) t then False
      else True)"

definition set_lock_duration :: "mdl_state \<Rightarrow> ctx_id \<Rightarrow> ticket_id \<Rightarrow> enum_mdl_duration \<Rightarrow> mdl_state" where
  "set_lock_duration s c t d = push_front (tickets_remove s c MDL_TRANSACTION t) c d t"

definition swap_tickets :: "mdl_state \<Rightarrow> ctx_id \<Rightarrow> enum_mdl_duration \<Rightarrow> enum_mdl_duration \<Rightarrow> mdl_state" where
  "swap_tickets s c a b =
     s\<lparr>m_tickets := (m_tickets s)(c := (m_tickets s c)(a := m_tickets s c b, b := m_tickets s c a))\<rparr>"

fun move_tickets_loop ::
    "ctx_id \<Rightarrow> enum_mdl_duration \<Rightarrow> enum_mdl_duration \<Rightarrow> ticket_id list \<Rightarrow> mdl_state \<Rightarrow> mdl_state" where
  "move_tickets_loop c src dst [] s = s"
| "move_tickets_loop c src dst (t # ts) s =
     move_tickets_loop c src dst ts (push_front (tickets_remove s c src t) c dst t)"

definition move_tickets :: "mdl_state \<Rightarrow> ctx_id \<Rightarrow> enum_mdl_duration \<Rightarrow> enum_mdl_duration \<Rightarrow> mdl_state" where
  "move_tickets s c src dst = move_tickets_loop c src dst (m_tickets s c src) s"

definition set_explicit_duration_for_all_locks :: "mdl_state \<Rightarrow> ctx_id \<Rightarrow> mdl_state" where
  "set_explicit_duration_for_all_locks s c =
     move_tickets (move_tickets (swap_tickets s c MDL_EXPLICIT MDL_TRANSACTION)
       c MDL_STATEMENT MDL_EXPLICIT) c MDL_TRANSACTION MDL_EXPLICIT"

definition set_transaction_duration_for_all_locks :: "mdl_state \<Rightarrow> ctx_id \<Rightarrow> mdl_state" where
  "set_transaction_duration_for_all_locks s c =
     move_tickets (swap_tickets s c MDL_TRANSACTION MDL_EXPLICIT) c MDL_EXPLICIT MDL_TRANSACTION"

end
