(* ===== verification/Mdl_System.thy ===== *)
theory Mdl_System
  imports Mdl_Context
begin

unbundle bit_operations_syntax

text \<open>
  The metadata locking subsystem as a whole: any number of contexts run the operations of
  \<open>MDL_context\<close> in any interleaving, each critical section one step.  The invariant says
  that the lock objects, the ticket lists of the contexts and the wait slots agree; it
  gives mutual exclusion, the absence of lost wake-ups for weak requests, and that the intrusive lists
  are used safely.
\<close>

section \<open>The invariant\<close>

definition granted_in :: "mdl_state \<Rightarrow> ticket_id \<Rightarrow> bool" where
  "granted_in s t = (case st_locks s (m_lock (st_tk s t)) of None \<Rightarrow> False | Some l \<Rightarrow> t \<in> granted_set l)"

definition waiting_in :: "mdl_state \<Rightarrow> ticket_id \<Rightarrow> bool" where
  "waiting_in s t = (case st_locks s (m_lock (st_tk s t)) of None \<Rightarrow> False | Some l \<Rightarrow> t \<in> waiting_set l)"

definition held :: "mdl_state \<Rightarrow> ctx_id \<Rightarrow> ticket_id set" where
  "held s c = (\<Union>d. set (m_tickets s c d))"

text \<open>The lock objects are well formed.\<close>

definition inv_locks :: "mdl_state \<Rightarrow> bool" where
  "inv_locks s \<longleftrightarrow> (\<forall>k l. st_locks s k = Some l \<longrightarrow> lk_key l = k \<and> lock_ok (st_tk s) l)"

text \<open>A ticket is granted exactly when its context has it in a list, or is about to find out that its
  wait is over; it waits exactly when its context does.\<close>

definition inv_tickets :: "mdl_state \<Rightarrow> bool" where
  "inv_tickets s \<longleftrightarrow> (\<forall>t. let c = m_ctx (st_tk s t) in
     (granted_in s t \<longleftrightarrow> t \<in> held s c \<or> m_waiting_for s c = Some t \<and> st_ws s c = GRANTED) \<and>
     (waiting_in s t \<longleftrightarrow> m_waiting_for s c = Some t \<and> st_ws s c \<noteq> GRANTED) \<and>
     (granted_in s t \<or> waiting_in s t \<longrightarrow> t < st_next s))"

text \<open>The lists of a context hold its own tickets, each once, and the frame of a blocked call agrees with
  the wait slot.\<close>

definition ctx_ok ::
    "tickets \<Rightarrow> ctx_id \<Rightarrow> (enum_mdl_duration \<Rightarrow> ticket_id list) \<Rightarrow> ticket_id option \<Rightarrow>
     wait_frame option \<Rightarrow> enum_wait_status \<Rightarrow> bool" where
  "ctx_ok tk c ts wt fr st \<longleftrightarrow>
     (\<forall>d. distinct (ts d)) \<and> (\<forall>d d'. d \<noteq> d' \<longrightarrow> set (ts d) \<inter> set (ts d') = {}) \<and>
     (\<forall>d. \<forall>t \<in> set (ts d). m_ctx (tk t) = c \<and> wt \<noteq> Some t) \<and>
     (\<forall>t. wt = Some t \<longrightarrow> m_ctx (tk t) = c) \<and>
     (case fr of None \<Rightarrow> wt = None
      | Some f \<Rightarrow> wt = Some (fr_ticket f) \<and> (fr_wait_status f = EMPTY \<or> fr_wait_status f = st))"

definition inv_ctx :: "mdl_state \<Rightarrow> bool" where
  "inv_ctx s \<longleftrightarrow> (\<forall>c. ctx_ok (st_tk s) c (m_tickets s c) (m_waiting_for s c) (st_frame s c) (st_ws s c))"

definition preallocated :: "lock_id \<Rightarrow> bool" where
  "preallocated k \<longleftrightarrow> k ! 0 = namespace_byte GLOBAL \<or> k ! 0 = namespace_byte COMMIT"

text \<open>Every weak request with an empty slot is really held up.\<close>

definition weak_stuck :: "tickets \<Rightarrow> waits \<Rightarrow> MDL_lock \<Rightarrow> bool" where
  "weak_stuck tk ws l \<longleftrightarrow> (\<forall>w \<in> waiting_set l.
     \<not> bm_has (hog_lock_types_bitmap (m_strategy l)) (m_type (tk w)) \<longrightarrow> ws (m_ctx (tk w)) = EMPTY \<longrightarrow>
     granted_blocks tk l (m_type (tk w)) (m_ctx (tk w)) \<or> waiting_blocks tk l (m_type (tk w)))"

text \<open>A lock object in the map is in use, and its weak waiters are stuck; this may fail inside a
  critical section, for the lock \<open>K\<close> that is being worked on.\<close>

definition inv_progress :: "lock_id set \<Rightarrow> mdl_state \<Rightarrow> bool" where
  "inv_progress K s \<longleftrightarrow> (\<forall>k l. st_locks s k = Some l \<longrightarrow> k \<notin> K \<longrightarrow>
     (preallocated k \<or> \<not> lock_is_empty l) \<and> weak_stuck (st_tk s) (st_ws s) l)"

definition mdl_inv_but :: "lock_id set \<Rightarrow> mdl_state \<Rightarrow> bool" where
  "mdl_inv_but K s \<longleftrightarrow> inv_locks s \<and> inv_tickets s \<and> inv_ctx s \<and> inv_progress K s"

abbreviation mdl_inv :: "mdl_state \<Rightarrow> bool" where
  "mdl_inv \<equiv> mdl_inv_but {}"

section \<open>Closing a critical section\<close>

lemma inv_locksD:
  "inv_locks s \<Longrightarrow> st_locks s k = Some l \<Longrightarrow> lk_key l = k \<and> lock_ok (st_tk s) l"
  by (simp add: inv_locks_def)

lemma granted_inI: "inv_locks s \<Longrightarrow> st_locks s k = Some l \<Longrightarrow> t \<in> granted_set l \<Longrightarrow> granted_in s t"
  using inv_locksD lock_okD(4) by (fastforce simp: granted_in_def)

lemma waiting_inI: "inv_locks s \<Longrightarrow> st_locks s k = Some l \<Longrightarrow> t \<in> waiting_set l \<Longrightarrow> waiting_in s t"
  using inv_locksD lock_okD(5) by (fastforce simp: waiting_in_def)

lemma inv_tickets_granted:
  "inv_tickets s \<Longrightarrow> granted_in s t \<longleftrightarrow>
     t \<in> held s (m_ctx (st_tk s t)) \<or>
     m_waiting_for s (m_ctx (st_tk s t)) = Some t \<and> st_ws s (m_ctx (st_tk s t)) = GRANTED"
  by (simp add: inv_tickets_def Let_def)

lemma inv_tickets_waiting:
  "inv_tickets s \<Longrightarrow> waiting_in s t \<longleftrightarrow>
     m_waiting_for s (m_ctx (st_tk s t)) = Some t \<and> st_ws s (m_ctx (st_tk s t)) \<noteq> GRANTED"
  by (simp add: inv_tickets_def Let_def)

lemma inv_tickets_next:
  "inv_tickets s \<Longrightarrow> granted_in s t \<or> waiting_in s t \<Longrightarrow> t < st_next s"
  by (auto simp add: inv_tickets_def Let_def)

lemma stuck_weak:
  assumes "lock_ok tk l" "\<And>w. w \<in> waiting_set l \<Longrightarrow> stuck tk skip ws l w"
  shows "weak_stuck tk ws l"
  using assms by (auto simp: weak_stuck_def stuck_def can_grant_lock_iff)

lemma weak_stuck_ws:
  assumes "weak_stuck tk ws l" "\<And>c. ws' c = EMPTY \<Longrightarrow> ws c = EMPTY"
  shows "weak_stuck tk ws' l"
  using assms by (auto simp: weak_stuck_def)

text \<open>Waiters that rescheduling moves: their contexts learn of it.\<close>

lemma moves_inv_tickets:
  assumes inv: "mdl_inv_but K s" and l: "st_locks s k = Some l"
    and m: "moves_waiters (st_tk s) moved (st_ws s) l ws' l2" and sub: "subseq moved (tl_list (m_waiting l))"
    and s': "s' = s\<lparr>st_locks := (st_locks s)(k \<mapsto> l2), st_ws := ws'\<rparr>"
  shows "inv_tickets s'"
proof -
  note d = inv [unfolded mdl_inv_but_def]
  note m' = m [unfolded moves_waiters_def]
  have w: "waiting_in s t" if "t \<in> set moved" for t
    using that subseq_setD [OF sub] waiting_inI [OF _ l] d by blast
  have mk: "m_lock (st_tk s t) = k" if "t \<in> set moved" for t
    using that subseq_setD [OF sub] inv_locksD [OF _ l] lock_okD(5) [of "st_tk s" l t] d by auto
  have g: "granted_in s' t \<longleftrightarrow> granted_in s t \<or> t \<in> set moved" for t
    using m' l mk [of t] by (auto simp: granted_in_def s' split: option.splits)
  have v: "waiting_in s' t \<longleftrightarrow> waiting_in s t \<and> t \<notin> set moved" for t
    using m' l mk [of t] by (auto simp: waiting_in_def s' split: option.splits)
  have pend: "m_waiting_for s (m_ctx (st_tk s t)) = Some t" if "t \<in> set moved" for t
    using w [OF that] inv_tickets_waiting d by blast
  have "let c = m_ctx (st_tk s' t) in
     (granted_in s' t \<longleftrightarrow> t \<in> held s' c \<or> m_waiting_for s' c = Some t \<and> st_ws s' c = GRANTED) \<and>
     (waiting_in s' t \<longleftrightarrow> m_waiting_for s' c = Some t \<and> st_ws s' c \<noteq> GRANTED) \<and>
     (granted_in s' t \<or> waiting_in s' t \<longrightarrow> t < st_next s')" for t
  proof -
    let ?c = "m_ctx (st_tk s t)"
    have ws: "st_ws s' ?c = (if ?c \<in> (\<lambda>t. m_ctx (st_tk s t)) ` set moved then GRANTED else st_ws s ?c)"
      using m' by (simp add: s')
    have in_moved: "t \<in> set moved" if "m_waiting_for s ?c = Some t" "?c \<in> (\<lambda>t. m_ctx (st_tk s t)) ` set moved"
      using that pend by auto
    have same: "st_tk s' = st_tk s" "m_waiting_for s' = m_waiting_for s" "held s' = held s" "st_next s' = st_next s"
      by (simp_all add: s' held_def fun_eq_iff)
    show ?thesis
      unfolding Let_def g v same ws
      using inv_tickets_granted [of s t] inv_tickets_waiting [of s t] inv_tickets_next [of s t] d
        in_moved pend [of t] w [of t] by auto
  qed
  then show ?thesis unfolding inv_tickets_def by blast
qed

lemma moves_ws:
  assumes "moves_waiters tk moved ws l ws' l2"
  shows "ws' c = ws c \<or> ws c = EMPTY \<and> ws' c = GRANTED"
  using assms unfolding moves_waiters_def by auto

lemma ctx_ok_ws: "ctx_ok tk c ts wt fr st \<Longrightarrow> st' = st \<or> st = EMPTY \<Longrightarrow> ctx_ok tk c ts wt fr st'"
  by (auto simp: ctx_ok_def split: option.splits)

lemma inv_ctx_ws:
  assumes "inv_ctx s" "\<And>c. ws' c = st_ws s c \<or> st_ws s c = EMPTY"
  shows "inv_ctx (s\<lparr>st_locks := m, st_ws := ws'\<rparr>)"
  using assms ctx_ok_ws by (simp add: inv_ctx_def) metis

lemma lock_finish_reschedule:
  assumes inv: "mdl_inv_but {k} s" and l: "st_locks s k = Some l" "\<not> lock_is_empty l"
  shows "mdl_inv (lock_finish mx s k)"
proof -
  note d = inv [unfolded mdl_inv_but_def]
  obtain ws' l2 where r: "reschedule_waiters mx (st_tk s) (st_ws s) l = (ws', l2)" by fastforce
  have lk: "lk_key l = k" "lock_ok (st_tk s) l" using inv_locksD [OF _ l(1)] d by auto
  obtain moved where m: "subseq moved (tl_list (m_waiting l))"
      "moves_waiters (st_tk s) moved (st_ws s) l ws' l2" "lock_ok (st_tk s) l2"
    using reschedule_waiters_moves [OF lk(2), of "st_ws s" mx] r by auto
  have k2: "lk_key l2 = k" using m(2) lk(1) by (simp add: moves_waiters_def)
  have e: "lock_finish mx s k = s\<lparr>st_locks := (st_locks s)(k \<mapsto> l2), st_ws := ws'\<rparr>" (is "_ = ?s'")
    by (simp add: lock_finish_def l r k2)
  have ne: "\<not> lock_is_empty l2"
    using l(2) m(1,2) unfolding lock_is_empty_def moves_waiters_def by (cases moved) auto
  have st: "weak_stuck (st_tk s) ws' l2"
    using stuck_weak [OF m(3)] reschedule_waiters_stuck [OF lk(2), of _ mx "st_ws s"] r by auto
  have keep: "weak_stuck (st_tk s) ws' l'" if "weak_stuck (st_tk s) (st_ws s) l'" for l'
    by (rule weak_stuck_ws [OF that]) (use moves_ws [OF m(2)] in force)
  have "inv_locks ?s'" using d m(3) k2 by (auto simp: inv_locks_def)
  moreover have "inv_tickets ?s'" by (rule moves_inv_tickets [OF inv l(1) m(2,1) refl])
  moreover have "inv_ctx ?s'" by (rule inv_ctx_ws) (use d moves_ws [OF m(2)] in auto)
  moreover have "inv_progress {} ?s'"
    unfolding inv_progress_def
  proof (intro allI impI)
    fix k' l' assume "st_locks ?s' k' = Some l'"
    then show "(preallocated k' \<or> \<not> lock_is_empty l') \<and> weak_stuck (st_tk ?s') (st_ws ?s') l'"
      using d ne st keep by (cases "k' = k") (auto simp: inv_progress_def)
  qed
  ultimately show ?thesis unfolding e mdl_inv_but_def by blast
qed

lemma lock_finish_empty:
  assumes inv: "mdl_inv_but {k} s" and l: "st_locks s k = Some l" "lock_is_empty l"
  shows "mdl_inv (lock_finish mx s k)"
proof -
  note d = inv [unfolded mdl_inv_but_def]
  have lk: "lk_key l = k" using inv_locksD [OF _ l(1)] d by auto
  have e: "lock_finish mx s k = s\<lparr>st_locks := map_remove (st_locks s) l\<rparr>" (is "_ = ?s'")
    by (simp add: lock_finish_def l)
  have sub: "st_locks s k' = Some l'" if "map_remove (st_locks s) l k' = Some l'" for k' l'
    using that lk l(1) by (auto simp: map_remove_def split: if_splits)
  have stu: "weak_stuck tk ws l" for tk ws using l(2) by (simp add: weak_stuck_def lock_is_empty_def)
  have atk: "map_remove (st_locks s) l k = (if preallocated k then Some l else None)"
    by (simp add: map_remove_def lk preallocated_def)
  then have at: "map_remove (st_locks s) l k' = st_locks s k' \<or>
      (\<not> preallocated k \<and> k' = k \<and> map_remove (st_locks s) l k' = None)" for k'
    using l(1) lk by (cases "k' = k") (auto simp: map_remove_def)
  have g: "granted_in ?s' t = granted_in s t" "waiting_in ?s' t = waiting_in s t" for t
    using at [of "m_lock (st_tk s t)"] l by (auto simp: granted_in_def waiting_in_def lock_is_empty_def split: option.splits)
  have "inv_locks ?s'" using d sub by (auto simp: inv_locks_def)
  moreover have "inv_tickets ?s'"
    using d unfolding inv_tickets_def g by (simp add: held_def)
  moreover have "inv_ctx ?s'" using inv_ctx_ws [of s "st_ws s" "map_remove (st_locks s) l"] d by simp
  moreover have "inv_progress {} ?s'"
    unfolding inv_progress_def
  proof (intro allI impI)
    fix k' l' assume "st_locks ?s' k' = Some l'"
    then show "(preallocated k' \<or> \<not> lock_is_empty l') \<and> weak_stuck (st_tk ?s') (st_ws ?s') l'"
      using d sub [of k' l'] stu at [of k'] l(1) atk by (cases "k' = k") (auto simp: inv_progress_def)
  qed
  ultimately show ?thesis unfolding e mdl_inv_but_def by blast
qed

lemma lock_finish_inv:
  assumes "mdl_inv_but {k} s" "st_locks s k = Some l"
  shows "mdl_inv (lock_finish mx s k)"
  using assms lock_finish_reschedule lock_finish_empty by blast

section \<open>Releasing, and giving up a wait\<close>

lemma lock_ok_remove_granted:
  assumes ok: "lock_ok tk l" and t: "t \<in> granted_set l"
  shows "lock_ok tk (l\<lparr>m_granted := tl_remove_ticket tk (m_granted l) t\<rparr>)"
  by (rule lock_okI)
    (use lock_okD [OF ok] tl_ok_remove [OF lock_okD(1) [OF ok] t] in
      \<open>auto simp: granted_set_remove [OF ok]\<close>)

lemma lock_ok_remove_waiting:
  assumes ok: "lock_ok tk l" and t: "t \<in> waiting_set l"
  shows "lock_ok tk (l\<lparr>m_waiting := tl_remove_ticket tk (m_waiting l) t\<rparr>)"
  by (rule lock_okI)
    (use lock_okD [OF ok] tl_ok_remove [OF lock_okD(2) [OF ok] t] in
      \<open>auto simp: waiting_set_remove [OF ok] intro: inj_on_subset\<close>)

lemma lock_finish_tickets:
  "lock_finish mx (s\<lparr>m_tickets := f\<rparr>) k = (lock_finish mx s k)\<lparr>m_tickets := f\<rparr>"
  by (simp add: lock_finish_def split: option.splits prod.splits)

lemma lock_finish_sel [simp]:
  "m_tickets (lock_finish mx s k) = m_tickets s"
  "st_tk (lock_finish mx s k) = st_tk s"
  "st_frame (lock_finish mx s k) = st_frame s"
  "m_waiting_for (lock_finish mx s k) = m_waiting_for s"
  "st_next (lock_finish mx s k) = st_next s"
  by (simp_all add: lock_finish_def split: option.splits prod.splits)

lemma inv_obtain_lock:
  assumes "mdl_inv_but K s" "granted_in s t \<or> waiting_in s t"
  obtains l where "st_locks s (m_lock (st_tk s t)) = Some l" "lk_key l = m_lock (st_tk s t)" "lock_ok (st_tk s) l"
    "granted_in s t \<longleftrightarrow> t \<in> granted_set l" "waiting_in s t \<longleftrightarrow> t \<in> waiting_set l"
  using assms inv_locksD [of s "m_lock (st_tk s t)"]
  by (fastforce simp: mdl_inv_but_def granted_in_def waiting_in_def split: option.splits)

lemma held_granted: "mdl_inv_but K s \<Longrightarrow> t \<in> held s c \<Longrightarrow> granted_in s t \<and> m_ctx (st_tk s t) = c"
  by (auto simp: mdl_inv_but_def inv_tickets_def inv_ctx_def ctx_ok_def held_def Let_def)

lemma in_held: "t \<in> set (m_tickets s c d) \<Longrightarrow> t \<in> held s c"
  by (auto simp: held_def)

lemma inv_ctxD:
  assumes "inv_ctx s"
  shows "distinct (m_tickets s c d)" "d' \<noteq> d \<Longrightarrow> set (m_tickets s c d) \<inter> set (m_tickets s c d') = {}"
    and "t \<in> held s c \<Longrightarrow> m_ctx (st_tk s t) = c" "t \<in> held s c \<Longrightarrow> m_waiting_for s c \<noteq> Some t"
    and "m_waiting_for s c = Some t \<Longrightarrow> m_ctx (st_tk s t) = c"
    and "st_frame s c = None \<Longrightarrow> m_waiting_for s c = None"
    and "st_frame s c = Some f \<Longrightarrow> m_waiting_for s c = Some (fr_ticket f)"
    and "st_frame s c = Some f \<Longrightarrow> fr_wait_status f = EMPTY \<or> fr_wait_status f = st_ws s c"
  using spec [OF assms [unfolded inv_ctx_def], of c] by (auto simp: ctx_ok_def held_def)

lemma ctx_ok_remove:
  "ctx_ok tk c ts wt fr st \<Longrightarrow> ctx_ok tk c (ts(d := remove1 t (ts d))) wt fr st"
  unfolding ctx_ok_def by (auto dest: notin_set_remove1 simp: disjoint_iff)

lemma inv_progress_put:
  assumes "inv_progress K s" "lk_key l' = k"
  shows "inv_progress (insert k K) (put_lock s l')"
  using assms by (auto simp: inv_progress_def put_lock_def)

lemma held_tickets_remove:
  assumes "inv_ctx s" "t \<in> set (m_tickets s c d)"
  shows "held (tickets_remove s c d t) c' = held s c' - (if c' = c then {t} else {})"
proof -
  have "set (remove1 t (m_tickets s c d)) = set (m_tickets s c d) - {t}"
    using inv_ctxD(1) [OF assms(1)] by simp
  moreover have "t \<notin> set (m_tickets s c d')" if "d' \<noteq> d" for d'
    using inv_ctxD(2) [OF assms(1) that] assms(2) by blast
  ultimately show ?thesis
    by (auto simp: held_def tickets_remove_def split: if_splits)
qed

text \<open>Taking a granted ticket off the lock and off its context's list.\<close>

lemma release_open:
  assumes inv: "mdl_inv_but K s" and t: "t \<in> set (m_tickets s c d)" and l: "st_locks s (m_lock (st_tk s t)) = Some l"
    and s1: "s1 = tickets_remove (put_lock s (l\<lparr>m_granted := tl_remove_ticket (st_tk s) (m_granted l) t\<rparr>)) c d t"
  shows "mdl_inv_but (insert (lk_key l) K) s1"
proof -
  note d = inv [unfolded mdl_inv_but_def]
  let ?l1 = "l\<lparr>m_granted := tl_remove_ticket (st_tk s) (m_granted l) t\<rparr>"
  have h: "granted_in s t" "m_ctx (st_tk s t) = c" using held_granted [OF inv in_held [OF t]] by auto
  have lk: "lk_key l = m_lock (st_tk s t)" "lock_ok (st_tk s) l" "t \<in> granted_set l"
    using inv_locksD [OF _ l] d h(1) l by (auto simp: granted_in_def)
  have same: "st_tk s1 = st_tk s" "m_waiting_for s1 = m_waiting_for s" "st_ws s1 = st_ws s"
      "st_next s1 = st_next s" "st_frame s1 = st_frame s" "st_locks s1 = (st_locks s)(lk_key l \<mapsto> ?l1)"
    by (simp_all add: s1 tickets_remove_def put_lock_def)
  have hd: "held s1 c' = held s c' - (if c' = c then {t} else {})" for c'
    using held_tickets_remove [of s t c d c'] t d by (simp add: held_def s1 tickets_remove_def put_lock_def)
  have g: "granted_in s1 x \<longleftrightarrow> granted_in s x \<and> x \<noteq> t" "waiting_in s1 x = waiting_in s x" for x
    using l lk by (auto simp: granted_in_def waiting_in_def same granted_set_remove [OF lk(2)] split: option.splits)
  have pend: "m_waiting_for s c \<noteq> Some t" using inv_ctxD(4) [OF _ in_held [OF t]] d by blast
  have "inv_locks s1"
    using d lk(1) lock_ok_remove_granted [OF lk(2,3)] by (auto simp: inv_locks_def same)
  moreover have "inv_tickets s1"
    using d h pend unfolding inv_tickets_def g same hd Let_def by auto
  moreover have "inv_ctx s1"
    using d ctx_ok_remove by (simp add: inv_ctx_def s1 tickets_remove_def put_lock_def)
  moreover have "inv_progress (insert (lk_key l) K) s1"
    using d by (auto simp: inv_progress_def same)
  ultimately show ?thesis by (simp add: mdl_inv_but_def)
qed

lemma release_lock_inv:
  assumes inv: "mdl_inv s" and t: "t \<in> set (m_tickets s c d)"
  shows "mdl_inv (release_lock mx s c d t)"
proof -
  obtain l where l: "st_locks s (m_lock (st_tk s t)) = Some l" "lk_key l = m_lock (st_tk s t)"
    using inv_obtain_lock [OF inv] held_granted [OF inv in_held [OF t]] by metis
  let ?l1 = "l\<lparr>m_granted := tl_remove_ticket (st_tk s) (m_granted l) t\<rparr>"
  have "release_lock mx s c d t = lock_finish mx (tickets_remove (put_lock s ?l1) c d t) (lk_key l)"
    by (simp add: release_lock_def lock_remove_ticket_def l(1) tickets_remove_def lock_finish_tickets)
  then show ?thesis
    using lock_finish_inv [OF release_open [OF inv t l(1) refl], of ?l1 mx]
    by (simp add: tickets_remove_def put_lock_def)
qed

lemma held_push_front: "held (push_front s c d t) c' = held s c' \<union> (if c' = c then {t} else {})"
  by (auto simp: held_def push_front_def split: if_splits)

lemma ctx_ok_push:
  assumes "ctx_ok tk c ts wt fr st" "\<And>d. t \<notin> set (ts d)" "m_ctx (tk t) = c" "wt \<noteq> Some t"
  shows "ctx_ok tk c (ts(d := t # ts d)) wt fr st"
  using assms unfolding ctx_ok_def by (auto simp: disjoint_iff split: if_splits)

lemma ctx_ok_unblock: "ctx_ok tk c ts wt fr st \<Longrightarrow> ctx_ok tk c ts None None st'"
  by (simp add: ctx_ok_def)

lemma inv_ctx_unblock: "inv_ctx s \<Longrightarrow> ctx_ok (st_tk s) c (m_tickets s c) None None st"
  unfolding inv_ctx_def using ctx_ok_unblock by blast

lemma acquire_lock_give_up:
  assumes inv: "mdl_inv s" and f: "st_frame s c = Some f"
    and st: "fr_wait_status f \<noteq> EMPTY" "fr_wait_status f \<noteq> GRANTED"
  shows "\<exists>s'. acquire_lock_end mx s c f = Some s' \<and> mdl_inv s'"
proof -
  note d = inv [unfolded mdl_inv_but_def]
  define t where "t = fr_ticket f"
  have p: "m_waiting_for s c = Some t" "m_ctx (st_tk s t) = c" "st_ws s c \<noteq> GRANTED" "t \<notin> held s c"
    using inv_ctxD [of s] d f st unfolding t_def by metis+
  then have w: "waiting_in s t" using inv_tickets_waiting d by simp
  then obtain l where l: "st_locks s (m_lock (st_tk s t)) = Some l" "lk_key l = m_lock (st_tk s t)"
      "lock_ok (st_tk s) l" "t \<in> waiting_set l"
    using inv_obtain_lock [OF inv] by metis
  let ?l1 = "l\<lparr>m_waiting := tl_remove_ticket (st_tk s) (m_waiting l) t\<rparr>"
  define s1 where "s1 = put_lock (s\<lparr>m_waiting_for := (m_waiting_for s)(c := None), st_frame := (st_frame s)(c := None)\<rparr>) ?l1"
  have e: "acquire_lock_end mx s c f = Some (lock_finish mx s1 (lk_key l))"
    using st l by (simp add: acquire_lock_end_def lock_remove_ticket_def s1_def t_def Let_def)
  have same: "st_tk s1 = st_tk s" "m_tickets s1 = m_tickets s" "st_ws s1 = st_ws s" "st_next s1 = st_next s"
      "m_waiting_for s1 = (m_waiting_for s)(c := None)" "st_frame s1 = (st_frame s)(c := None)"
      "st_locks s1 = (st_locks s)(lk_key l \<mapsto> ?l1)" "held s1 = held s"
    by (simp_all add: s1_def put_lock_def held_def fun_eq_iff)
  have g: "granted_in s1 x = granted_in s x" "waiting_in s1 x \<longleftrightarrow> waiting_in s x \<and> x \<noteq> t" for x
    using l by (auto simp: granted_in_def waiting_in_def same waiting_set_remove [OF l(3)] split: option.splits)
  have "inv_locks s1"
    using d l(2) lock_ok_remove_waiting [OF l(3,4)] by (auto simp: inv_locks_def same)
  moreover have "inv_tickets s1"
    using d p unfolding inv_tickets_def g same Let_def by auto
  moreover have "inv_ctx s1"
    using d inv_ctx_unblock [of s c "st_ws s c"] by (simp add: inv_ctx_def same)
  moreover have "inv_progress {lk_key l} s1" using d by (auto simp: inv_progress_def same)
  ultimately show ?thesis
    unfolding e using lock_finish_inv [of "lk_key l" s1 ?l1 mx] by (simp add: mdl_inv_but_def same)
qed

lemma acquire_lock_granted:
  assumes inv: "mdl_inv s" and f: "st_frame s c = Some f" and st: "fr_wait_status f = GRANTED"
  shows "mdl_inv (push_front (s\<lparr>m_waiting_for := (m_waiting_for s)(c := None), st_frame := (st_frame s)(c := None)\<rparr>)
    c d (fr_ticket f))" (is "mdl_inv ?s1")
proof -
  note d = inv [unfolded mdl_inv_but_def]
  define t where "t = fr_ticket f"
  have p: "m_waiting_for s c = Some t" "m_ctx (st_tk s t) = c" "st_ws s c = GRANTED" "t \<notin> held s c"
    using inv_ctxD [of s] d f st unfolding t_def by (metis enum_wait_status.distinct(1))+
  have same: "st_tk ?s1 = st_tk s" "st_locks ?s1 = st_locks s" "st_ws ?s1 = st_ws s" "st_next ?s1 = st_next s"
      "m_waiting_for ?s1 = (m_waiting_for s)(c := None)" "st_frame ?s1 = (st_frame s)(c := None)"
    by (simp_all add: push_front_def)
  have hd: "held ?s1 c' = held s c' \<union> (if c' = c then {t} else {})" for c'
    unfolding held_push_front t_def by (simp add: held_def)
  have g: "granted_in ?s1 x = granted_in s x" "waiting_in ?s1 x = waiting_in s x" for x
    by (simp_all add: granted_in_def waiting_in_def same)
  have "inv_locks ?s1" using d by (simp add: inv_locks_def same)
  moreover have "inv_tickets ?s1"
    using d p unfolding inv_tickets_def g same hd Let_def by auto
  moreover have "inv_ctx ?s1"
    using d p ctx_ok_push [OF inv_ctx_unblock [of s c "st_ws s c"], of t d]
    by (simp add: inv_ctx_def push_front_def t_def held_def)
  moreover have "inv_progress {} ?s1" using d by (simp add: inv_progress_def same)
  ultimately show ?thesis by (simp add: mdl_inv_but_def)
qed

lemma acquire_lock_end_inv:
  assumes "mdl_inv s" "st_frame s c = Some f" "fr_wait_status f \<noteq> EMPTY"
  shows "\<exists>s'. acquire_lock_end mx s c f = Some s' \<and> mdl_inv s'"
proof (cases "fr_wait_status f = GRANTED")
  case True
  then show ?thesis
    using acquire_lock_granted [OF assms(1,2) True] by (simp add: acquire_lock_end_def Let_def)
next
  case False
  then show ?thesis by (rule acquire_lock_give_up [OF assms])
qed

section \<open>New tickets\<close>

lemma lock_ok_cong:
  assumes "lock_ok tk l" "\<And>t. t \<in> granted_set l \<union> waiting_set l \<Longrightarrow> tk' t = tk t"
  shows "lock_ok tk' l"
proof (rule lock_okI)
  note d = lock_okD [OF assms(1)]
  show "tl_ok tk' (m_granted l)" "tl_ok tk' (m_waiting l)"
    using d(1,2) tl_ok_cong [of "m_granted l" tk' tk] tl_ok_cong [of "m_waiting l" tk' tk] assms(2) by auto
  show "compatible_tickets tk' a b" if "a \<in> granted_set l" "b \<in> granted_set l" for a b
    using d(6) [OF that] assms(2) that by (simp add: compatible_tickets_def)
qed (use assms lock_okD [OF assms(1)] in \<open>auto simp: inj_on_def\<close>)

lemma weak_stuck_cong:
  assumes "weak_stuck tk ws l" "\<And>t. t \<in> granted_set l \<union> waiting_set l \<Longrightarrow> tk' t = tk t"
  shows "weak_stuck tk' ws l"
  using assms by (simp add: weak_stuck_def granted_blocks_def waiting_blocks_def)

lemma ctx_ok_cong:
  assumes "ctx_ok tk c ts wt fr st" "\<And>d t. t \<in> set (ts d) \<Longrightarrow> m_ctx (tk' t) = m_ctx (tk t)"
    and "\<And>t. wt = Some t \<Longrightarrow> m_ctx (tk' t) = m_ctx (tk t)"
  shows "ctx_ok tk' c ts wt fr st"
  using assms unfolding ctx_ok_def by simp

definition unused :: "mdl_state \<Rightarrow> ticket_id \<Rightarrow> bool" where
  "unused s t \<longleftrightarrow> (\<forall>c. t \<notin> held s c \<and> m_waiting_for s c \<noteq> Some t)"

lemma unused_lists: "mdl_inv_but K s \<Longrightarrow> unused s t \<Longrightarrow> \<not> granted_in s t \<and> \<not> waiting_in s t"
  by (auto simp: mdl_inv_but_def inv_tickets_def Let_def unused_def)

lemma used_less:
  assumes "mdl_inv_but K s"
  shows "t \<in> held s c \<Longrightarrow> t < st_next s" "m_waiting_for s c = Some t \<Longrightarrow> t < st_next s"
    and "st_locks s k = Some l \<Longrightarrow> t \<in> granted_set l \<union> waiting_set l \<Longrightarrow> t < st_next s"
proof -
  note d = assms [unfolded mdl_inv_but_def]
  show "t < st_next s" if "t \<in> held s c"
    using held_granted [OF assms that] inv_tickets_next d by blast
  show "t < st_next s" if "m_waiting_for s c = Some t"
    using that inv_ctxD(5) [of s c t] inv_tickets_granted [of s t] inv_tickets_waiting [of s t]
      inv_tickets_next [of s t] d by blast
  show "t < st_next s" if "st_locks s k = Some l" "t \<in> granted_set l \<union> waiting_set l"
    using that granted_inI waiting_inI inv_tickets_next d by blast
qed

lemma ticket_create_inv:
  assumes inv: "mdl_inv_but K s"
  shows "mdl_inv_but K (ticket_create s c ty k)" (is "mdl_inv_but K ?s1")
    and "unused (ticket_create s c ty k) (st_next s)"
proof -
  note d = inv [unfolded mdl_inv_but_def]
  have hd: "held ?s1 = held s" by (simp add: held_def fun_eq_iff ticket_create_def)
  have same: "st_locks ?s1 = st_locks s" "m_waiting_for ?s1 = m_waiting_for s" "st_ws ?s1 = st_ws s"
      "m_tickets ?s1 = m_tickets s" "st_frame ?s1 = st_frame s" "st_next ?s1 = Suc (st_next s)"
    by (simp_all add: ticket_create_def)
  have tk: "st_tk ?s1 x = st_tk s x" if "x < st_next s" for x
    using that by (simp add: ticket_create_def)
  have lists: "st_tk ?s1 x = st_tk s x" if "st_locks s k' = Some l" "x \<in> granted_set l \<union> waiting_set l" for k' l x
    using used_less(3) [OF inv that] tk by blast
  show un: "unused ?s1 (st_next s)"
    unfolding unused_def same hd using used_less(1,2) [OF inv] by blast
  have n: "\<not> granted_in ?s1 (st_next s) \<and> \<not> waiting_in ?s1 (st_next s)"
    using used_less(3) [OF inv] by (auto simp: granted_in_def waiting_in_def same split: option.splits)
  have g: "granted_in ?s1 x \<longleftrightarrow> granted_in s x \<and> x < st_next s"
      "waiting_in ?s1 x \<longleftrightarrow> waiting_in s x \<and> x < st_next s" for x
    using n inv_tickets_next [of s x] d
    by (cases "x = st_next s"; force simp: granted_in_def waiting_in_def ticket_create_def)+
  have "inv_locks ?s1"
    using d lock_ok_cong [OF _ lists] by (simp add: inv_locks_def same)
  moreover have "inv_tickets ?s1"
    unfolding inv_tickets_def
  proof
    fix x
    show "let c = m_ctx (st_tk ?s1 x) in
     (granted_in ?s1 x \<longleftrightarrow> x \<in> held ?s1 c \<or> m_waiting_for ?s1 c = Some x \<and> st_ws ?s1 c = GRANTED) \<and>
     (waiting_in ?s1 x \<longleftrightarrow> m_waiting_for ?s1 c = Some x \<and> st_ws ?s1 c \<noteq> GRANTED) \<and>
     (granted_in ?s1 x \<or> waiting_in ?s1 x \<longrightarrow> x < st_next ?s1)"
    proof (cases "x < st_next s")
      case True
      then show ?thesis
        using d unfolding Let_def g same hd tk [OF True] inv_tickets_def by auto
    next
      case False
      then show ?thesis
        unfolding Let_def g same hd using used_less(1,2) [OF inv] by blast
    qed
  qed
  moreover have "inv_ctx ?s1"
    unfolding inv_ctx_def same
  proof (rule allI, rule ctx_ok_cong)
    show "ctx_ok (st_tk s) c' (m_tickets s c') (m_waiting_for s c') (st_frame s c') (st_ws s c')" for c'
      using d by (simp add: inv_ctx_def)
  qed (simp_all add: tk [OF used_less(1) [OF inv in_held]] tk [OF used_less(2) [OF inv]])
  moreover have "inv_progress K ?s1"
    using d weak_stuck_cong [OF _ lists] by (simp add: inv_progress_def same)
  ultimately show "mdl_inv_but K ?s1" by (simp add: mdl_inv_but_def)
qed

lemma lock_ok_add_granted:
  assumes ok: "lock_ok tk l" and t: "t \<notin> granted_set l" "t \<notin> waiting_set l" "m_lock (tk t) = lk_key l"
    and free: "\<not> granted_blocks tk l (m_type (tk t)) (m_ctx (tk t))"
  shows "lock_ok tk (l\<lparr>m_granted := add_ticket tk (m_granted l) t\<rparr>)"
proof (rule lock_okI)
  note d = lock_okD [OF ok]
  let ?l = "l\<lparr>m_granted := add_ticket tk (m_granted l) t\<rparr>"
  show "tl_ok tk (m_granted ?l)" using tl_ok_add [OF d(1) t(1)] by simp
  have self: "compatible_tickets tk t t" by (simp add: compatible_tickets_def)
  show "compatible_tickets tk a b" if "a \<in> granted_set ?l" "b \<in> granted_set ?l" for a b
    using that d(6) self not_granted_blocks_compatible [OF ok free t(3)] by auto
qed (use lock_okD [OF ok] t in auto)

lemma lock_ok_add_waiting:
  assumes ok: "lock_ok tk l" and t: "t \<notin> granted_set l" "t \<notin> waiting_set l" "m_lock (tk t) = lk_key l"
    and one: "\<And>w. w \<in> waiting_set l \<Longrightarrow> m_ctx (tk w) \<noteq> m_ctx (tk t)"
  shows "lock_ok tk (l\<lparr>m_waiting := add_ticket tk (m_waiting l) t\<rparr>)"
proof (rule lock_okI)
  have "m_ctx (tk t) \<notin> (\<lambda>t. m_ctx (tk t)) ` (waiting_set l - {t})" using one by force
  then show "inj_on (\<lambda>t. m_ctx (tk t)) (waiting_set (l\<lparr>m_waiting := add_ticket tk (m_waiting l) t\<rparr>))"
    using lock_okD(7) [OF ok] by simp
qed (use lock_okD [OF ok] tl_ok_add [OF lock_okD(2) [OF ok] t(2)] t in auto)

lemma weak_stuck_add_granted:
  "weak_stuck tk ws l \<Longrightarrow> weak_stuck tk ws (l\<lparr>m_granted := add_ticket tk (m_granted l) t\<rparr>)"
  by (auto simp: weak_stuck_def granted_blocks_def waiting_blocks_def)

lemma unused_not_in_lock:
  "mdl_inv_but K s \<Longrightarrow> unused s t \<Longrightarrow> st_locks s k = Some l \<Longrightarrow> t \<notin> granted_set l \<and> t \<notin> waiting_set l"
  using unused_lists granted_inI waiting_inI unfolding mdl_inv_but_def by blast

text \<open>A lock object as \<open>find_or_insert\<close> returns it.\<close>

definition lock_at :: "mdl_state \<Rightarrow> lock_id \<Rightarrow> MDL_lock \<Rightarrow> bool" where
  "lock_at s k l \<longleftrightarrow> st_locks s k = Some l \<or> st_locks s k = None \<and> l = new_lock k"

lemma lock_atD:
  assumes "mdl_inv_but K s" "lock_at s k l" "unused s t"
  shows "lk_key l = k" "lock_ok (st_tk s) l" "t \<notin> granted_set l" "t \<notin> waiting_set l"
    and "x \<in> granted_set l \<or> x \<in> waiting_set l \<Longrightarrow> st_locks s k = Some l"
    and "k \<notin> K \<Longrightarrow> weak_stuck (st_tk s) (st_ws s) l"
  using assms inv_locksD [of s k l] unused_not_in_lock [OF assms(1,3), of k l]
  by (auto simp: lock_at_def mdl_inv_but_def new_lock_def empty_ticket_list_def inv_progress_def weak_stuck_def
      intro: lock_ok_new [of "st_tk s" k, unfolded new_lock_def empty_ticket_list_def])

lemma grant_new_inv:
  assumes inv: "mdl_inv s" and l: "lock_at s k l" and t: "unused s t" "t < st_next s"
    "m_lock (st_tk s t) = k" "m_ctx (st_tk s t) = c"
    and free: "\<not> granted_blocks (st_tk s) l (m_type (st_tk s t)) c"
  shows "mdl_inv (push_front (grant_new s l t) c d t)" (is "mdl_inv ?s1")
proof -
  note d = inv [unfolded mdl_inv_but_def]
  note la = lock_atD [OF inv l t(1)]
  let ?l1 = "l\<lparr>m_granted := add_ticket (st_tk s) (m_granted l) t\<rparr>"
  have same: "st_tk ?s1 = st_tk s" "m_waiting_for ?s1 = m_waiting_for s" "st_ws ?s1 = st_ws s"
      "st_next ?s1 = st_next s" "st_frame ?s1 = st_frame s" "st_locks ?s1 = (st_locks s)(k \<mapsto> ?l1)"
    by (simp_all add: push_front_def grant_new_def put_lock_def la(1))
  have hd: "held ?s1 c' = held s c' \<union> (if c' = c then {t} else {})" for c'
    unfolding held_push_front by (simp add: held_def grant_new_def put_lock_def)
  have g: "granted_in ?s1 x \<longleftrightarrow> granted_in s x \<or> x = t" "waiting_in ?s1 x \<longleftrightarrow> waiting_in s x" for x
    using la(5) [of x] l t(3) by (auto simp: granted_in_def waiting_in_def same lock_at_def split: option.splits)
  have ok: "lock_ok (st_tk s) ?l1"
    by (rule lock_ok_add_granted) (use la t free in auto)
  have "inv_locks ?s1" using d ok la(1) by (auto simp: inv_locks_def same)
  moreover have "inv_tickets ?s1"
    using d t unfolding inv_tickets_def g same hd Let_def by (auto simp: unused_def)
  moreover have "inv_ctx ?s1"
    using d t ctx_ok_push [of "st_tk s" c "m_tickets s c" "m_waiting_for s c" "st_frame s c" "st_ws s c" t d]
    by (simp add: inv_ctx_def push_front_def grant_new_def put_lock_def unused_def held_def)
  moreover have "inv_progress {} ?s1"
    using d weak_stuck_add_granted la(6) by (auto simp: inv_progress_def same lock_is_empty_def)
  ultimately show ?thesis by (simp add: mdl_inv_but_def)
qed

section \<open>Acquiring\<close>

lemma stronger_mono:
  assumes "has_stronger_or_equal_type t ty" "bm_has (granted_incompat (strategy_of (m_lock t)) ty) x"
  shows "bm_has (granted_incompat (strategy_of (m_lock t)) (m_type t)) x"
  using assms bm_has_0 [of x] unfolding has_stronger_or_equal_type_def by (metis bm_has_and bm_has_not)

lemma find_ticket_loop_Some:
  "find_ticket_loop s c r is = Some (t, d) \<Longrightarrow>
     t \<in> set (m_tickets s c d) \<and> m_lock (st_tk s t) = rq_key r \<and> has_stronger_or_equal_type (st_tk s t) (rq_type r)"
  by (induction "is") (auto simp: Let_def find_Some_iff split: option.splits)

lemma find_ticket_Some:
  "find_ticket s c r = Some (t, d) \<Longrightarrow>
     t \<in> set (m_tickets s c d) \<and> m_lock (st_tk s t) = rq_key r \<and> has_stronger_or_equal_type (st_tk s t) (rq_type r)"
  unfolding find_ticket_def by (rule find_ticket_loop_Some)

text \<open>What a context already holds never stands in the way of a weaker lock of its own.\<close>

lemma stronger_not_blocked:
  assumes ok: "lock_ok tk l" and o: "orig \<in> granted_set l" "has_stronger_or_equal_type (tk orig) ty"
  shows "\<not> granted_blocks tk l ty (m_ctx (tk orig))"
proof
  assume "granted_blocks tk l ty (m_ctx (tk orig))"
  then obtain g where g: "g \<in> granted_set l" "m_ctx (tk g) \<noteq> m_ctx (tk orig)"
      "bm_has (granted_incompat (m_strategy l) ty) (m_type (tk g))"
    by (auto simp: granted_blocks_def)
  then show False
    using lock_okD(6) [OF ok o(1) g(1)] lock_okD(4) [OF ok o(1)] stronger_mono [OF o(2)]
    by (auto simp: compatible_tickets_def)
qed

lemma ticket_create_sel [simp]:
  "st_tk (ticket_create s c ty k) (st_next s) = \<lparr>m_type = ty, m_ctx = c, m_lock = k\<rparr>"
  "x \<noteq> st_next s \<Longrightarrow> st_tk (ticket_create s c ty k) x = st_tk s x"
  "st_next (ticket_create s c ty k) = Suc (st_next s)"
  "st_locks (ticket_create s c ty k) = st_locks s"
  "m_tickets (ticket_create s c ty k) = m_tickets s"
  "m_waiting_for (ticket_create s c ty k) = m_waiting_for s"
  "st_frame (ticket_create s c ty k) = st_frame s"
  "st_ws (ticket_create s c ty k) = st_ws s"
  by (simp_all add: ticket_create_def)

lemma clone_ticket_inv:
  assumes inv: "mdl_inv s" and o: "orig \<in> held s c" "has_stronger_or_equal_type (st_tk s orig) (rq_type r)"
  shows "mdl_inv (fst (clone_ticket s c r orig alloc))"
proof (cases "alloc = Pins_fail \<or> alloc = Ticket_fail")
  case True
  then show ?thesis using inv by (simp add: clone_ticket_def)
next
  case False
  let ?k = "m_lock (st_tk s orig)" and ?s1 = "ticket_create s c (rq_type r) (m_lock (st_tk s orig))"
  have g: "granted_in s orig" "m_ctx (st_tk s orig) = c" using held_granted [OF inv o(1)] by auto
  obtain l where l: "st_locks s ?k = Some l" "orig \<in> granted_set l"
    using g(1) by (auto simp: granted_in_def split: option.splits)
  have o1: "st_tk ?s1 orig = st_tk s orig" using used_less(1) [OF inv o(1)] by simp
  note inv1 = ticket_create_inv [OF inv, of c "rq_type r" ?k]
  have at: "lock_at ?s1 ?k l" using l by (simp add: lock_at_def)
  have "\<not> granted_blocks (st_tk ?s1) l (rq_type r) c"
    using stronger_not_blocked [OF lock_atD(2) [OF inv1(1) at inv1(2)] l(2)] o(2) o1 g(2) by simp
  then show ?thesis
    using False grant_new_inv [OF inv1(1) at inv1(2)] l(1) by (simp add: clone_ticket_def Let_def)
qed

lemma find_or_insert_at: "lock_at s (lock_of_key k) (find_or_insert (st_locks s) k)"
  by (simp add: lock_at_def find_or_insert_def split: option.splits)

lemma new_lock_grants: "can_grant_lock tk (new_lock k) ty c ign"
  by (simp add: can_grant_lock_iff waiting_blocks_def granted_blocks_def)
    (simp add: new_lock_def)

lemma try_acquire_new:
  assumes inv: "mdl_inv s" and l: "l = find_or_insert (st_locks s) (rq_key r)"
    and s1: "s1 = ticket_create s c (rq_type r) (lk_key l)"
  shows "mdl_inv s1" "unused s1 (st_next s)" "lock_at s1 (lk_key l) l" "lock_ok (st_tk s1) l"
    and "can_grant_lock (st_tk s1) l (rq_type r) c False \<Longrightarrow>
      mdl_inv (push_front (grant_new s1 l (st_next s)) c d (st_next s))"
    and "\<not> can_grant_lock (st_tk s1) l (rq_type r) c False \<Longrightarrow> st_locks s (lk_key l) = Some l"
proof -
  note i = ticket_create_inv [OF inv, of c "rq_type r" "lk_key l", folded s1]
  show "mdl_inv s1" "unused s1 (st_next s)" using i by auto
  have k: "lk_key l = lock_of_key (rq_key r)"
    using find_or_insert_at [of s "rq_key r"] inv inv_locksD [of s]
    by (auto simp: lock_at_def l mdl_inv_but_def new_lock_def)
  show at: "lock_at s1 (lk_key l) l"
    using find_or_insert_at [of s "rq_key r"] unfolding k unfolding l s1 lock_at_def ticket_create_sel .
  note ok = lock_atD [OF i(1) at i(2)]
  show "lock_ok (st_tk s1) l" by (rule ok(2))
  show "mdl_inv (push_front (grant_new s1 l (st_next s)) c d (st_next s))"
    if "can_grant_lock (st_tk s1) l (rq_type r) c False"
    by (rule grant_new_inv [OF i(1) at i(2)]) (use that can_grant_lock_iff [OF ok(2)] in \<open>auto simp: s1\<close>)
  show "st_locks s (lk_key l) = Some l" if "\<not> can_grant_lock (st_tk s1) l (rq_type r) c False"
    using at that new_lock_grants unfolding lock_at_def by (metis s1 ticket_create_sel(4))
qed

lemma put_lock_same: "st_locks s (lk_key l) = Some l \<Longrightarrow> put_lock s l = s"
  by (simp add: put_lock_def fun_upd_idem)

lemma try_acquire_lock_impl_inv:
  assumes inv: "mdl_inv s" and e: "try_acquire_lock_impl s c r alloc = (s', res)"
  shows "mdl_inv s'"
    and "res = Try_conflict t \<Longrightarrow> unused s' t \<and> t < st_next s' \<and> st_frame s' = st_frame s \<and>
      st_tk s' t = \<lparr>m_type = rq_type r, m_ctx = c, m_lock = lock_of_key (rq_key r)\<rparr> \<and>
      (\<exists>l. st_locks s' (lock_of_key (rq_key r)) = Some l \<and> \<not> can_grant_lock (st_tk s') l (rq_type r) c False)"
proof -
  have "mdl_inv s' \<and> (res = Try_conflict t \<longrightarrow> unused s' t \<and> t < st_next s' \<and> st_frame s' = st_frame s \<and>
      st_tk s' t = \<lparr>m_type = rq_type r, m_ctx = c, m_lock = lock_of_key (rq_key r)\<rparr> \<and>
      (\<exists>l. st_locks s' (lock_of_key (rq_key r)) = Some l \<and> \<not> can_grant_lock (st_tk s') l (rq_type r) c False))"
  proof (cases "find_ticket s c r")
    case (Some p)
    obtain orig d where p: "p = (orig, d)" by fastforce
    have o: "orig \<in> held s c" "has_stronger_or_equal_type (st_tk s orig) (rq_type r)"
      using find_ticket_Some [OF Some [unfolded p]] in_held by blast+
    show ?thesis
      using e clone_ticket_inv [OF inv o, of alloc] inv
      by (auto simp: try_acquire_lock_impl_def Some p split: if_splits prod.splits option.splits)
  next
    case None
    define l where "l = find_or_insert (st_locks s) (rq_key r)"
    define s1 where "s1 = ticket_create s c (rq_type r) (lk_key l)"
    note n = try_acquire_new [OF inv l_def s1_def]
    have k: "lk_key l = lock_of_key (rq_key r)"
      using find_or_insert_at [of s "rq_key r"] inv inv_locksD [of s]
      by (auto simp: lock_at_def l_def mdl_inv_but_def new_lock_def)
    have put: "put_lock s1 l = s1" if "\<not> can_grant_lock (st_tk s1) l (rq_type r) c False"
      using put_lock_same n(6) [OF that] by (simp add: s1_def)
    have res: "(s', res) =
       (if alloc \<noteq> Alloc_ok then (s, Try_error)
        else if can_grant_lock (st_tk s1) l (rq_type r) c False
        then (push_front (grant_new s1 l (st_next s)) c (rq_duration r) (st_next s), Try_granted (st_next s))
        else (s1, Try_conflict (st_next s)))"
      using e put
      unfolding try_acquire_lock_impl_def None option.case Let_def l_def [symmetric] s1_def [symmetric]
      by (simp split: if_splits)
    show ?thesis
      using res inv n(1,2,5,6) k by (auto simp: s1_def split: if_splits)
  qed
  then show "mdl_inv s'"
    and "res = Try_conflict t \<Longrightarrow> unused s' t \<and> t < st_next s' \<and> st_frame s' = st_frame s \<and>
      st_tk s' t = \<lparr>m_type = rq_type r, m_ctx = c, m_lock = lock_of_key (rq_key r)\<rparr> \<and>
      (\<exists>l. st_locks s' (lock_of_key (rq_key r)) = Some l \<and> \<not> can_grant_lock (st_tk s') l (rq_type r) c False)"
    by blast+
qed

lemma weak_stuck_add_waiting:
  assumes "weak_stuck tk ws l" "granted_blocks tk l (m_type (tk t)) (m_ctx (tk t)) \<or> waiting_blocks tk l (m_type (tk t))"
    and "\<And>w. w \<in> waiting_set l \<Longrightarrow> ws' (m_ctx (tk w)) = ws (m_ctx (tk w))"
  shows "weak_stuck tk ws' (l\<lparr>m_waiting := add_ticket tk (m_waiting l) t\<rparr>)"
  using assms by (auto simp: weak_stuck_def granted_blocks_def waiting_blocks_def)

lemma weak_stuck_cong_ws:
  assumes "weak_stuck tk ws l" "\<And>w. w \<in> waiting_set l \<Longrightarrow> ws' (m_ctx (tk w)) = ws (m_ctx (tk w))"
  shows "weak_stuck tk ws' l"
  using assms by (simp add: weak_stuck_def)

definition block_on :: "mdl_state \<Rightarrow> ctx_id \<Rightarrow> MDL_request \<Rightarrow> MDL_lock \<Rightarrow> ticket_id \<Rightarrow> mdl_state" where
  "block_on s c r l t =
     (put_lock s (l\<lparr>m_waiting := add_ticket (st_tk s) (m_waiting l) t\<rparr>))
       \<lparr>st_ws := reset_status (st_ws s) c, m_waiting_for := (m_waiting_for s)(c \<mapsto> t),
        st_frame := (st_frame s)(c \<mapsto> \<lparr>fr_request = r, fr_ticket = t, fr_wait_status = EMPTY\<rparr>)\<rparr>"

lemma block_on_inv:
  assumes inv: "mdl_inv s" and c: "st_frame s c = None" and t: "unused s t" "t < st_next s"
    and tk: "m_ctx (st_tk s t) = c" "st_locks s (m_lock (st_tk s t)) = Some l"
    and no: "\<not> can_grant_lock (st_tk s) l (m_type (st_tk s t)) c False"
  shows "mdl_inv (block_on s c r l t)" (is "mdl_inv ?s1")
proof -
  note d = inv [unfolded mdl_inv_but_def]
  let ?k = "m_lock (st_tk s t)" and ?l1 = "l\<lparr>m_waiting := add_ticket (st_tk s) (m_waiting l) t\<rparr>"
  have la: "lk_key l = ?k" "lock_ok (st_tk s) l" "t \<notin> granted_set l" "t \<notin> waiting_set l"
    using inv_locksD [OF _ tk(2)] unused_not_in_lock [OF inv t(1) tk(2)] d by auto
  have free: "m_waiting_for s c = None" using inv_ctxD(6) [OF _ c] d by blast
  have other: "m_ctx (st_tk s w) \<noteq> c" if "st_locks s k = Some l'" "w \<in> waiting_set l'" for w k l'
    using waiting_inI [OF _ that] inv_tickets_waiting [of s w] d free by auto
  have same: "st_tk ?s1 = st_tk s" "m_waiting_for ?s1 = (m_waiting_for s)(c \<mapsto> t)" "st_ws ?s1 = (st_ws s)(c := EMPTY)"
      "st_next ?s1 = st_next s" "st_locks ?s1 = (st_locks s)(?k \<mapsto> ?l1)" "held ?s1 = held s" "m_tickets ?s1 = m_tickets s"
      "st_frame ?s1 = (st_frame s)(c \<mapsto> \<lparr>fr_request = r, fr_ticket = t, fr_wait_status = EMPTY\<rparr>)"
    by (simp_all add: block_on_def put_lock_def la(1) reset_status_def held_def fun_eq_iff)
  have g: "granted_in ?s1 x \<longleftrightarrow> granted_in s x" "waiting_in ?s1 x \<longleftrightarrow> waiting_in s x \<or> x = t" for x
    using tk(2) by (auto simp: granted_in_def waiting_in_def same split: option.splits)
  have ok: "lock_ok (st_tk s) ?l1"
    by (rule lock_ok_add_waiting) (use la tk(1) other [OF tk(2)] in auto)
  have "inv_locks ?s1" using d ok la(1) by (auto simp: inv_locks_def same)
  moreover have "inv_tickets ?s1"
    using d t free tk(1) unfolding inv_tickets_def g same Let_def by (auto simp: unused_def)
  moreover have "inv_ctx ?s1"
    using d t(1) tk(1) unfolding inv_ctx_def same by (auto simp: ctx_ok_def unused_def held_def)
  moreover have "inv_progress {} ?s1"
    unfolding inv_progress_def
  proof (intro allI impI)
    fix k l' assume l': "st_locks ?s1 k = Some l'"
    have stl: "weak_stuck (st_tk s) (st_ws s) l" using d tk(2) by (auto simp: inv_progress_def)
    have stl1: "weak_stuck (st_tk s) ((st_ws s)(c := EMPTY)) ?l1"
      by (rule weak_stuck_add_waiting [OF stl])
        (use no can_grant_lock_iff [OF la(2)] tk(1) other [OF tk(2)] in auto)
    have "weak_stuck (st_tk s) ((st_ws s)(c := EMPTY)) l'" if "k \<noteq> ?k"
      by (rule weak_stuck_cong_ws [where ws = "st_ws s"])
        (use d l' that other [of k l'] in \<open>auto simp: inv_progress_def same\<close>)
    then show "(preallocated k \<or> \<not> lock_is_empty l') \<and> weak_stuck (st_tk ?s1) (st_ws ?s1) l'"
      using d l' stl1 by (cases "k = ?k") (auto simp: inv_progress_def same lock_is_empty_def)
  qed
  ultimately show ?thesis by (simp add: mdl_inv_but_def)
qed

lemma acquire_lock_begin_inv:
  assumes inv: "mdl_inv s" and c: "st_frame s c = None"
  shows "mdl_inv (acquire_lock_begin s c r alloc)"
proof -
  obtain s' res where e: "try_acquire_lock_impl s c r alloc = (s', res)" by fastforce
  note i = try_acquire_lock_impl_inv [OF inv e]
  show ?thesis
  proof (cases res)
    case (Try_conflict t)
    note j = i(2) [OF Try_conflict]
    then obtain l where l: "st_locks s' (m_lock (st_tk s' t)) = Some l"
        "\<not> can_grant_lock (st_tk s') l (m_type (st_tk s' t)) c False" by auto
    have "acquire_lock_begin s c r alloc = block_on s' c r l t"
      by (simp add: acquire_lock_begin_def e Try_conflict l(1) block_on_def)
    then show ?thesis using block_on_inv [OF i(1) _ _ _ _ l] j c by auto
  qed (use i(1) e in \<open>simp_all add: acquire_lock_begin_def\<close>)
qed

section \<open>Upgrading and downgrading\<close>

lemma lock_ok_requeue:
  assumes ok: "lock_ok tk l" and t: "t \<in> granted_set l" and free: "\<not> granted_blocks tk l ty (m_ctx (tk t))"
    and tk': "tk' = tk(t := (tk t)\<lparr>m_type := ty\<rparr>)" and l1: "l1 = l\<lparr>m_granted := tl_remove_ticket tk (m_granted l) t\<rparr>"
  shows "lock_ok tk' (l1\<lparr>m_granted := add_ticket tk' (m_granted l1) t\<rparr>)"
proof (rule lock_ok_add_granted)
  have out: "t \<notin> granted_set l1" "t \<notin> waiting_set l1"
    using lock_okD(3) [OF ok] t by (auto simp: l1 granted_set_remove [OF ok])
  then show "t \<notin> granted_set l1" "t \<notin> waiting_set l1" by auto
  show "lock_ok tk' l1"
    by (rule lock_ok_cong [OF lock_ok_remove_granted [OF ok t, folded l1]]) (use out in \<open>auto simp: tk'\<close>)
  show "m_lock (tk' t) = lk_key l1" using lock_okD(4) [OF ok t] by (simp add: tk' l1)
  show "\<not> granted_blocks tk' l1 (m_type (tk' t)) (m_ctx (tk' t))"
    using free out by (auto simp: granted_blocks_def tk' l1 granted_set_remove [OF ok])
qed

lemma requeue_open:
  assumes inv: "mdl_inv_but K s" and l: "st_locks s (m_lock (st_tk s t)) = Some l" and t: "t \<in> granted_set l"
    and free: "\<not> granted_blocks (st_tk s) l ty (m_ctx (st_tk s t))"
    and e: "requeue_granted s l t ty = (s1, l2)"
  shows "mdl_inv_but (insert (lk_key l) K) (put_lock s1 l2)" "lk_key l2 = lk_key l" "lock_ok (st_tk s1) l2"
    and "st_tk s1 = (st_tk s)(t := (st_tk s t)\<lparr>m_type := ty\<rparr>)" "s1 = s\<lparr>st_tk := st_tk s1\<rparr>"
    and "tl_list (m_granted l2) = remove1 t (tl_list (m_granted l)) @ [t]" "m_waiting l2 = m_waiting l"
proof -
  note d = inv [unfolded mdl_inv_but_def]
  have lk: "lk_key l = m_lock (st_tk s t)" "lock_ok (st_tk s) l" using inv_locksD [OF _ l] d by auto
  define l1 where "l1 = l\<lparr>m_granted := tl_remove_ticket (st_tk s) (m_granted l) t\<rparr>"
  have s1: "s1 = retype s t ty" and l2: "l2 = l1\<lparr>m_granted := add_ticket (st_tk s1) (m_granted l1) t\<rparr>"
    using e by (auto simp: requeue_granted_def Let_def l1_def)
  show tk: "st_tk s1 = (st_tk s)(t := (st_tk s t)\<lparr>m_type := ty\<rparr>)" "s1 = s\<lparr>st_tk := st_tk s1\<rparr>"
    by (simp_all add: s1 retype_def)
  show lists: "tl_list (m_granted l2) = remove1 t (tl_list (m_granted l)) @ [t]" "m_waiting l2 = m_waiting l"
      and key: "lk_key l2 = lk_key l"
    by (simp_all add: l2 l1_def)
  show ok: "lock_ok (st_tk s1) l2" unfolding l2 by (rule lock_ok_requeue [OF lk(2) t free tk(1) l1_def])
  let ?s' = "put_lock s1 l2"
  have same: "m_waiting_for ?s' = m_waiting_for s" "st_ws ?s' = st_ws s" "st_next ?s' = st_next s" "held ?s' = held s"
      "st_frame ?s' = st_frame s" "st_locks ?s' = (st_locks s)(lk_key l \<mapsto> l2)" "m_tickets ?s' = m_tickets s"
      "st_tk ?s' = st_tk s1"
    by (simp_all add: put_lock_def key s1 retype_def held_def fun_eq_iff)
  have proj: "m_ctx (st_tk s1 x) = m_ctx (st_tk s x)" "m_lock (st_tk s1 x) = m_lock (st_tk s x)" for x
    by (simp_all add: tk(1))
  have other: "st_tk s1 x = st_tk s x" if "st_locks s k = Some l'" "k \<noteq> lk_key l" "x \<in> granted_set l' \<union> waiting_set l'" for k l' x
    using that lk(1) inv_locksD [OF _ that(1)] lock_okD(4,5) [of "st_tk s" l' x] d by (auto simp: tk(1))
  have gs: "granted_set l2 = granted_set l" using t by (auto simp: lists(1) granted_set_remove [OF lk(2)])
  have g: "granted_in ?s' x \<longleftrightarrow> granted_in s x" "waiting_in ?s' x \<longleftrightarrow> waiting_in s x" for x
    using l lk(1) gs lists(2) by (auto simp: granted_in_def waiting_in_def same proj split: option.splits)
  have "inv_locks ?s'"
    using d ok key lock_ok_cong [OF _ other] by (auto simp: inv_locks_def same)
  moreover have "inv_tickets ?s'" using d unfolding inv_tickets_def g same proj by simp
  moreover have "inv_ctx ?s'"
    using d unfolding inv_ctx_def same ctx_ok_def proj by blast
  moreover have "inv_progress (insert (lk_key l) K) ?s'"
    using d weak_stuck_cong [OF _ other] by (auto simp: inv_progress_def same)
  ultimately show "mdl_inv_but (insert (lk_key l) K) ?s'" by (simp add: mdl_inv_but_def)
qed

lemma downgrade_lock_inv:
  assumes inv: "mdl_inv s" and t: "t \<in> held s c"
  shows "mdl_inv (downgrade_lock mx s t ty)"
proof (cases "m_type (st_tk s t) = ty \<or> \<not> has_stronger_or_equal_type (st_tk s t) ty")
  case True
  then show ?thesis using inv by (simp add: downgrade_lock_def)
next
  case False
  have h: "granted_in s t" using held_granted [OF inv t] by simp
  obtain l where l: "st_locks s (m_lock (st_tk s t)) = Some l" "lk_key l = m_lock (st_tk s t)"
      "lock_ok (st_tk s) l" "t \<in> granted_set l"
    using inv_obtain_lock [OF inv] h by metis
  obtain s1 l1 where r: "requeue_granted s l t ty = (s1, l1)" by fastforce
  have free: "\<not> granted_blocks (st_tk s) l ty (m_ctx (st_tk s t))"
    using stronger_not_blocked [OF l(3,4)] False by simp
  note q = requeue_open [OF inv l(1,4) free r]
  obtain ws' l2 where w: "reschedule_waiters mx (st_tk s1) (st_ws s1) l1 = (ws', l2)" by fastforce
  have k2: "lk_key l2 = lk_key l1"
    using reschedule_waiters_moves [OF q(3), of "st_ws s1" mx] w by (auto simp: moves_waiters_def)
  have ne: "\<not> lock_is_empty l1" using q(6) by (simp add: lock_is_empty_def)
  have "downgrade_lock mx s t ty = lock_finish mx (put_lock s1 l1) (lk_key l)"
    using False l(1) r w k2 ne q(2) by (simp add: downgrade_lock_def lock_finish_def put_lock_def)
  then show ?thesis
    using lock_finish_inv [OF q(1), of l1 mx] q(2) by (simp add: put_lock_def)
qed

lemma mdl_inv_close:
  assumes "mdl_inv_but {k} s" "st_locks s k = Some l" "\<not> lock_is_empty l" "weak_stuck (st_tk s) (st_ws s) l"
  shows "mdl_inv s"
proof -
  have "(preallocated k' \<or> \<not> lock_is_empty l') \<and> weak_stuck (st_tk s) (st_ws s) l'"
    if "st_locks s k' = Some l'" for k' l'
    using that assms by (cases "k' = k") (auto simp: mdl_inv_but_def inv_progress_def)
  then show ?thesis using assms(1) by (simp add: mdl_inv_but_def inv_progress_def)
qed

lemma weak_stuck_mono:
  assumes st: "weak_stuck tk ws l" and key: "lk_key l' = lk_key l" and w: "m_waiting l' = m_waiting l"
    and tk: "\<And>x. x \<in> waiting_set l \<Longrightarrow> tk' x = tk x"
    and g: "\<And>x. x \<in> granted_set l \<Longrightarrow> \<exists>y \<in> granted_set l'. m_ctx (tk' y) = m_ctx (tk x) \<and>
      (\<forall>z. bm_has (granted_incompat (m_strategy l) (m_type (tk x))) z \<longrightarrow>
           bm_has (granted_incompat (m_strategy l) (m_type (tk' y))) z)"
  shows "weak_stuck tk' ws l'"
proof -
  have gb: "granted_blocks tk' l' ty c" if "granted_blocks tk l ty c" for ty c
    using that g unfolding granted_blocks_def key by (metis granted_incompat_sym)
  have wb: "waiting_blocks tk' l' ty" if "waiting_blocks tk l ty" for ty
    using that tk by (auto simp: waiting_blocks_def key w)
  show ?thesis using st gb wb tk by (auto simp: weak_stuck_def key w)
qed

text \<open>An upgradable lock and one it is not as strong as: the other is the stronger one.\<close>

lemma upgrade_stronger:
  assumes "m_type t \<in> {MDL_SHARED_UPGRADABLE, MDL_SHARED_NO_WRITE, MDL_SHARED_NO_READ_WRITE}"
    and "\<not> has_stronger_or_equal_type t ty" "bm_has (granted_incompat (strategy_of (m_lock t)) (m_type t)) z"
  shows "bm_has (granted_incompat (strategy_of (m_lock t)) ty) z"
proof -
  have ex: "\<exists>x. bm_has (granted_incompat st ty) x \<and> \<not> bm_has (granted_incompat st u) x"
    if "granted_incompat st ty AND NOT (granted_incompat st u) \<noteq> 0" for st u
    using that bm_wf_and_zero [OF bm_wf_granted, of "NOT (granted_incompat st u)" st ty]
    by (auto simp: bm_has_not and.commute)
  have all: "u \<in> {MDL_SHARED_UPGRADABLE, MDL_SHARED_NO_WRITE, MDL_SHARED_NO_READ_WRITE} \<Longrightarrow>
      \<exists>x. bm_has (granted_incompat st ty) x \<and> \<not> bm_has (granted_incompat st u) x \<Longrightarrow>
      bm_has (granted_incompat st u) z \<Longrightarrow> bm_has (granted_incompat st ty) z" for st u
    by (cases st; cases ty) (auto simp: mdl_matrices bm_simps)
  show ?thesis
    using all [OF assms(1) ex assms(3)] assms(2) by (simp add: has_stronger_or_equal_type_def)
qed

lemma weak_stuck_merge:
  assumes ok: "lock_ok tk l" and stl: "weak_stuck tk ws l" and t: "t \<in> granted_set l" and x: "x \<in> granted_set l"
    and c: "m_ctx (tk x) = m_ctx (tk t)"
    and ty: "m_type (tk t) \<in> {MDL_SHARED_UPGRADABLE, MDL_SHARED_NO_WRITE, MDL_SHARED_NO_READ_WRITE}"
    and up: "\<not> has_stronger_or_equal_type (tk t) ty" and new: "is_new \<Longrightarrow> m_type (tk x) = ty"
    and tk': "tk' = tk(t := (tk t)\<lparr>m_type := ty\<rparr>)"
    and l2: "lk_key l2 = lk_key l" "m_waiting l2 = m_waiting l" "t \<in> granted_set l2"
      "granted_set l2 = (if is_new then granted_set l - {x} else granted_set l)"
  shows "weak_stuck tk' ws l2"
proof (rule weak_stuck_mono [OF stl l2(1,2)])
  show "tk' y = tk y" if "y \<in> waiting_set l" for y
    using that lock_okD(3) [OF ok] t by (auto simp: tk')
  have key: "lk_key l = m_lock (tk t)" using lock_okD(4) [OF ok t] by simp
  fix y assume y: "y \<in> granted_set l"
  define z where "z = (if y = x \<and> is_new \<or> y = t then t else y)"
  have "z \<in> granted_set l2" using y l2(3) by (auto simp: l2(4) z_def)
  moreover have "m_ctx (tk' z) = m_ctx (tk y)" using c by (auto simp: z_def tk')
  moreover have "bm_has (granted_incompat (m_strategy l) (m_type (tk' z))) v"
    if "bm_has (granted_incompat (m_strategy l) (m_type (tk y))) v" for v
    using that new upgrade_stronger [OF ty up] key by (auto simp: z_def tk')
  ultimately show "\<exists>z \<in> granted_set l2. m_ctx (tk' z) = m_ctx (tk y) \<and>
    (\<forall>v. bm_has (granted_incompat (m_strategy l) (m_type (tk y))) v \<longrightarrow>
         bm_has (granted_incompat (m_strategy l) (m_type (tk' z))) v)" by blast
qed

lemma upgrade_merge_inv:
  assumes inv: "mdl_inv s" and t: "t \<in> held s c" and x: "x \<in> held s c" "m_lock (st_tk s x) = m_lock (st_tk s t)"
    and ty: "m_type (st_tk s t) \<in> {MDL_SHARED_UPGRADABLE, MDL_SHARED_NO_WRITE, MDL_SHARED_NO_READ_WRITE}"
    and up: "\<not> has_stronger_or_equal_type (st_tk s t) ty" "has_stronger_or_equal_type (st_tk s x) ty"
    and new: "is_new \<Longrightarrow> x \<in> set (m_tickets s c MDL_TRANSACTION) \<and> m_type (st_tk s x) = ty"
  shows "mdl_inv (upgrade_merge s c t ty x is_new)"
proof -
  let ?k = "m_lock (st_tk s t)"
  have h: "granted_in s t" "m_ctx (st_tk s t) = c" "granted_in s x" "m_ctx (st_tk s x) = c"
    using held_granted [OF inv] t x by auto
  obtain l where l: "st_locks s ?k = Some l" "lk_key l = ?k" "lock_ok (st_tk s) l" "t \<in> granted_set l"
    using inv_obtain_lock [OF inv] h(1) by metis
  have xl: "x \<in> granted_set l" "x \<noteq> t" using h(3) l(1) x(2) up by (auto simp: granted_in_def)
  define l1 where "l1 = (if is_new then l\<lparr>m_granted := tl_remove_ticket (st_tk s) (m_granted l) x\<rparr> else l)"
  define sa where "sa = (if is_new then tickets_remove (put_lock s l1) c MDL_TRANSACTION x else s)"
  have sa: "mdl_inv_but {?k} sa" "st_tk sa = st_tk s" "st_locks sa ?k = Some l1" "st_ws sa = st_ws s"
    using release_open [OF inv _ _ refl, of x c MDL_TRANSACTION l] new l(1,2) x(2) inv
    by (auto simp: sa_def l1_def tickets_remove_def put_lock_def mdl_inv_but_def inv_progress_def)
  have g1: "granted_set l1 = (if is_new then granted_set l - {x} else granted_set l)" "m_waiting l1 = m_waiting l" "lk_key l1 = ?k"
    using l(2) by (auto simp: l1_def granted_set_remove [OF l(3)])
  have free: "\<not> granted_blocks (st_tk s) l1 ty c"
    using stronger_not_blocked [OF l(3) xl(1) up(2)] h(4) g1 l(2) by (auto simp: granted_blocks_def split: if_splits)
  obtain s1 l2 where r: "requeue_granted sa l1 t ty = (s1, l2)" by fastforce
  have tl1: "t \<in> granted_set l1" using l(4) xl(2) g1(1) by simp
  note q = requeue_open [OF sa(1), of t l1 ty s1 l2, unfolded sa(2), OF sa(3) tl1 _ r, unfolded h(2), OF free]
  have e: "upgrade_merge s c t ty x is_new = put_lock s1 l2"
    using r l(1) by (auto simp: upgrade_merge_def requeue_granted_def Let_def sa_def l1_def retype_def
        put_lock_def tickets_remove_def)
  have stl: "weak_stuck (st_tk s) (st_ws s) l" using inv l(1) by (auto simp: mdl_inv_but_def inv_progress_def)
  have gl2: "granted_set l2 = granted_set l1"
    using q(6) tl1 inv_locksD [OF _ sa(3)] sa(1,2) by (auto simp: mdl_inv_but_def granted_set_remove)
  have "weak_stuck (st_tk s1) (st_ws s) l2"
    by (rule weak_stuck_merge [OF l(3) stl l(4) xl(1) _ ty up(1) _ q(4)])
      (use q(2,7) g1 l(2) gl2 tl1 h new in auto)
  then show ?thesis
    unfolding e using q(1,2,6) g1(3) arg_cong [OF q(5), of st_ws] sa(4)
    by (intro mdl_inv_close [of ?k _ l2]) (simp_all add: put_lock_def lock_is_empty_def)
qed

end
