(* ===== verification/Mdl_Steps.thy ===== *)
theory Mdl_Steps
  imports Mdl_System
begin

text \<open>
  The step relation of the metadata locking subsystem, what holds in every reachable state,
  and the operations on a context's list of tickets: savepoints and lock durations.
\<close>

section \<open>Lists of tickets by duration\<close>

definition all_tickets :: "(enum_mdl_duration \<Rightarrow> ticket_id list) \<Rightarrow> ticket_id list" where
  "all_tickets ts = ts MDL_STATEMENT @ ts MDL_TRANSACTION @ ts MDL_EXPLICIT"

lemma all_durations: "(\<forall>d. P d) \<longleftrightarrow> P MDL_STATEMENT \<and> P MDL_TRANSACTION \<and> P MDL_EXPLICIT"
  by (metis enum_mdl_duration.exhaust)

lemma set_all_tickets: "set (all_tickets ts) = (\<Union>d. set (ts d))"
proof -
  have "(\<exists>d. x \<in> set (ts d)) \<longleftrightarrow> x \<in> set (all_tickets ts)" for x
    using all_durations [of "\<lambda>d. x \<notin> set (ts d)"] by (auto simp: all_tickets_def)
  then show ?thesis by auto
qed

lemma distinct_all_tickets:
  "distinct (all_tickets ts) \<longleftrightarrow>
     (\<forall>d. distinct (ts d)) \<and> (\<forall>d d'. d \<noteq> d' \<longrightarrow> set (ts d) \<inter> set (ts d') = {})"
  by (simp add: all_durations all_tickets_def) auto

lemma ctx_ok_all:
  "ctx_ok tk c ts wt fr st \<longleftrightarrow> distinct (all_tickets ts) \<and>
     (\<forall>t \<in> set (all_tickets ts). m_ctx (tk t) = c \<and> wt \<noteq> Some t) \<and>
     (\<forall>t. wt = Some t \<longrightarrow> m_ctx (tk t) = c) \<and>
     (case fr of None \<Rightarrow> wt = None
      | Some f \<Rightarrow> wt = Some (fr_ticket f) \<and> (fr_wait_status f = EMPTY \<or> fr_wait_status f = st))"
  unfolding ctx_ok_def distinct_all_tickets set_all_tickets by auto

text \<open>Moving tickets between the lists of one context keeps the invariant.\<close>

lemma retickets_inv:
  assumes inv: "mdl_inv s" and p: "mset (all_tickets ts) = mset (all_tickets (m_tickets s c))"
    and s': "s' = s\<lparr>m_tickets := (m_tickets s)(c := ts)\<rparr>"
  shows "mdl_inv s'"
proof -
  note d = inv [unfolded mdl_inv_but_def]
  have eq: "distinct (all_tickets ts) = distinct (all_tickets (m_tickets s c))"
      "set (all_tickets ts) = set (all_tickets (m_tickets s c))"
    using mset_eq_imp_distinct_iff [OF p] mset_eq_setD [OF p] by auto
  have hd: "held s' = held s"
    using eq(2) by (auto simp: fun_eq_iff held_def s' set_all_tickets)
  have c: "ctx_ok (st_tk s) c ts (m_waiting_for s c) (st_frame s c) (st_ws s c)"
    using d unfolding inv_ctx_def ctx_ok_all eq by blast
  have "inv_locks s'" using d by (simp add: inv_locks_def s')
  moreover have "inv_tickets s'"
    using d unfolding inv_tickets_def hd granted_in_def waiting_in_def by (simp add: s')
  moreover have "inv_ctx s'"
    using d c by (simp add: inv_ctx_def s')
  moreover have "inv_progress {} s'" using d by (simp add: inv_progress_def s')
  ultimately show ?thesis by (simp add: mdl_inv_but_def)
qed

lemma set_lock_duration_inv:
  assumes inv: "mdl_inv s" and t: "t \<in> set (m_tickets s c MDL_TRANSACTION)"
  shows "mdl_inv (set_lock_duration s c t d)"
proof (rule retickets_inv [OF inv])
  let ?ts = "(m_tickets s c)(MDL_TRANSACTION := remove1 t (m_tickets s c MDL_TRANSACTION))"
  show "set_lock_duration s c t d = s\<lparr>m_tickets := (m_tickets s)(c := ?ts(d := t # ?ts d))\<rparr>"
    by (simp add: set_lock_duration_def push_front_def tickets_remove_def)
  show "mset (all_tickets (?ts(d := t # ?ts d))) = mset (all_tickets (m_tickets s c))"
    using t by (cases d) (simp_all add: all_tickets_def)
qed

lemma move_tickets_loop_eq:
  assumes "src \<noteq> dst" "m_tickets s c src = ts"
  shows "move_tickets_loop c src dst ts s =
    s\<lparr>m_tickets := (m_tickets s)(c := (m_tickets s c)(src := [], dst := rev ts @ m_tickets s c dst))\<rparr>"
  using assms
proof (induction ts arbitrary: s)
  case Nil
  then show ?case by (simp add: fun_upd_idem)
next
  case (Cons t ts)
  define s1 where "s1 = push_front (tickets_remove s c src t) c dst t"
  have m: "m_tickets s1 = (m_tickets s)(c := (m_tickets s c)(src := ts, dst := t # m_tickets s c dst))"
    using Cons.prems by (simp add: s1_def push_front_def tickets_remove_def fun_eq_iff)
  have "move_tickets_loop c src dst (t # ts) s =
      s1\<lparr>m_tickets := (m_tickets s1)(c := (m_tickets s1 c)(src := [], dst := rev ts @ m_tickets s1 c dst))\<rparr>"
    unfolding move_tickets_loop.simps s1_def [symmetric]
    by (rule Cons.IH [OF Cons.prems(1)]) (use Cons.prems(1) m in simp)
  also have "\<dots> = s\<lparr>m_tickets := (m_tickets s1)(c := (m_tickets s1 c)(src := [], dst := rev ts @ m_tickets s1 c dst))\<rparr>"
    by (simp add: s1_def push_front_def tickets_remove_def)
  also have "(m_tickets s1)(c := (m_tickets s1 c)(src := [], dst := rev ts @ m_tickets s1 c dst)) =
      (m_tickets s)(c := (m_tickets s c)(src := [], dst := rev (t # ts) @ m_tickets s c dst))"
    using Cons.prems(1) by (auto simp: m fun_eq_iff)
  finally show ?case .
qed

lemma move_tickets_eq:
  "src \<noteq> dst \<Longrightarrow> move_tickets s c src dst =
    s\<lparr>m_tickets := (m_tickets s)(c := (m_tickets s c)(src := [], dst := rev (m_tickets s c src) @ m_tickets s c dst))\<rparr>"
  unfolding move_tickets_def by (rule move_tickets_loop_eq) simp_all

abbreviation with_tickets :: "mdl_state \<Rightarrow> ctx_id \<Rightarrow> (enum_mdl_duration \<Rightarrow> ticket_id list) \<Rightarrow> mdl_state" where
  "with_tickets s c f \<equiv> s\<lparr>m_tickets := (m_tickets s)(c := f)\<rparr>"

lemma move_tickets_with:
  "src \<noteq> dst \<Longrightarrow> move_tickets (with_tickets s c f) c src dst =
     with_tickets s c (f(src := [], dst := rev (f src) @ f dst))"
  by (simp add: move_tickets_eq)

lemma only_duration:
  fixes f :: "enum_mdl_duration \<Rightarrow> ticket_id list"
  assumes "\<And>d. d \<noteq> e \<Longrightarrow> f d = []"
  shows "f = (\<lambda>_. [])(e := f e)"
  using assms by auto

lemma set_explicit_eq:
  "set_explicit_duration_for_all_locks s c = with_tickets s c ((\<lambda>_. [])(MDL_EXPLICIT :=
     rev (m_tickets s c MDL_EXPLICIT) @ rev (m_tickets s c MDL_STATEMENT) @ m_tickets s c MDL_TRANSACTION))"
proof -
  define f where "f = ((m_tickets s c)(MDL_EXPLICIT := m_tickets s c MDL_TRANSACTION,
      MDL_TRANSACTION := m_tickets s c MDL_EXPLICIT, MDL_STATEMENT := [],
      MDL_EXPLICIT := rev (m_tickets s c MDL_STATEMENT) @ m_tickets s c MDL_TRANSACTION, MDL_TRANSACTION := [],
      MDL_EXPLICIT := rev (m_tickets s c MDL_EXPLICIT) @ rev (m_tickets s c MDL_STATEMENT) @ m_tickets s c MDL_TRANSACTION))"
  have "set_explicit_duration_for_all_locks s c = with_tickets s c f"
    unfolding set_explicit_duration_for_all_locks_def swap_tickets_def
    by (subst move_tickets_with, simp, subst move_tickets_with, simp, simp add: f_def)
  also have "f = (\<lambda>_. [])(MDL_EXPLICIT := f MDL_EXPLICIT)"
    by (rule only_duration) (use enum_mdl_duration.exhaust in \<open>auto simp: f_def\<close>)
  also have "f MDL_EXPLICIT = rev (m_tickets s c MDL_EXPLICIT) @ rev (m_tickets s c MDL_STATEMENT) @ m_tickets s c MDL_TRANSACTION"
    by (simp add: f_def)
  finally show ?thesis .
qed

lemma set_transaction_eq:
  assumes "m_tickets s c MDL_STATEMENT = []"
  shows "set_transaction_duration_for_all_locks s c = with_tickets s c ((\<lambda>_. [])(MDL_TRANSACTION :=
     rev (m_tickets s c MDL_TRANSACTION) @ m_tickets s c MDL_EXPLICIT))"
proof -
  define f where "f = ((m_tickets s c)(MDL_TRANSACTION := m_tickets s c MDL_EXPLICIT,
      MDL_EXPLICIT := m_tickets s c MDL_TRANSACTION, MDL_EXPLICIT := [],
      MDL_TRANSACTION := rev (m_tickets s c MDL_TRANSACTION) @ m_tickets s c MDL_EXPLICIT))"
  have "set_transaction_duration_for_all_locks s c = with_tickets s c f"
    unfolding set_transaction_duration_for_all_locks_def swap_tickets_def
    by (subst move_tickets_with, simp, simp add: f_def)
  also have "f = (\<lambda>_. [])(MDL_TRANSACTION := f MDL_TRANSACTION)"
    by (rule only_duration) (use enum_mdl_duration.exhaust assms in \<open>auto simp: f_def\<close>)
  also have "f MDL_TRANSACTION = rev (m_tickets s c MDL_TRANSACTION) @ m_tickets s c MDL_EXPLICIT"
    by (simp add: f_def)
  finally show ?thesis .
qed

lemma set_explicit_inv: "mdl_inv s \<Longrightarrow> mdl_inv (set_explicit_duration_for_all_locks s c)"
  by (rule retickets_inv [OF _ _ set_explicit_eq]) (simp_all add: all_tickets_def)

lemma set_transaction_inv:
  "mdl_inv s \<Longrightarrow> m_tickets s c MDL_STATEMENT = [] \<Longrightarrow> mdl_inv (set_transaction_duration_for_all_locks s c)"
  by (rule retickets_inv [OF _ _ set_transaction_eq]) (simp_all add: all_tickets_def)

section \<open>Waiting\<close>

lemma slot_message_inv:
  assumes inv: "mdl_inv s" and e: "st_ws s c = EMPTY" and v: "v \<noteq> GRANTED"
    and s': "s' = s\<lparr>st_ws := (st_ws s)(c := v)\<rparr>"
  shows "mdl_inv s'"
proof -
  note d = inv [unfolded mdl_inv_but_def]
  have hd: "held s' = held s" by (simp add: held_def fun_eq_iff s')
  have "inv_locks s'" using d by (simp add: inv_locks_def s')
  moreover have "inv_tickets s'"
    using d e v unfolding inv_tickets_def hd granted_in_def waiting_in_def by (simp add: s' Let_def)
  moreover have "inv_ctx s'"
    using d e inv_ctx_ws [of s "(st_ws s)(c := v)" "st_locks s"] by (simp add: s')
  moreover have "inv_progress {} s'"
  proof -
    have "weak_stuck (st_tk s) ((st_ws s)(c := v)) l" if "weak_stuck (st_tk s) (st_ws s) l" for l
      by (rule weak_stuck_ws [OF that]) (use e in \<open>auto split: if_splits\<close>)
    then show ?thesis using d by (simp add: inv_progress_def s')
  qed
  ultimately show ?thesis by (simp add: mdl_inv_but_def)
qed

lemma ctx_ok_status:
  "ctx_ok tk c ts wt (Some f) st \<Longrightarrow> ctx_ok tk c ts wt (Some (f\<lparr>fr_wait_status := st\<rparr>)) st"
  by (auto simp: ctx_ok_def)

lemma set_wait_status_inv:
  assumes inv: "mdl_inv s" and f: "st_frame s c = Some f"
  shows "mdl_inv (set_wait_status s c f (st_ws s c))" (is "mdl_inv ?s'")
proof -
  note d = inv [unfolded mdl_inv_but_def]
  have hd: "held ?s' = held s" by (simp add: held_def fun_eq_iff set_wait_status_def)
  have "inv_locks ?s'" using d by (simp add: inv_locks_def set_wait_status_def)
  moreover have "inv_tickets ?s'"
    using d unfolding inv_tickets_def hd granted_in_def waiting_in_def by (simp add: set_wait_status_def)
  moreover have "inv_ctx ?s'"
    using d f ctx_ok_status [of "st_tk s" c "m_tickets s c" "m_waiting_for s c" f "st_ws s c"]
    by (simp add: inv_ctx_def set_wait_status_def) metis
  moreover have "inv_progress {} ?s'" using d by (simp add: inv_progress_def set_wait_status_def)
  ultimately show ?thesis by (simp add: mdl_inv_but_def)
qed

lemma timed_wait_inv:
  assumes inv: "mdl_inv s" and w: "timed_wait (st_ws s) c killed sst = (ws', st)"
  shows "mdl_inv (s\<lparr>st_ws := ws'\<rparr>)" "st = ws' c"
proof -
  have "ws' = st_ws s \<or> st_ws s c = EMPTY \<and> (ws' = (st_ws s)(c := KILLED) \<or> ws' = (st_ws s)(c := TIMEOUT))"
    using w by (auto simp: timed_wait_def Let_def split: if_splits)
  then show "mdl_inv (s\<lparr>st_ws := ws'\<rparr>)"
    using slot_message_inv [OF inv _ _ refl, of c] inv by auto
  show "st = ws' c" using w by (auto simp: timed_wait_def Let_def)
qed

section \<open>The step relation\<close>

text \<open>
  One step is one critical section of one context, or a message of the deadlock detector.  The
  parameter \<open>disc\<close> says whether a client may drop its connection while its request waits.  The
  side conditions are what the callers guarantee and the code asserts: a blocked context runs nothing else, tickets
  are released by their owner, and \<open>upgrade_shared_lock\<close> upgrades SU, SNW and SNRW locks, merging in a
  ticket that is new exactly when it is among the transactional ones with the new type.
\<close>

inductive mdl_step :: "nat \<Rightarrow> bool \<Rightarrow> mdl_state \<Rightarrow> mdl_state \<Rightarrow> bool" for mx disc where
  step_try: "st_frame s c = None \<Longrightarrow> mdl_step mx disc s (fst (try_acquire_lock s c r alloc))"
| step_begin: "st_frame s c = None \<Longrightarrow> mdl_step mx disc s (acquire_lock_begin s c r alloc)"
| step_victim: "m_waiting_for s c = Some t \<Longrightarrow>
    mdl_step mx disc s (s\<lparr>st_ws := fst (set_status (st_ws s) c VICTIM)\<rparr>)"
| step_short_wait: "st_frame s c = Some f \<Longrightarrow> fr_wait_status f = EMPTY \<Longrightarrow> is_connected \<or> disc \<Longrightarrow>
    mdl_step mx disc s (acquire_lock_short_wait s c f is_killed is_connected)"
| step_long_wait: "st_frame s c = Some f \<Longrightarrow> fr_wait_status f = EMPTY \<Longrightarrow>
    mdl_step mx disc s (acquire_lock_long_wait s c f is_killed)"
| step_end: "st_frame s c = Some f \<Longrightarrow> fr_wait_status f \<noteq> EMPTY \<Longrightarrow> acquire_lock_end mx s c f = Some s' \<Longrightarrow>
    mdl_step mx disc s s'"
| step_release: "st_frame s c = None \<Longrightarrow> t \<in> set (m_tickets s c d) \<Longrightarrow>
    mdl_step mx disc s (release_lock mx s c d t)"
| step_downgrade: "st_frame s c = None \<Longrightarrow> t \<in> held s c \<Longrightarrow> mdl_step mx disc s (downgrade_lock mx s t ty)"
| step_upgrade: "st_frame s c = None \<Longrightarrow> t \<in> held s c \<Longrightarrow> x \<in> held s c \<Longrightarrow>
    m_lock (st_tk s x) = m_lock (st_tk s t) \<Longrightarrow>
    m_type (st_tk s t) \<in> {MDL_SHARED_UPGRADABLE, MDL_SHARED_NO_WRITE, MDL_SHARED_NO_READ_WRITE} \<Longrightarrow>
    upgrade_request s t ty \<noteq> None \<Longrightarrow> has_stronger_or_equal_type (st_tk s x) ty \<Longrightarrow>
    (is_new \<Longrightarrow> x \<in> set (m_tickets s c MDL_TRANSACTION) \<and> m_type (st_tk s x) = ty) \<Longrightarrow>
    mdl_step mx disc s (upgrade_merge s c t ty x is_new)"
| step_set_duration: "st_frame s c = None \<Longrightarrow> t \<in> set (m_tickets s c MDL_TRANSACTION) \<Longrightarrow>
    mdl_step mx disc s (set_lock_duration s c t d)"
| step_set_explicit: "st_frame s c = None \<Longrightarrow> mdl_step mx disc s (set_explicit_duration_for_all_locks s c)"
| step_set_transaction: "st_frame s c = None \<Longrightarrow> m_tickets s c MDL_STATEMENT = [] \<Longrightarrow>
    mdl_step mx disc s (set_transaction_duration_for_all_locks s c)"

inductive mdl_reachable :: "nat \<Rightarrow> bool \<Rightarrow> mdl_state \<Rightarrow> bool" for mx disc where
  reach_init: "mdl_reachable mx disc mdl_init"
| reach_step: "mdl_reachable mx disc s \<Longrightarrow> mdl_step mx disc s s' \<Longrightarrow> mdl_reachable mx disc s'"

lemma mdl_init_inv: "mdl_inv mdl_init"
proof -
  have l: "tl_list (m_granted l) = [] \<and> tl_list (m_waiting l) = [] \<and> lk_key l = k \<and> preallocated k \<and> lock_ok tk l"
    if "mdl_map_init k = Some l" for k l tk
    using that lock_ok_new [of tk k]
    by (auto simp: mdl_map_init_def preallocated_def global_key_def commit_key_def new_lock_def split: if_splits)
  have n: "\<not> granted_in mdl_init t" "\<not> waiting_in mdl_init t" for t
    using l by (auto simp: granted_in_def waiting_in_def mdl_init_def split: option.splits)
  have "inv_locks mdl_init" using l by (simp add: inv_locks_def mdl_init_def)
  moreover have "inv_tickets mdl_init" using n by (simp add: inv_tickets_def) (simp add: mdl_init_def held_def Let_def)
  moreover have "inv_ctx mdl_init" by (simp add: inv_ctx_def ctx_ok_def mdl_init_def)
  moreover have "inv_progress {} mdl_init"
    using l by (simp add: inv_progress_def mdl_init_def weak_stuck_def)
  ultimately show ?thesis by (simp add: mdl_inv_but_def)
qed

lemma short_wait_inv:
  assumes inv: "mdl_inv s" and f: "st_frame s c = Some f" and con: "is_connected"
  shows "mdl_inv (acquire_lock_short_wait s c f is_killed is_connected)"
proof -
  obtain ws' st where w: "timed_wait (st_ws s) c is_killed False = (ws', st)" by fastforce
  note i = timed_wait_inv [OF inv w]
  show ?thesis
    using i(1) set_wait_status_inv [OF i(1), of c f] f con by (simp add: acquire_lock_short_wait_def w i(2))
qed

lemma long_wait_inv:
  assumes inv: "mdl_inv s" and f: "st_frame s c = Some f"
  shows "mdl_inv (acquire_lock_long_wait s c f is_killed)"
proof -
  obtain ws' st where w: "timed_wait (st_ws s) c is_killed True = (ws', st)" by fastforce
  note i = timed_wait_inv [OF inv w]
  show ?thesis
    using set_wait_status_inv [OF i(1), of c f] f by (simp add: acquire_lock_long_wait_def w i(2))
qed

lemma try_acquire_lock_inv: "mdl_inv s \<Longrightarrow> mdl_inv (fst (try_acquire_lock s c r alloc))"
proof -
  assume inv: "mdl_inv s"
  obtain s' res where e: "try_acquire_lock_impl s c r alloc = (s', res)" by fastforce
  show ?thesis
    using try_acquire_lock_impl_inv(1) [OF inv e] by (cases res) (simp_all add: try_acquire_lock_def e)
qed

lemma mdl_step_inv:
  assumes "mdl_step mx False s s'" "mdl_inv s"
  shows "mdl_inv s'"
  using assms
proof (cases rule: mdl_step.cases)
  case (step_victim c t)
  then show ?thesis
    using slot_message_inv [OF assms(2) _ _ refl, of c VICTIM] assms(2) by (auto simp: set_status_def)
next
  case (step_end c f)
  then show ?thesis using acquire_lock_end_inv [OF assms(2) step_end(1,2), of mx] by auto
next
  case (step_upgrade c t x ty is_new)
  then show ?thesis
    using upgrade_merge_inv [OF assms(2) step_upgrade(3,4,5,6)]
    by (auto simp: upgrade_request_def split: if_splits)
qed (use assms(2) in \<open>auto intro: try_acquire_lock_inv acquire_lock_begin_inv short_wait_inv long_wait_inv
       release_lock_inv downgrade_lock_inv set_lock_duration_inv set_explicit_inv set_transaction_inv\<close>)

lemma mdl_reachable_inv: "mdl_reachable mx False s \<Longrightarrow> mdl_inv s"
  by (induction rule: mdl_reachable.induct) (auto intro: mdl_init_inv mdl_step_inv)

section \<open>What holds in every reachable state\<close>

definition sreq :: "enum_mdl_type \<Rightarrow> MDL_request" where
  "sreq ty = \<lparr>rq_key = sample_key, rq_type = ty, rq_duration = MDL_TRANSACTION\<rparr>"

definition shared_run :: mdl_state where
  "shared_run = fst (try_acquire_lock (fst (try_acquire_lock mdl_init 0 (sreq MDL_SHARED) Alloc_ok))
     1 (sreq MDL_SHARED) Alloc_ok)"

definition blocked_run :: mdl_state where
  "blocked_run = acquire_lock_begin (fst (try_acquire_lock mdl_init 0 (sreq MDL_EXCLUSIVE) Alloc_ok))
     1 (sreq MDL_SHARED) Alloc_ok"

lemma try_reachable:
  "mdl_reachable mx disc s \<Longrightarrow> st_frame s c = None \<Longrightarrow> mdl_reachable mx disc (fst (try_acquire_lock s c r alloc))"
  by (rule reach_step [OF _ step_try])

lemma begin_reachable:
  "mdl_reachable mx disc s \<Longrightarrow> st_frame s c = None \<Longrightarrow> mdl_reachable mx disc (acquire_lock_begin s c r alloc)"
  by (rule reach_step [OF _ step_begin])

lemma shared_run_reachable: "mdl_reachable mx disc shared_run"
  unfolding shared_run_def by (intro try_reachable reach_init) code_simp+

lemma blocked_run_reachable: "mdl_reachable mx disc blocked_run"
  unfolding blocked_run_def by (intro try_reachable begin_reachable reach_init) code_simp+





lemma acquire_lock_end_fields:
  assumes "acquire_lock_end mx s c f = Some s'"
  shows "st_tk s' = st_tk s" "m_waiting_for s' = (m_waiting_for s)(c := None)"
    and "m_tickets s' = (if fr_wait_status f = GRANTED
      then (m_tickets s)(c := (m_tickets s c)(rq_duration (fr_request f) := fr_ticket f # m_tickets s c (rq_duration (fr_request f))))
      else m_tickets s)"
  using assms by (auto simp: acquire_lock_end_def lock_remove_ticket_def push_front_def put_lock_def Let_def
      split: if_splits option.splits)


definition granted_run :: mdl_state where
  "granted_run = acquire_lock_long_wait (release_lock 10 blocked_run 0 MDL_TRANSACTION 0) 1
     \<lparr>fr_request = sreq MDL_SHARED, fr_ticket = 1, fr_wait_status = EMPTY\<rparr> False"

lemma granted_run_reachable: "mdl_reachable 10 disc granted_run"
  unfolding granted_run_def
proof (rule reach_step, rule reach_step [OF blocked_run_reachable], rule step_release)
  show "st_frame blocked_run 0 = None" "0 \<in> set (m_tickets blocked_run 0 MDL_TRANSACTION)" by code_simp+
qed (rule step_long_wait, code_simp+)


definition race_frame :: wait_frame where
  "race_frame = \<lparr>fr_request = sreq MDL_SHARED, fr_ticket = 1, fr_wait_status = EMPTY\<rparr>"

definition race_run :: mdl_state where
  "race_run = release_lock 10 (acquire_lock_short_wait blocked_run 1 race_frame False False) 0 MDL_TRANSACTION 0"

text \<open>C29: The one way out of the wait that does not close the slot is unsafe: when the client of a waiting
  request is found disconnected, the call gives up with \<open>TIMEOUT\<close> while its slot is still empty, another
  context's release can grant the ticket before the call takes it off the waiting
  list, and the call then removes from the waiting list a ticket that is on the granted list.\<close>

theorem disconnect_race:
  "mdl_reachable 10 True race_run \<and> st_frame race_run 1 = Some (race_frame\<lparr>fr_wait_status := TIMEOUT\<rparr>) \<and>
   granted_in race_run 1 \<and> acquire_lock_end 10 race_run 1 (race_frame\<lparr>fr_wait_status := TIMEOUT\<rparr>) = None"
proof (intro conjI)
  have a: "mdl_reachable 10 True (acquire_lock_short_wait blocked_run 1 race_frame False False)"
    by (rule reach_step [OF blocked_run_reachable step_short_wait]) code_simp+
  show "mdl_reachable 10 True race_run"
    unfolding race_run_def by (rule reach_step [OF a step_release]) code_simp+
  show "st_frame race_run 1 = Some (race_frame\<lparr>fr_wait_status := TIMEOUT\<rparr>)" "granted_in race_run 1" by code_simp+
  have "Option.is_none (acquire_lock_end 10 race_run 1 (race_frame\<lparr>fr_wait_status := TIMEOUT\<rparr>))" by code_simp
  then show "acquire_lock_end 10 race_run 1 (race_frame\<lparr>fr_wait_status := TIMEOUT\<rparr>) = None" by (simp add: Option.is_none_def)
qed

end
