(* ===== verification/Mdl_Tickets.thy ===== *)
theory Mdl_Tickets
  imports Mdl_Steps
begin

text \<open>
  What the calls of a context promise about its own tickets: finding a ticket that is strong
  enough, trying to acquire a lock, rolling back to a savepoint, and changing durations.
\<close>

section \<open>Finding a ticket\<close>

definition serves :: "mdl_state \<Rightarrow> MDL_request \<Rightarrow> ticket_id \<Rightarrow> bool" where
  "serves s r t \<longleftrightarrow> m_lock (st_tk s t) = rq_key r \<and> has_stronger_or_equal_type (st_tk s t) (rq_type r)"

lemma find_serves:
  "find (\<lambda>t. rq_key r = m_lock (st_tk s t) \<and> has_stronger_or_equal_type (st_tk s t) (rq_type r)) ts = find (serves s r) ts"
  by (rule arg_cong [where f = "\<lambda>P. find P ts"]) (auto simp: serves_def fun_eq_iff)

lemma durations_cover:
  "duration_of ((duration_index d + 0) mod 3) = d"
  "e = duration_of ((duration_index d + 0) mod 3) \<or> e = duration_of ((duration_index d + 1) mod 3) \<or>
   e = duration_of ((duration_index d + 2) mod 3)"
  by (cases d; cases e; simp add: duration_of_def)+

text \<open>C13: \<open>find_ticket\<close> returns a ticket of the context for the requested object whose type is
  as strong as the request, from the list of the requested duration if that list has one, and
  returns nothing only when the context has no such ticket of any duration.\<close>

theorem find_ticket_correct:
  "case find_ticket s c r of
     None \<Rightarrow> \<forall>d. \<forall>t \<in> set (m_tickets s c d). \<not> serves s r t
   | Some (t, d) \<Rightarrow> t \<in> set (m_tickets s c d) \<and> serves s r t \<and>
       (d = rq_duration r \<or> (\<forall>t' \<in> set (m_tickets s c (rq_duration r)). \<not> serves s r t'))"
proof -
  define d0 d1 d2 where d: "d0 = duration_of ((duration_index (rq_duration r) + 0) mod 3)"
    "d1 = duration_of ((duration_index (rq_duration r) + 1) mod 3)"
    "d2 = duration_of ((duration_index (rq_duration r) + 2) mod 3)"
  have d0: "d0 = rq_duration r" using durations_cover(1) d by simp
  have all: "e = d0 \<or> e = d1 \<or> e = d2" for e using durations_cover(2) [of e "rq_duration r"] d by simp
  have cover: "(\<forall>d. Q d) \<longleftrightarrow> Q d0 \<and> Q d1 \<and> Q d2" for Q using all by metis
  have u: "find_ticket s c r =
     (case find (serves s r) (m_tickets s c d0) of Some t \<Rightarrow> Some (t, d0)
      | None \<Rightarrow> (case find (serves s r) (m_tickets s c d1) of Some t \<Rightarrow> Some (t, d1)
      | None \<Rightarrow> (case find (serves s r) (m_tickets s c d2) of Some t \<Rightarrow> Some (t, d2) | None \<Rightarrow> None)))"
    unfolding find_ticket_def find_ticket_loop.simps Let_def find_serves d ..
  have none: "find P xs = None \<longleftrightarrow> (\<forall>x \<in> set xs. \<not> P x)" for P and xs :: "ticket_id list"
    by (auto simp: find_None_iff)
  have some: "x \<in> set xs \<and> P x" if "find P xs = Some x" for P x and xs :: "ticket_id list"
    using that by (auto simp: find_Some_iff)
  show ?thesis
    unfolding u cover by (auto split: option.splits simp: none d0 dest!: some)
qed

theorem find_ticket_correct_witness:
  "find_ticket shared_run 0 (sreq MDL_SHARED) = Some (0, MDL_TRANSACTION) \<and> serves shared_run (sreq MDL_SHARED) 0"
proof -
  have "find_ticket shared_run 0 (sreq MDL_SHARED) = Some (0, MDL_TRANSACTION)" by code_simp
  then show ?thesis using find_ticket_correct [of shared_run 0 "sreq MDL_SHARED"] by simp
qed

section \<open>Trying to acquire a lock\<close>

lemma stronger_refl [simp]: "has_stronger_or_equal_type t (m_type t)"
  by (simp add: has_stronger_or_equal_type_def)

lemma push_front_sel [simp]:
  "st_tk (push_front s c d t) = st_tk s" "st_locks (push_front s c d t) = st_locks s"
  "m_tickets (push_front s c d t) c d = t # m_tickets s c d"
  by (simp_all add: push_front_def)

lemma grant_new_sel [simp]:
  "st_tk (grant_new s l t) = st_tk s" "m_tickets (grant_new s l t) = m_tickets s"
  by (simp_all add: grant_new_def put_lock_def)

lemma inv_lock_key: "mdl_inv s \<Longrightarrow> lk_key (find_or_insert (st_locks s) k) = lock_of_key k"
  using find_or_insert_at [of s k] inv_locksD [of s]
  by (auto simp: lock_at_def mdl_inv_but_def new_lock_def)

lemma try_granted_result:
  assumes inv: "mdl_inv s" and e: "try_acquire_lock_impl s c r alloc = (s', Try_granted t)"
  shows "t \<in> set (m_tickets s' c (rq_duration r)) \<and> has_stronger_or_equal_type (st_tk s' t) (rq_type r) \<and>
    (m_lock (st_tk s' t) = rq_key r \<or> m_lock (st_tk s' t) = lock_of_key (rq_key r))"
proof (cases "find_ticket s c r")
  case (Some p)
  obtain orig d where p: "p = (orig, d)" by fastforce
  note o = find_ticket_Some [OF Some [unfolded p]]
  show ?thesis
    using e o by (auto simp: try_acquire_lock_impl_def Some p clone_ticket_def Let_def has_stronger_or_equal_type_def
        split: if_splits option.splits prod.splits)
next
  case None
  then show ?thesis
    using e inv_lock_key [OF inv]
    by (auto simp: try_acquire_lock_impl_def Let_def has_stronger_or_equal_type_def split: if_splits)
qed

lemma try_conflict_result:
  assumes inv: "mdl_inv s" and e: "try_acquire_lock_impl s c r alloc = (s', Try_conflict t)"
  shows "st_locks s' = st_locks s \<and> m_tickets s' = m_tickets s \<and> st_ws s' = st_ws s \<and> st_frame s' = st_frame s"
proof -
  have None: "find_ticket s c r = None" and ok: "alloc = Alloc_ok"
    using e by (auto simp: try_acquire_lock_impl_def split: option.splits if_splits prod.splits)
  define l where "l = find_or_insert (st_locks s) (rq_key r)"
  define s1 where "s1 = ticket_create s c (rq_type r) (lk_key l)"
  note n = try_acquire_new [OF inv l_def s1_def]
  have "s' = put_lock s1 l" "\<not> can_grant_lock (st_tk s1) l (rq_type r) c False"
    using e None ok unfolding try_acquire_lock_impl_def Let_def l_def [symmetric] s1_def [symmetric]
    by (auto split: if_splits)
  then show ?thesis using n(6) by (simp add: put_lock_same s1_def)
qed



section \<open>Releasing many tickets\<close>

lemma release_lock_fields:
  "m_tickets (release_lock mx s c d t) = (m_tickets s)(c := (m_tickets s c)(d := remove1 t (m_tickets s c d)))"
  "st_tk (release_lock mx s c d t) = st_tk s"
  "m_waiting_for (release_lock mx s c d t) = m_waiting_for s"
  by (simp_all add: release_lock_def tickets_remove_def lock_remove_ticket_def put_lock_def split: option.splits)

text \<open>The loop of \<open>release_locks_stored_before\<close> releases what is stored before the sentinel, that is, what
  was pushed to the front of the list since the sentinel was its front.\<close>

lemma release_loop_spec:
  assumes "mdl_inv s" "m_tickets s c d = xs @ ys" "sentinel = front ys"
  shows "mdl_inv (release_loop mx c d sentinel (xs @ ys) s)"
    and "m_tickets (release_loop mx c d sentinel (xs @ ys) s) = (m_tickets s)(c := (m_tickets s c)(d := ys))"
    and "st_tk (release_loop mx c d sentinel (xs @ ys) s) = st_tk s"
    and "m_waiting_for (release_loop mx c d sentinel (xs @ ys) s) = m_waiting_for s"
proof -
  have "mdl_inv (release_loop mx c d sentinel (xs @ ys) s) \<and>
      m_tickets (release_loop mx c d sentinel (xs @ ys) s) = (m_tickets s)(c := (m_tickets s c)(d := ys)) \<and>
      st_tk (release_loop mx c d sentinel (xs @ ys) s) = st_tk s \<and>
      m_waiting_for (release_loop mx c d sentinel (xs @ ys) s) = m_waiting_for s"
    using assms
  proof (induction xs arbitrary: s)
    case Nil
    have "release_loop mx c d sentinel ys s = s" using Nil(3) by (cases ys) (simp_all add: front_def)
    moreover have "(m_tickets s)(c := (m_tickets s c)(d := ys)) = m_tickets s" using Nil(2) by auto
    ultimately show ?case using Nil(1) by (simp only: append_Nil simp_thms)
  next
    case (Cons t xs)
    have dist: "distinct (t # xs @ ys)"
      using inv_ctxD(1) [of s c d] Cons.prems(1,2) by (simp add: mdl_inv_but_def)
    then have ne: "Some t \<noteq> sentinel" using Cons.prems(3) by (auto simp: front_def split: list.splits)
    let ?s1 = "release_lock mx s c d t"
    have i: "mdl_inv ?s1" by (rule release_lock_inv [OF Cons.prems(1)]) (simp add: Cons.prems(2))
    have m: "m_tickets ?s1 c d = xs @ ys" using Cons.prems(2) by (simp add: release_lock_fields)
    have u: "(m_tickets ?s1)(c := (m_tickets ?s1 c)(d := ys)) = (m_tickets s)(c := (m_tickets s c)(d := ys))"
      by (auto simp: release_lock_fields)
    have e: "release_loop mx c d sentinel ((t # xs) @ ys) s = release_loop mx c d sentinel (xs @ ys) ?s1"
      using ne by simp
    show ?case
      using Cons.IH [OF i m Cons.prems(3)] unfolding e u release_lock_fields(2,3) .
  qed
  then show "mdl_inv (release_loop mx c d sentinel (xs @ ys) s)"
    and "m_tickets (release_loop mx c d sentinel (xs @ ys) s) = (m_tickets s)(c := (m_tickets s c)(d := ys))"
    and "st_tk (release_loop mx c d sentinel (xs @ ys) s) = st_tk s"
    and "m_waiting_for (release_loop mx c d sentinel (xs @ ys) s) = m_waiting_for s" by auto
qed

lemma rollback_spec:
  assumes inv: "mdl_inv s" and m: "m_tickets s c MDL_STATEMENT = new1 @ old1" "m_tickets s c MDL_TRANSACTION = new2 @ old2"
    and svp: "m_stmt_ticket svp = front old1" "m_trans_ticket svp = front old2"
  shows "mdl_inv (rollback_to_savepoint mx s c svp)"
    and "m_tickets (rollback_to_savepoint mx s c svp) =
      (m_tickets s)(c := (m_tickets s c)(MDL_STATEMENT := old1, MDL_TRANSACTION := old2))"
    and "st_tk (rollback_to_savepoint mx s c svp) = st_tk s"
    and "m_waiting_for (rollback_to_savepoint mx s c svp) = m_waiting_for s"
proof -
  define s1 where "s1 = release_loop mx c MDL_STATEMENT (front old1) (new1 @ old1) s"
  note a = release_loop_spec [OF inv m(1) refl, of mx, folded s1_def]
  have m2: "m_tickets s1 c MDL_TRANSACTION = new2 @ old2" using m(2) by (simp add: a(2))
  note b = release_loop_spec [OF a(1) m2 refl, of mx]
  have e: "rollback_to_savepoint mx s c svp = release_loop mx c MDL_TRANSACTION (front old2) (new2 @ old2) s1"
    by (simp add: rollback_to_savepoint_def release_locks_stored_before_def svp m(1) flip: s1_def) (simp add: m2)
  show "mdl_inv (rollback_to_savepoint mx s c svp)"
    "st_tk (rollback_to_savepoint mx s c svp) = st_tk s"
    "m_waiting_for (rollback_to_savepoint mx s c svp) = m_waiting_for s"
    unfolding e using a b by auto
  show "m_tickets (rollback_to_savepoint mx s c svp) =
      (m_tickets s)(c := (m_tickets s c)(MDL_STATEMENT := old1, MDL_TRANSACTION := old2))"
    unfolding e b(2) a(2) by simp
qed

text \<open>C9: Rolling back to a savepoint releases exactly the statement and transaction locks
  acquired since it was taken: the two lists are what they were, every newer ticket is off its
  lock, explicit locks and other contexts' lists are untouched, and every ticket that stays is
  still granted.\<close>

theorem rollback_to_savepoint_correct:
  assumes "mdl_reachable max_write_lock_count False s"
    and "m_tickets s c MDL_STATEMENT = new1 @ m_tickets s0 c MDL_STATEMENT"
    and "m_tickets s c MDL_TRANSACTION = new2 @ m_tickets s0 c MDL_TRANSACTION"
    and "s' = rollback_to_savepoint max_write_lock_count s c (mdl_savepoint s0 c)"
  shows "m_tickets s' c MDL_STATEMENT = m_tickets s0 c MDL_STATEMENT \<and>
    m_tickets s' c MDL_TRANSACTION = m_tickets s0 c MDL_TRANSACTION \<and>
    m_tickets s' c MDL_EXPLICIT = m_tickets s c MDL_EXPLICIT \<and>
    (\<forall>c'. c' \<noteq> c \<longrightarrow> m_tickets s' c' = m_tickets s c') \<and>
    (\<forall>t \<in> set new1 \<union> set new2. \<not> granted_in s' t) \<and> (\<forall>t \<in> held s' c. granted_in s' t)"
proof -
  note inv = mdl_reachable_inv [OF assms(1)]
  note r = rollback_spec [OF inv assms(2,3), of "mdl_savepoint s0 c" max_write_lock_count, folded assms(4)]
  have sv: "m_stmt_ticket (mdl_savepoint s0 c) = front (m_tickets s0 c MDL_STATEMENT)"
    "m_trans_ticket (mdl_savepoint s0 c) = front (m_tickets s0 c MDL_TRANSACTION)" by (simp_all add: mdl_savepoint_def)
  note q = r(1) [OF sv] r(2) [OF sv] r(3) [OF sv] r(4) [OF sv]
  note ctx = inv_ctxD [of s]
  have gone: "\<not> granted_in s' t" if t: "t \<in> set new1 \<union> set new2" for t
  proof -
    have h: "t \<in> held s c" using t assms(2,3) in_held [of t s c MDL_STATEMENT] in_held [of t s c MDL_TRANSACTION] by auto
    have p: "m_ctx (st_tk s t) = c" "m_waiting_for s c \<noteq> Some t"
      using ctx(3,4) [OF _ h] inv by (auto simp: mdl_inv_but_def)
    have all: "distinct (all_tickets (m_tickets s c))"
      using inv by (auto simp: mdl_inv_but_def inv_ctx_def ctx_ok_all)
    have "t \<notin> set (all_tickets (m_tickets s' c))"
      using all t assms(2,3) q(2) by (auto simp: all_tickets_def)
    then have "t \<notin> held s' c" by (simp add: held_def set_all_tickets)
    then show ?thesis
      using inv_tickets_granted [of s' t] q p by (simp add: mdl_inv_but_def)
  qed
  show ?thesis
    using gone q(2) held_granted [OF q(1)] by auto
qed

definition two_locks :: mdl_state where
  "two_locks = fst (try_acquire_lock shared_run 0
     \<lparr>rq_key = [namespace_byte TABLE, 1, 0, 0], rq_type = MDL_EXCLUSIVE, rq_duration = MDL_TRANSACTION\<rparr> Alloc_ok)"

theorem rollback_to_savepoint_correct_witness:
  "m_tickets two_locks 0 MDL_TRANSACTION = [2, 0] \<and>
   m_tickets (rollback_to_savepoint 10 two_locks 0 (mdl_savepoint shared_run 0)) 0 MDL_TRANSACTION = [0] \<and>
   \<not> granted_in (rollback_to_savepoint 10 two_locks 0 (mdl_savepoint shared_run 0)) 2"
proof -
  have reach: "mdl_reachable 10 False two_locks"
    unfolding two_locks_def by (rule try_reachable [OF shared_run_reachable]) code_simp
  have m: "m_tickets two_locks 0 MDL_STATEMENT = [] @ m_tickets shared_run 0 MDL_STATEMENT"
    "m_tickets two_locks 0 MDL_TRANSACTION = [2] @ m_tickets shared_run 0 MDL_TRANSACTION"
    "m_tickets shared_run 0 MDL_TRANSACTION = [0]" by code_simp+
  show ?thesis
    using rollback_to_savepoint_correct [OF reach m(1,2) refl] m(2,3) by simp
qed

text \<open>C14: Making all locks of a context explicit, or all transactional, loses and duplicates no
  ticket: afterwards they are all on the one list, and nothing else has changed.\<close>

theorem set_duration_for_all_locks_correct:
  "m_tickets (set_explicit_duration_for_all_locks s c) c MDL_STATEMENT = [] \<and>
   m_tickets (set_explicit_duration_for_all_locks s c) c MDL_TRANSACTION = [] \<and>
   mset (m_tickets (set_explicit_duration_for_all_locks s c) c MDL_EXPLICIT) = mset (all_tickets (m_tickets s c)) \<and>
   (m_tickets s c MDL_STATEMENT = [] \<longrightarrow>
     m_tickets (set_transaction_duration_for_all_locks s c) c MDL_EXPLICIT = [] \<and>
     mset (m_tickets (set_transaction_duration_for_all_locks s c) c MDL_TRANSACTION) = mset (all_tickets (m_tickets s c))) \<and>
   st_locks (set_explicit_duration_for_all_locks s c) = st_locks s"
  by (simp add: set_explicit_eq set_transaction_eq all_tickets_def)

theorem set_duration_for_all_locks_correct_witness:
  "m_tickets shared_run 0 MDL_STATEMENT = [] \<and>
   mset (m_tickets (set_transaction_duration_for_all_locks shared_run 0) 0 MDL_TRANSACTION) =
     mset (all_tickets (m_tickets shared_run 0))"
proof -
  have "m_tickets shared_run 0 MDL_STATEMENT = []" by code_simp
  then show ?thesis using set_duration_for_all_locks_correct [of shared_run 0] by simp
qed

end
