(* ===== verification/Mdl_Deadlock.thy ===== *)
theory Mdl_Deadlock
  imports Mdl_Steps
begin

text \<open>
  The deadlock detector of the metadata locking subsystem (\<open>Deadlock_detection_visitor\<close>,
  \<open>visit_subgraph\<close> and \<open>find_deadlock\<close> in \<open>sql/mdl.cc\<close>): a depth-first search of the wait-for
  graph, on a snapshot of the state, without a set of visited nodes and cut off at depth 32, and the loop that
  chooses victims until the search finds nothing.
\<close>

section \<open>The visitor\<close>

definition MAX_SEARCH_DEPTH :: nat where
  "MAX_SEARCH_DEPTH = 32"

record deadlock_visitor =
  m_start_node :: ctx_id
  m_victim :: "ctx_id option"
  m_current_search_depth :: nat
  m_found_deadlock :: bool

definition new_visitor :: "ctx_id \<Rightarrow> deadlock_visitor" where
  "new_visitor c = \<lparr>m_start_node = c, m_victim = None, m_current_search_depth = 0, m_found_deadlock = False\<rparr>"

definition ticket_deadlock_weight :: "MDL_ticket \<Rightarrow> nat" where
  "ticket_deadlock_weight t =
     (if m_lock t ! 0 = namespace_byte GLOBAL \<or> m_type t \<ge> MDL_SHARED_UPGRADABLE then 100 else 0)"

definition ctx_deadlock_weight :: "mdl_state \<Rightarrow> ctx_id \<Rightarrow> nat" where
  "ctx_deadlock_weight s c =
     (case m_waiting_for s c of Some t \<Rightarrow> ticket_deadlock_weight (st_tk s t) | None \<Rightarrow> 0)"

definition opt_change_victim_to :: "mdl_state \<Rightarrow> deadlock_visitor \<Rightarrow> ctx_id \<Rightarrow> deadlock_visitor" where
  "opt_change_victim_to s v new_victim =
     (case m_victim v of
        None \<Rightarrow> v\<lparr>m_victim := Some new_victim\<rparr>
      | Some w \<Rightarrow> if ctx_deadlock_weight s w \<ge> ctx_deadlock_weight s new_victim
                  then v\<lparr>m_victim := Some new_victim\<rparr> else v)"

definition enter_node :: "mdl_state \<Rightarrow> deadlock_visitor \<Rightarrow> ctx_id \<Rightarrow> bool \<times> deadlock_visitor" where
  "enter_node s v node =
     (let depth = m_current_search_depth v + 1;
          found = (depth \<ge> MAX_SEARCH_DEPTH);
          v1 = v\<lparr>m_current_search_depth := depth, m_found_deadlock := found\<rparr>
      in (found, if found then opt_change_victim_to s v1 node else v1))"

definition leave_node :: "mdl_state \<Rightarrow> deadlock_visitor \<Rightarrow> ctx_id \<Rightarrow> deadlock_visitor" where
  "leave_node s v node =
     (let v1 = v\<lparr>m_current_search_depth := m_current_search_depth v - 1\<rparr>
      in if m_found_deadlock v1 then opt_change_victim_to s v1 node else v1)"

definition inspect_edge :: "deadlock_visitor \<Rightarrow> ctx_id \<Rightarrow> bool \<times> deadlock_visitor" where
  "inspect_edge v node = (node = m_start_node v, v\<lparr>m_found_deadlock := (node = m_start_node v)\<rparr>)"

section \<open>The search\<close>

text \<open>The contexts a waiting ticket is held up by: owners of incompatible granted tickets, then of
  pending tickets of higher priority, in the order of the two lists.\<close>

definition edge_targets :: "mdl_state \<Rightarrow> MDL_lock \<Rightarrow> ticket_id \<Rightarrow> ctx_id list" where
  "edge_targets s l waiting_ticket =
     (let tk = st_tk s; src_ctx = m_ctx (tk waiting_ticket); ty = m_type (tk waiting_ticket) in
      map (\<lambda>t. m_ctx (tk t))
        (filter (\<lambda>t. m_ctx (tk t) \<noteq> src_ctx \<and> is_incompatible_when_granted (tk t) ty) (tl_list (m_granted l)) @
         filter (\<lambda>t. m_ctx (tk t) \<noteq> src_ctx \<and> is_incompatible_when_waiting (tk t) ty) (tl_list (m_waiting l))))"

fun inspect_edges :: "ctx_id list \<Rightarrow> deadlock_visitor \<Rightarrow> bool \<times> deadlock_visitor" where
  "inspect_edges [] v = (False, v)"
| "inspect_edges (n # ns) v =
     (case inspect_edge v n of (True, v') \<Rightarrow> (True, v') | (False, v') \<Rightarrow> inspect_edges ns v')"

fun visit_nodes ::
    "(ctx_id \<Rightarrow> deadlock_visitor \<Rightarrow> bool \<times> deadlock_visitor) \<Rightarrow> ctx_id list \<Rightarrow> deadlock_visitor \<Rightarrow> bool \<times> deadlock_visitor" where
  "visit_nodes visit [] v = (False, v)"
| "visit_nodes visit (n # ns) v =
     (case visit n v of (True, v') \<Rightarrow> (True, v') | (False, v') \<Rightarrow> visit_nodes visit ns v')"

definition lock_visit_subgraph ::
    "(ctx_id \<Rightarrow> deadlock_visitor \<Rightarrow> bool \<times> deadlock_visitor) \<Rightarrow> mdl_state \<Rightarrow> ticket_id \<Rightarrow>
     deadlock_visitor \<Rightarrow> bool \<times> deadlock_visitor" where
  "lock_visit_subgraph visit s waiting_ticket v =
     (case st_locks s (m_lock (st_tk s waiting_ticket)) of
        None \<Rightarrow> (False, v)
      | Some l \<Rightarrow>
          let src_ctx = m_ctx (st_tk s waiting_ticket); targets = edge_targets s l waiting_ticket in
          if st_ws s src_ctx \<noteq> EMPTY then (False, v)
          else case enter_node s v src_ctx of
            (True, v1) \<Rightarrow> (True, v1)
          | (False, v1) \<Rightarrow>
              (case inspect_edges targets v1 of
                 (True, v2) \<Rightarrow> (True, leave_node s v2 src_ctx)
               | (False, v2) \<Rightarrow>
                   (case visit_nodes visit targets v2 of (result, v3) \<Rightarrow> (result, leave_node s v3 src_ctx))))"

text \<open>The recursion is bounded by the search depth; \<open>n\<close> is fuel for it.\<close>

primrec visit_subgraph :: "nat \<Rightarrow> mdl_state \<Rightarrow> ctx_id \<Rightarrow> deadlock_visitor \<Rightarrow> bool \<times> deadlock_visitor" where
  "visit_subgraph 0 s c v = (False, v)"
| "visit_subgraph (Suc n) s c v =
     (case m_waiting_for s c of None \<Rightarrow> (False, v)
      | Some t \<Rightarrow> lock_visit_subgraph (visit_subgraph n s) s t v)"

text \<open>\<open>find_deadlock\<close>; \<open>None\<close> would mean that its loop does not end.\<close>

partial_function (option) find_deadlock :: "mdl_state \<Rightarrow> ctx_id \<Rightarrow> mdl_state option" where
  "find_deadlock s c =
     (case visit_subgraph MAX_SEARCH_DEPTH s c (new_visitor c) of
        (found, v) \<Rightarrow>
          if \<not> found then Some s
          else (case m_victim v of
             None \<Rightarrow> None
           | Some victim \<Rightarrow>
               let s' = s\<lparr>st_ws := fst (set_status (st_ws s) victim VICTIM)\<rparr> in
               if victim = c then Some s' else find_deadlock s' c))"

section \<open>The wait-for graph\<close>

text \<open>A context is active when it waits with an empty slot; \<open>waits_on\<close> are the contexts it waits for.\<close>

definition active :: "mdl_state \<Rightarrow> ctx_id \<Rightarrow> bool" where
  "active s c \<longleftrightarrow> m_waiting_for s c \<noteq> None \<and> st_ws s c = EMPTY"

definition waits_on :: "mdl_state \<Rightarrow> ctx_id \<Rightarrow> ctx_id list" where
  "waits_on s c =
     (case m_waiting_for s c of None \<Rightarrow> []
      | Some t \<Rightarrow> (case st_locks s (m_lock (st_tk s t)) of None \<Rightarrow> [] | Some l \<Rightarrow> edge_targets s l t))"

definition wait_graph :: "mdl_state \<Rightarrow> (ctx_id \<times> ctx_id) set" where
  "wait_graph s = {(a, b). active s a \<and> b \<in> set (waits_on s a)}"

definition waits_ok :: "mdl_state \<Rightarrow> bool" where
  "waits_ok s \<longleftrightarrow> (\<forall>c t. m_waiting_for s c = Some t \<longrightarrow>
     m_ctx (st_tk s t) = c \<and> st_locks s (m_lock (st_tk s t)) \<noteq> None)"

lemma mdl_inv_waits_ok: "mdl_inv s \<Longrightarrow> waits_ok s"
proof -
  assume inv: "mdl_inv s"
  note d = inv [unfolded mdl_inv_but_def]
  have "m_ctx (st_tk s t) = c \<and> st_locks s (m_lock (st_tk s t)) \<noteq> None" if w: "m_waiting_for s c = Some t" for c t
  proof -
    have c: "m_ctx (st_tk s t) = c" using inv_ctxD(5) [OF _ w] d by blast
    then have "granted_in s t \<or> waiting_in s t"
      using inv_tickets_granted [of s t] inv_tickets_waiting [of s t] d w by auto
    then show ?thesis using c by (auto simp: granted_in_def waiting_in_def split: option.splits)
  qed
  then show ?thesis by (simp add: waits_ok_def)
qed

text \<open>What the search decides, as a predicate: within \<open>n\<close> more nodes it comes back to
  the start node \<open>a\<close>, or runs into the depth limit.\<close>

primrec deadlock_within :: "nat \<Rightarrow> mdl_state \<Rightarrow> ctx_id \<Rightarrow> ctx_id \<Rightarrow> bool" where
  "deadlock_within 0 s a x = False"
| "deadlock_within (Suc n) s a x =
     (active s x \<and> (n = 0 \<or> a \<in> set (waits_on s x) \<or> (\<exists>y \<in> set (waits_on s x). deadlock_within n s a y)))"

section \<open>The search is exact\<close>

text \<open>The visitor while nothing has been found, with \<open>n\<close> levels left, and once a deadlock is found.\<close>

definition searching :: "nat \<Rightarrow> ctx_id \<Rightarrow> deadlock_visitor \<Rightarrow> bool" where
  "searching n a v \<longleftrightarrow> m_start_node v = a \<and> m_victim v = None \<and> \<not> m_found_deadlock v \<and>
     m_current_search_depth v + n = MAX_SEARCH_DEPTH"

definition found_below :: "mdl_state \<Rightarrow> ctx_id \<Rightarrow> deadlock_visitor \<Rightarrow> bool" where
  "found_below s x v \<longleftrightarrow> m_found_deadlock v \<and>
     (\<exists>w. m_victim v = Some w \<and> active s w \<and> ctx_deadlock_weight s w \<le> ctx_deadlock_weight s x)"

lemma inspect_edges_result:
  assumes "m_start_node v = a" "\<not> m_found_deadlock v"
  shows "inspect_edges ns v = (a \<in> set ns, v\<lparr>m_found_deadlock := (a \<in> set ns)\<rparr>)"
  using assms by (induction ns arbitrary: v) (auto simp: inspect_edge_def split: bool.splits)

lemma visit_nodes_result:
  assumes "\<And>n v. n \<in> set ns \<Longrightarrow> P v \<Longrightarrow> (case visit n v of (r, v') \<Rightarrow> r = D n \<and> (if r then Q v' else P v'))" "P v"
  shows "case visit_nodes visit ns v of (r, v') \<Rightarrow> r = (\<exists>n \<in> set ns. D n) \<and> (if r then Q v' else P v')"
  using assms
proof (induction ns arbitrary: v)
  case Nil
  then show ?case by simp
next
  case (Cons n ns)
  obtain r v' where e: "visit n v = (r, v')" by fastforce
  have h: "r = D n \<and> (if r then Q v' else P v')" using Cons.prems(1) [of n v] Cons.prems(2) e by simp
  show ?case
  proof (cases r)
    case True
    then show ?thesis using h e by simp
  next
    case False
    then show ?thesis using h e Cons.IH [of v'] Cons.prems(1) by (auto split: prod.splits)
  qed
qed

lemma leave_found:
  assumes "m_found_deadlock v" "active s x"
    "\<And>w. m_victim v = Some w \<Longrightarrow> active s w"
  shows "found_below s x (leave_node s v x)"
  using assms by (auto simp: leave_node_def opt_change_victim_to_def found_below_def Let_def split: option.splits)

lemma leave_searching:
  "searching n a v \<Longrightarrow> n < MAX_SEARCH_DEPTH \<Longrightarrow> searching (Suc n) a (leave_node s v x)"
  by (auto simp: leave_node_def searching_def Let_def)

lemma enter_searching:
  assumes "searching (Suc n) a v"
  shows "if n = 0 then fst (enter_node s v x) \<and> m_found_deadlock (snd (enter_node s v x)) \<and> m_victim (snd (enter_node s v x)) = Some x
    else \<not> fst (enter_node s v x) \<and> searching n a (snd (enter_node s v x))"
  using assms by (auto simp: enter_node_def searching_def Let_def opt_change_victim_to_def)

text \<open>One node of the search, given the search of the nodes after it.\<close>

lemma lock_visit_subgraph_result:
  assumes v: "searching (Suc n) a v" and x: "active s x" "m_waiting_for s x = Some t" "m_ctx (st_tk s t) = x"
    "st_locks s (m_lock (st_tk s t)) = Some l"
    and IH: "\<And>y v. n \<noteq> 0 \<Longrightarrow> searching n a v \<Longrightarrow> (case visit y v of (r, v') \<Rightarrow>
      r = deadlock_within n s a y \<and> (if r then found_below s y v' else searching n a v'))"
  shows "case lock_visit_subgraph visit s t v of (r, v') \<Rightarrow>
    r = deadlock_within (Suc n) s a x \<and> (if r then found_below s x v' else searching (Suc n) a v')"
proof -
  have es: "edge_targets s l t = waits_on s x" using x by (simp add: waits_on_def)
  have ws: "st_ws s x = EMPTY" using x(1) by (simp add: active_def)
  obtain b v1 where en: "enter_node s v x = (b, v1)" by fastforce
  note e = enter_searching [OF v, of s x, unfolded en fst_conv snd_conv]
  have lt: "n < MAX_SEARCH_DEPTH" using v by (simp add: searching_def)
  show ?thesis
  proof (cases "n = 0")
    case True
    then show ?thesis
      using e x(1) by (simp add: lock_visit_subgraph_def x(3,4) ws en found_below_def)
  next
    case False
    then have v1: "\<not> b" "searching n a v1" using e by auto
    have ins: "inspect_edges (waits_on s x) v1 = (a \<in> set (waits_on s x), v1\<lparr>m_found_deadlock := (a \<in> set (waits_on s x))\<rparr>)"
      by (rule inspect_edges_result) (use v1(2) in \<open>auto simp: searching_def\<close>)
    show ?thesis
    proof (cases "a \<in> set (waits_on s x)")
      case True
      have "found_below s x (leave_node s (v1\<lparr>m_found_deadlock := True\<rparr>) x)"
        by (rule leave_found) (use x(1) v1(2) in \<open>auto simp: searching_def\<close>)
      then show ?thesis
        using True x(1) by (simp add: lock_visit_subgraph_def x(3,4) ws en v1(1) es ins)
    next
      case no: False
      have same: "v1\<lparr>m_found_deadlock := False\<rparr> = v1" using v1(2) by (simp add: searching_def)
      let ?Q = "\<lambda>v. m_found_deadlock v \<and> (\<exists>w. m_victim v = Some w \<and> active s w)"
      obtain r v3 where vs: "visit_nodes visit (waits_on s x) v1 = (r, v3)" by fastforce
      have "case visit_nodes visit (waits_on s x) v1 of (r, v') \<Rightarrow>
          r = (\<exists>y \<in> set (waits_on s x). deadlock_within n s a y) \<and> (if r then ?Q v' else searching n a v')"
        by (rule visit_nodes_result [where P = "searching n a"])
          (use IH [OF \<open>n \<noteq> 0\<close>] v1(2) in \<open>fastforce simp: found_below_def split: prod.splits if_splits\<close>)+
      then have r: "r = (\<exists>y \<in> set (waits_on s x). deadlock_within n s a y)" "if r then ?Q v3 else searching n a v3"
        using vs by auto
      have "if r then found_below s x (leave_node s v3 x) else searching (Suc n) a (leave_node s v3 x)"
        using r(2) leave_found [of v3 s x] leave_searching [OF _ lt] x(1) by (auto split: if_splits)
      then show ?thesis
        using no False x(1) r(1) same
        by (simp add: lock_visit_subgraph_def x(3,4) ws en v1(1) es ins vs)
    qed
  qed
qed

lemma visit_subgraph_result:
  assumes ok: "waits_ok s" and v: "searching (Suc n) a v" and m: "Suc n \<le> m"
  shows "case visit_subgraph m s x v of (r, v') \<Rightarrow>
    r = deadlock_within (Suc n) s a x \<and> (if r then found_below s x v' else searching (Suc n) a v')"
  using v m
proof (induction m arbitrary: n x v)
  case 0
  then show ?case by simp
next
  case (Suc m)
  show ?case
  proof (cases "m_waiting_for s x")
    case None
    then show ?thesis using Suc.prems by (simp add: active_def)
  next
    case (Some t)
    have w: "m_ctx (st_tk s t) = x" "st_locks s (m_lock (st_tk s t)) \<noteq> None"
      using spec [OF spec [OF ok [unfolded waits_ok_def], of x], of t] Some by auto
    then obtain l where l: "m_ctx (st_tk s t) = x" "st_locks s (m_lock (st_tk s t)) = Some l" by auto
    show ?thesis
    proof (cases "active s x")
      case True
      have "case visit_subgraph m s y v of (r, v') \<Rightarrow>
          r = deadlock_within n s a y \<and> (if r then found_below s y v' else searching n a v')"
        if "n \<noteq> 0" "searching n a v" for y v
      proof -
        from that(1) obtain k where k: "n = Suc k" using not0_implies_Suc by blast
        show ?thesis unfolding k by (rule Suc.IH) (use that(2) Suc.prems(2) k in auto)
      qed
      then show ?thesis
        using lock_visit_subgraph_result [OF Suc.prems(1) True Some l] Some by simp
    next
      case False
      then have "st_ws s x \<noteq> EMPTY" using Some by (simp add: active_def)
      then show ?thesis
        using False Suc.prems Some l by (simp add: lock_visit_subgraph_def)
    qed
  qed
qed

lemma search_result:
  assumes "waits_ok s" "visit_subgraph MAX_SEARCH_DEPTH s c (new_visitor c) = (r, v)"
  shows "r = deadlock_within MAX_SEARCH_DEPTH s c c" "r \<Longrightarrow> found_below s c v"
proof -
  have v: "searching (Suc 31) c (new_visitor c)" by (simp add: searching_def new_visitor_def MAX_SEARCH_DEPTH_def)
  have "Suc 31 = MAX_SEARCH_DEPTH" by (simp add: MAX_SEARCH_DEPTH_def)
  then show "r = deadlock_within MAX_SEARCH_DEPTH s c c" "r \<Longrightarrow> found_below s c v"
    using visit_subgraph_result [OF assms(1) v, of MAX_SEARCH_DEPTH c] assms(2) by auto
qed

text \<open>A cycle of any length is found; what is found is a cycle or a long chain of waits.\<close>

lemma cycle_within:
  assumes "(x, a) \<in> (wait_graph s)\<^sup>+"
  shows "deadlock_within (Suc n) s a x"
  using assms
proof (induction arbitrary: n rule: converse_trancl_induct)
  case (base y)
  then show ?case by (auto simp: wait_graph_def)
next
  case (step y z)
  then show ?case by (cases n) (auto simp: wait_graph_def)
qed

lemma within_cycle:
  assumes "deadlock_within (Suc n) s a x"
  shows "(x, a) \<in> (wait_graph s)\<^sup>+ \<or> (\<exists>y. (x, y) \<in> wait_graph s ^^ n \<and> active s y)"
  using assms
proof (induction n arbitrary: x)
  case 0
  then show ?case by auto
next
  case (Suc n)
  show ?case
  proof (cases "a \<in> set (waits_on s x)")
    case True
    then show ?thesis using Suc.prems by (auto simp: wait_graph_def)
  next
    case False
    then obtain y where y: "(x, y) \<in> wait_graph s" "deadlock_within (Suc n) s a y"
      using Suc.prems by (auto simp: wait_graph_def)
    then show ?thesis
      using Suc.IH [OF y(2)] relpow_Suc_I2 [OF y(1)] trancl_into_trancl2 [OF y(1)] by blast
  qed
qed

definition deadlock_run :: mdl_state where
  "deadlock_run =
     acquire_lock_begin
       (acquire_lock_begin
         (fst (try_acquire_lock shared_run 1
           \<lparr>rq_key = [namespace_byte TABLE, 1, 0, 0], rq_type = MDL_SHARED_READ, rq_duration = MDL_TRANSACTION\<rparr> Alloc_ok))
         0 \<lparr>rq_key = [namespace_byte TABLE, 1, 0, 0], rq_type = MDL_EXCLUSIVE, rq_duration = MDL_TRANSACTION\<rparr> Alloc_ok)
       1 (sreq MDL_EXCLUSIVE) Alloc_ok"

lemma deadlock_run_reachable: "mdl_reachable mx disc deadlock_run"
  unfolding deadlock_run_def by (intro begin_reachable try_reachable shared_run_reachable) code_simp+



section \<open>The loop of victims\<close>

lemma waiting_for_fields [simp]:
  "m_waiting_for (push_front s c d t) = m_waiting_for s" "m_waiting_for (put_lock s l) = m_waiting_for s"
  "m_waiting_for (tickets_remove s c d t) = m_waiting_for s" "m_waiting_for (grant_new s l t) = m_waiting_for s"
  "m_waiting_for (lock_remove_ticket mx s b t) = m_waiting_for s" "m_waiting_for (retype s t ty) = m_waiting_for s"
  "m_waiting_for (release_lock mx s c d t) = m_waiting_for s" "m_waiting_for (set_wait_status s c f st) = m_waiting_for s"
  by (simp_all add: push_front_def put_lock_def tickets_remove_def grant_new_def lock_remove_ticket_def retype_def
      release_lock_def set_wait_status_def split: option.splits)

lemma waiting_for_try: "m_waiting_for (fst (try_acquire_lock_impl s c r alloc)) = m_waiting_for s"
  by (simp add: try_acquire_lock_impl_def clone_ticket_def Let_def split: option.splits prod.splits)

lemma waiting_for_step:
  assumes "mdl_step mx disc s s'"
  shows "\<exists>c. \<forall>c'. c' \<noteq> c \<longrightarrow> m_waiting_for s' c' = m_waiting_for s c'"
  using assms
proof (cases rule: mdl_step.cases)
  case (step_try c r alloc)
  have "m_waiting_for s' = m_waiting_for s"
    using step_try waiting_for_try [of s c r alloc] by (auto simp: try_acquire_lock_def split: prod.splits try_result.splits)
  then show ?thesis by simp
next
  case (step_begin c r alloc)
  have "m_waiting_for s' c' = m_waiting_for s c'" if "c' \<noteq> c" for c'
    using step_begin that waiting_for_try [of s c r alloc]
    by (auto simp: acquire_lock_begin_def split: prod.splits try_result.splits option.splits)
  then show ?thesis by blast
next
  case (step_end c f)
  then show ?thesis using acquire_lock_end_fields(2) [OF step_end(3)] by auto
next
  case (step_downgrade c t ty)
  then show ?thesis
    by (auto simp: downgrade_lock_def requeue_granted_def Let_def split: option.splits prod.splits)
next
  case (step_upgrade c t x ty is_new)
  then show ?thesis
    by (auto simp: upgrade_merge_def requeue_granted_def Let_def split: option.splits)
qed (auto simp: acquire_lock_short_wait_def acquire_lock_long_wait_def set_lock_duration_def set_explicit_eq
      set_transaction_eq split: prod.splits)

lemma reachable_finite: "mdl_reachable mx disc s \<Longrightarrow> finite (dom (m_waiting_for s))"
proof (induction rule: mdl_reachable.induct)
  case reach_init
  then show ?case by (simp add: mdl_init_def)
next
  case (reach_step s s')
  obtain c where "\<forall>c'. c' \<noteq> c \<longrightarrow> m_waiting_for s' c' = m_waiting_for s c'"
    using waiting_for_step [OF reach_step(2)] by blast
  then have "dom (m_waiting_for s') \<subseteq> insert c (dom (m_waiting_for s))" by force
  then show ?case using reach_step(3) finite_subset by blast
qed

text \<open>Each round of the loop takes a context out of the graph, so the loop ends.\<close>

lemma find_deadlock_ends:
  assumes "mdl_reachable mx False s"
  shows "\<exists>s'. find_deadlock s c = Some s' \<and> mdl_reachable mx False s' \<and> (c, c) \<notin> (wait_graph s')\<^sup>+"
  using assms
proof (induction "card {x. active s x}" arbitrary: s rule: less_induct)
  case less
  have ok: "waits_ok s" by (rule mdl_inv_waits_ok [OF mdl_reachable_inv [OF less.prems]])
  obtain r v where e: "visit_subgraph MAX_SEARCH_DEPTH s c (new_visitor c) = (r, v)" by fastforce
  note sr = search_result [OF ok e]
  have d: "MAX_SEARCH_DEPTH = Suc 31" by (simp add: MAX_SEARCH_DEPTH_def)
  show ?case
  proof (cases r)
    case False
    then have "(c, c) \<notin> (wait_graph s)\<^sup>+" using sr(1) cycle_within [of c c s 31] d by metis
    then show ?thesis using False less.prems e by (subst find_deadlock.simps) simp
  next
    case True
    then obtain w where w: "m_victim v = Some w" "active s w" using sr(2) by (auto simp: found_below_def)
    define s' where "s' = s\<lparr>st_ws := fst (set_status (st_ws s) w VICTIM)\<rparr>"
    obtain t where "m_waiting_for s w = Some t" using w(2) by (auto simp: active_def)
    then have reach: "mdl_reachable mx False s'"
      unfolding s'_def by (rule reach_step [OF less.prems step_victim])
    have act: "{x. active s' x} = {x. active s x} - {w}"
      using w(2) by (auto simp: active_def s'_def set_status_def)
    have fin: "finite {x. active s x}"
      by (rule finite_subset [OF _ reachable_finite [OF less.prems]]) (auto simp: active_def)
    have "find_deadlock s c = (if w = c then Some s' else find_deadlock s' c)"
      using True e w(1) by (subst find_deadlock.simps) (simp add: s'_def Let_def)
    moreover have "(c, c) \<notin> (wait_graph s')\<^sup>+" if "w = c"
    proof
      assume "(c, c) \<in> (wait_graph s')\<^sup>+"
      then obtain y where "(c, y) \<in> wait_graph s'" by (meson tranclD)
      then show False using act that by (auto simp: wait_graph_def)
    qed
    moreover have "card {x. active s' x} < card {x. active s x}"
      unfolding act by (rule card_Diff1_less [OF fin]) (use w(2) in simp)
    ultimately show ?thesis using less.hyps reach by auto
  qed
qed



end
