(* ===== verification/Bitmaps.thy ===== *)
theory Bitmaps
  imports Prelude
begin

unbundle bit_operations_syntax

text \<open>
  The bitmaps of \<open>mysys/my_bitmap.c\<close> and \<open>include/my_bitmap.h\<close>: a set of bit numbers below \<open>n_bits\<close>,
  stored in 32-bit words, of which the last has bits that do not count.  The code reads and
  writes the buffer both as words and as bytes; bytes are taken in little-endian order.
  Pointers into the buffer are word or byte indices.  The mutex of a shared bitmap makes each
  call one step and is left out.
\<close>

section \<open>Bytes of a word\<close>

text \<open>The table \<open>_my_bits_nbits\<close> of the number of bits of each byte.\<close>

definition nbits_table :: "nat list" where
  "nbits_table =
    [0, 1, 1, 2, 1, 2, 2, 3, 1, 2, 2, 3, 2, 3, 3, 4,
     1, 2, 2, 3, 2, 3, 3, 4, 2, 3, 3, 4, 3, 4, 4, 5,
     1, 2, 2, 3, 2, 3, 3, 4, 2, 3, 3, 4, 3, 4, 4, 5,
     2, 3, 3, 4, 3, 4, 4, 5, 3, 4, 4, 5, 4, 5, 5, 6,
     1, 2, 2, 3, 2, 3, 3, 4, 2, 3, 3, 4, 3, 4, 4, 5,
     2, 3, 3, 4, 3, 4, 4, 5, 3, 4, 4, 5, 4, 5, 5, 6,
     2, 3, 3, 4, 3, 4, 4, 5, 3, 4, 4, 5, 4, 5, 5, 6,
     3, 4, 4, 5, 4, 5, 5, 6, 4, 5, 5, 6, 5, 6, 6, 7,
     1, 2, 2, 3, 2, 3, 3, 4, 2, 3, 3, 4, 3, 4, 4, 5,
     2, 3, 3, 4, 3, 4, 4, 5, 3, 4, 4, 5, 4, 5, 5, 6,
     2, 3, 3, 4, 3, 4, 4, 5, 3, 4, 4, 5, 4, 5, 5, 6,
     3, 4, 4, 5, 4, 5, 5, 6, 4, 5, 5, 6, 5, 6, 6, 7,
     2, 3, 3, 4, 3, 4, 4, 5, 3, 4, 4, 5, 4, 5, 5, 6,
     3, 4, 4, 5, 4, 5, 5, 6, 4, 5, 5, 6, 5, 6, 6, 7,
     3, 4, 4, 5, 4, 5, 5, 6, 4, 5, 5, 6, 5, 6, 6, 7,
     4, 5, 5, 6, 5, 6, 6, 7, 5, 6, 6, 7, 6, 7, 7, 8]"

definition my_bits_nbits :: "byte \<Rightarrow> nat" where
  "my_bits_nbits b = nbits_table ! unat b"

definition get_byte :: "uint32 \<Rightarrow> nat \<Rightarrow> byte" where
  "get_byte w j = ucast (drop_bit (8 * j) w)"

definition set_byte :: "uint32 \<Rightarrow> nat \<Rightarrow> byte \<Rightarrow> uint32" where
  "set_byte w j b = (w AND NOT (push_bit (8 * j) 0xFF)) OR push_bit (8 * j) (ucast b)"

section \<open>The bitmap and its masks\<close>

record MY_BITMAP =
  bitmap :: "uint32 list"
  last_word_ptr :: nat
  m_last_word_mask :: uint32
  n_bits :: nat

definition MY_BIT_NONE :: nat where
  "MY_BIT_NONE = 2 ^ 32 - 1"

definition no_bytes_in_map :: "nat \<Rightarrow> nat" where
  "no_bytes_in_map n = uint_add n 7 div 8"

definition no_words_in_map :: "nat \<Rightarrow> nat" where
  "no_words_in_map n = uint_add n 31 div 32"

definition last_byte_mask :: "nat \<Rightarrow> byte" where
  "last_byte_mask bits = (let used = uint_add bits (2 ^ 32 - 1) mod 8 in ucast (push_bit used (2 :: uint32) - 1))"

definition invers_last_byte_mask :: "nat \<Rightarrow> byte" where
  "invers_last_byte_mask bits = last_byte_mask bits XOR 255"

text \<open>The mask of the bits of the last word that do not count, for a number of bits.\<close>

definition last_word_mask_of :: "nat \<Rightarrow> uint32" where
  "last_word_mask_of n =
     (let mask = invers_last_byte_mask n; bytes = no_bytes_in_map n mod 4 in
      if bytes = 1 then set_byte (NOT 0) 0 mask
      else if bytes = 2 then set_byte (set_byte (NOT 0) 0 0) 1 mask
      else if bytes = 3 then set_byte (set_byte 0 2 mask) 3 0xFF
      else set_byte 0 3 mask)"

definition create_last_word_mask :: "MY_BITMAP \<Rightarrow> MY_BITMAP" where
  "create_last_word_mask m =
     m\<lparr>m_last_word_mask := last_word_mask_of (n_bits m), last_word_ptr := no_words_in_map (n_bits m) - 1\<rparr>"

definition last_word_mask :: "nat \<Rightarrow> uint32" where
  "last_word_mask bit_no = last_word_mask_of (uint_add bit_no 1)"

definition bitmap_clear_all :: "MY_BITMAP \<Rightarrow> MY_BITMAP" where
  "bitmap_clear_all m = m\<lparr>bitmap := replicate (no_words_in_map (n_bits m)) 0 @ drop (no_words_in_map (n_bits m)) (bitmap m)\<rparr>"

definition bitmap_set_all :: "MY_BITMAP \<Rightarrow> MY_BITMAP" where
  "bitmap_set_all m = m\<lparr>bitmap := replicate (no_words_in_map (n_bits m)) 0xFFFFFFFF @ drop (no_words_in_map (n_bits m)) (bitmap m)\<rparr>"

text \<open>The buffer is handed in or is the result of the allocation, \<open>None\<close> when that fails.\<close>

definition my_bitmap_init :: "uint32 list option \<Rightarrow> nat \<Rightarrow> MY_BITMAP option" where
  "my_bitmap_init buf n =
     (case buf of None \<Rightarrow> None
      | Some b \<Rightarrow> Some (bitmap_clear_all (create_last_word_mask
          \<lparr>bitmap = b, last_word_ptr = 0, m_last_word_mask = 0, n_bits = n\<rparr>)))"

section \<open>Single bits\<close>

definition map_byte :: "MY_BITMAP \<Rightarrow> nat \<Rightarrow> byte" where
  "map_byte m j = get_byte (bitmap m ! (j div 4)) (j mod 4)"

definition put_byte :: "MY_BITMAP \<Rightarrow> nat \<Rightarrow> byte \<Rightarrow> MY_BITMAP" where
  "put_byte m j b = m\<lparr>bitmap := (bitmap m)[j div 4 := set_byte (bitmap m ! (j div 4)) (j mod 4) b]\<rparr>"

definition bitmap_set_bit :: "MY_BITMAP \<Rightarrow> nat \<Rightarrow> MY_BITMAP" where
  "bitmap_set_bit m b = put_byte m (b div 8) (map_byte m (b div 8) OR push_bit (b mod 8) 1)"

definition bitmap_flip_bit :: "MY_BITMAP \<Rightarrow> nat \<Rightarrow> MY_BITMAP" where
  "bitmap_flip_bit m b = put_byte m (b div 8) (map_byte m (b div 8) XOR push_bit (b mod 8) 1)"

definition bitmap_clear_bit :: "MY_BITMAP \<Rightarrow> nat \<Rightarrow> MY_BITMAP" where
  "bitmap_clear_bit m b = put_byte m (b div 8) (map_byte m (b div 8) AND NOT (push_bit (b mod 8) 1))"

definition bitmap_is_set :: "MY_BITMAP \<Rightarrow> nat \<Rightarrow> bool" where
  "bitmap_is_set m b \<longleftrightarrow> map_byte m (b div 8) AND push_bit (b mod 8) 1 \<noteq> 0"

definition bitmap_fast_test_and_set :: "MY_BITMAP \<Rightarrow> nat \<Rightarrow> MY_BITMAP \<times> bool" where
  "bitmap_fast_test_and_set m b =
     (let value = map_byte m (b div 8); bt = push_bit (b mod 8) 1; res = value AND bt in
      (put_byte m (b div 8) (value OR bt), res \<noteq> 0))"

definition bitmap_fast_test_and_clear :: "MY_BITMAP \<Rightarrow> nat \<Rightarrow> MY_BITMAP \<times> bool" where
  "bitmap_fast_test_and_clear m b =
     (let value = map_byte m (b div 8); bt = push_bit (b mod 8) 1; res = value AND bt in
      (put_byte m (b div 8) (value AND NOT bt), res \<noteq> 0))"

text \<open>The versions that take the mutex around the call.\<close>

definition bitmap_test_and_set :: "MY_BITMAP \<Rightarrow> nat \<Rightarrow> MY_BITMAP \<times> bool" where
  "bitmap_test_and_set m b = bitmap_fast_test_and_set m b"

definition bitmap_test_and_clear :: "MY_BITMAP \<Rightarrow> nat \<Rightarrow> MY_BITMAP \<times> bool" where
  "bitmap_test_and_clear m b = bitmap_fast_test_and_clear m b"

definition bitmap_lock_clear_bit :: "MY_BITMAP \<Rightarrow> nat \<Rightarrow> MY_BITMAP" where
  "bitmap_lock_clear_bit m b = bitmap_clear_bit m b"

section \<open>Whole bitmaps\<close>

definition bitmap_is_set_all :: "MY_BITMAP \<Rightarrow> bool" where
  "bitmap_is_set_all m \<longleftrightarrow>
     list_all (\<lambda>w. w = 0xFFFFFFFF) (take (last_word_ptr m) (bitmap m)) \<and>
     bitmap m ! last_word_ptr m OR m_last_word_mask m = 0xFFFFFFFF"

definition bitmap_is_clear_all :: "MY_BITMAP \<Rightarrow> bool" where
  "bitmap_is_clear_all m \<longleftrightarrow>
     list_all (\<lambda>w. w = 0) (take (last_word_ptr m) (bitmap m)) \<and>
     bitmap m ! last_word_ptr m AND NOT (m_last_word_mask m) = 0"

definition bitmap_is_subset :: "MY_BITMAP \<Rightarrow> MY_BITMAP \<Rightarrow> bool" where
  "bitmap_is_subset m1 m2 \<longleftrightarrow>
     list_all (\<lambda>(a, b). a AND NOT b = 0) (zip (take (last_word_ptr m1) (bitmap m1)) (bitmap m2)) \<and>
     bitmap m1 ! last_word_ptr m1 AND NOT (bitmap m2 ! last_word_ptr m1) AND NOT (m_last_word_mask m1) = 0"

definition bitmap_is_overlapping :: "MY_BITMAP \<Rightarrow> MY_BITMAP \<Rightarrow> bool" where
  "bitmap_is_overlapping m1 m2 \<longleftrightarrow>
     list_ex (\<lambda>(a, b). a AND b \<noteq> 0) (zip (take (last_word_ptr m1) (bitmap m1)) (bitmap m2)) \<or>
     bitmap m1 ! last_word_ptr m1 AND bitmap m2 ! last_word_ptr m1 AND NOT (m_last_word_mask m1) \<noteq> 0"

definition bitmap_union_is_set_all :: "MY_BITMAP \<Rightarrow> MY_BITMAP \<Rightarrow> bool" where
  "bitmap_union_is_set_all m1 m2 =
     (if list_all (\<lambda>(a, b). a OR b = 0xFFFFFFFF) (zip (take (last_word_ptr m1) (bitmap m1)) (bitmap m2))
      then bitmap m1 ! last_word_ptr m1 OR bitmap m2 ! last_word_ptr m1 OR m_last_word_mask m1 \<noteq> 0xFFFFFFFF
      else False)"

definition bitmap_cmp :: "MY_BITMAP \<Rightarrow> MY_BITMAP \<Rightarrow> bool" where
  "bitmap_cmp m1 m2 \<longleftrightarrow>
     take (no_words_in_map (n_bits m1) - 1) (bitmap m1) = take (no_words_in_map (n_bits m1) - 1) (bitmap m2) \<and>
     bitmap m1 ! last_word_ptr m1 OR m_last_word_mask m1 = bitmap m2 ! last_word_ptr m2 OR m_last_word_mask m2"

text \<open>\<open>to\<close> and \<open>from\<close> run over the words up to the last of the first bitmap.\<close>

definition map_words :: "(uint32 \<Rightarrow> uint32 \<Rightarrow> uint32) \<Rightarrow> MY_BITMAP \<Rightarrow> MY_BITMAP \<Rightarrow> MY_BITMAP" where
  "map_words f m m2 =
     m\<lparr>bitmap := map2 f (take (Suc (last_word_ptr m)) (bitmap m)) (bitmap m2) @ drop (Suc (last_word_ptr m)) (bitmap m)\<rparr>"

definition bitmap_subtract :: "MY_BITMAP \<Rightarrow> MY_BITMAP \<Rightarrow> MY_BITMAP" where
  "bitmap_subtract m m2 = map_words (\<lambda>a b. a AND NOT b) m m2"

definition bitmap_union :: "MY_BITMAP \<Rightarrow> MY_BITMAP \<Rightarrow> MY_BITMAP" where
  "bitmap_union m m2 = map_words (OR) m m2"

definition bitmap_xor :: "MY_BITMAP \<Rightarrow> MY_BITMAP \<Rightarrow> MY_BITMAP" where
  "bitmap_xor m m2 = map_words (XOR) m m2"

definition bitmap_copy :: "MY_BITMAP \<Rightarrow> MY_BITMAP \<Rightarrow> MY_BITMAP" where
  "bitmap_copy m m2 = map_words (\<lambda>a b. b) m m2"

definition bitmap_invert :: "MY_BITMAP \<Rightarrow> MY_BITMAP" where
  "bitmap_invert m = map_words (\<lambda>a b. a XOR 0xFFFFFFFF) m m"

definition bitmap_intersect :: "MY_BITMAP \<Rightarrow> MY_BITMAP \<Rightarrow> MY_BITMAP" where
  "bitmap_intersect m m2 =
     (let len = no_words_in_map (n_bits m); len2 = no_words_in_map (n_bits m2); k = min len len2;
          ws = map2 (AND) (take k (bitmap m)) (take k (bitmap m2)) in
      m\<lparr>bitmap :=
        (if len2 \<le> len
         then ws[k - 1 := ws ! (k - 1) AND NOT (m_last_word_mask m2)] @ replicate (len - len2) 0 @ drop len (bitmap m)
         else ws @ drop k (bitmap m))\<rparr>)"

definition my_count_bits_uint32 :: "uint32 \<Rightarrow> nat" where
  "my_count_bits_uint32 v =
     my_bits_nbits (get_byte v 0) + my_bits_nbits (get_byte v 1) +
     my_bits_nbits (get_byte v 2) + my_bits_nbits (get_byte v 3)"

definition bitmap_bits_set :: "MY_BITMAP \<Rightarrow> nat" where
  "bitmap_bits_set m =
     fold (\<lambda>w res. res + my_count_bits_uint32 w) (take (last_word_ptr m) (bitmap m)) 0 +
     my_count_bits_uint32 (bitmap m ! last_word_ptr m AND NOT (m_last_word_mask m))"

section \<open>Prefixes\<close>

definition memset_bytes :: "MY_BITMAP \<Rightarrow> nat \<Rightarrow> byte \<Rightarrow> nat \<Rightarrow> MY_BITMAP" where
  "memset_bytes m start v n = fold (\<lambda>j m. put_byte m j v) [start..<start + n] m"

definition bitmap_set_prefix :: "MY_BITMAP \<Rightarrow> nat \<Rightarrow> MY_BITMAP" where
  "bitmap_set_prefix m prefix_size =
     (let prefix_size = min prefix_size (n_bits m);
          prefix_bytes = prefix_size div 8;
          m1 = memset_bytes m 0 0xFF prefix_bytes;
          prefix_bits = prefix_size mod 8;
          (m2, prefix_bytes) = (if prefix_bits \<noteq> 0
             then (put_byte m1 prefix_bytes (push_bit prefix_bits 1 - 1), prefix_bytes + 1)
             else (m1, prefix_bytes));
          d = no_bytes_in_map (n_bits m) - prefix_bytes in
      memset_bytes m2 prefix_bytes 0 d)"

definition bitmap_is_prefix :: "MY_BITMAP \<Rightarrow> nat \<Rightarrow> bool" where
  "bitmap_is_prefix m prefix_size =
     (let prefix_mask = last_byte_mask prefix_size;
          end_prefix = (prefix_size - 1) div 8;
          last = no_bytes_in_map (n_bits m) - 1 in
      if prefix_size = 0 then True
      else if \<not> list_all (\<lambda>j. map_byte m j = 0xFF) [0..<end_prefix] then False
      else if end_prefix = last then map_byte m last AND last_byte_mask (n_bits m) = prefix_mask
      else if map_byte m end_prefix \<noteq> prefix_mask then False
      else if \<not> list_all (\<lambda>j. map_byte m j = 0) [Suc end_prefix..<last] then False
      else map_byte m last AND last_byte_mask (n_bits m) = 0)"

definition bitmap_set_above :: "MY_BITMAP \<Rightarrow> nat \<Rightarrow> bool \<Rightarrow> MY_BITMAP" where
  "bitmap_set_above m from_byte use_bit =
     memset_bytes m from_byte (if use_bit then 0xFF else 0) (no_bytes_in_map (n_bits m) - from_byte)"

section \<open>Searching\<close>

text \<open>The position of the first word in a range that satisfies a test, or the end of the range.\<close>

function scan_words :: "(uint32 \<Rightarrow> bool) \<Rightarrow> uint32 list \<Rightarrow> nat \<Rightarrow> nat \<Rightarrow> nat" where
  "scan_words P ws i e = (if i < e \<and> \<not> P (ws ! i) then scan_words P ws (Suc i) e else i)"
  by pat_completeness auto
termination by (relation "measure (\<lambda>(P, ws, i, e). e - i)") auto

declare scan_words.simps [simp del]

text \<open>The byte and bit loops have no exit but the hit; \<open>MY_BIT_NONE\<close> marks a word without one.\<close>

definition first_byte_bit :: "uint32 \<Rightarrow> nat \<Rightarrow> (byte \<Rightarrow> bool) \<Rightarrow> (byte \<Rightarrow> nat \<Rightarrow> bool) \<Rightarrow> nat" where
  "first_byte_bit v word_pos P Q =
     (case find (\<lambda>j. P (get_byte v j)) [0..<4] of
        None \<Rightarrow> MY_BIT_NONE
      | Some byte_pos \<Rightarrow>
          (case find (Q (get_byte v byte_pos)) [0..<8] of
             None \<Rightarrow> MY_BIT_NONE
           | Some bit_pos \<Rightarrow> word_pos * 32 + byte_pos * 8 + bit_pos))"

definition get_first_set :: "uint32 \<Rightarrow> nat \<Rightarrow> nat" where
  "get_first_set v word_pos = first_byte_bit v word_pos (\<lambda>b. b \<noteq> 0) (\<lambda>b k. b AND push_bit k 1 \<noteq> 0)"

definition bitmap_get_first_set :: "MY_BITMAP \<Rightarrow> nat" where
  "bitmap_get_first_set m =
     (let e = last_word_ptr m; i = scan_words (\<lambda>w. w \<noteq> 0) (bitmap m) 0 e in
      if i = e \<and> bitmap m ! i AND NOT (m_last_word_mask m) = 0 then MY_BIT_NONE
      else get_first_set (bitmap m ! i) i)"

definition mask_out_previous :: "uint32 \<Rightarrow> nat \<Rightarrow> uint32" where
  "mask_out_previous w bitmap_bit =
     (let byte_to_mask = (bitmap_bit mod 32) div 8;
          w1 = fold (\<lambda>i w. set_byte w i 0) [0..<byte_to_mask] w in
      set_byte w1 byte_to_mask (get_byte w1 byte_to_mask AND ucast (push_bit (bitmap_bit mod 8) (0xFF :: uint32))))"

definition bitmap_get_next_set :: "MY_BITMAP \<Rightarrow> nat \<Rightarrow> nat" where
  "bitmap_get_next_set m bitmap_bit0 =
     (let bitmap_bit = uint_add bitmap_bit0 1; e = last_word_ptr m in
      if n_bits m \<le> bitmap_bit then MY_BIT_NONE
      else let word_pos = bitmap_bit div 32; first_word = mask_out_previous (bitmap m ! word_pos) bitmap_bit in
        if word_pos = e then
          (if first_word AND NOT (m_last_word_mask m) \<noteq> 0 then get_first_set first_word word_pos else MY_BIT_NONE)
        else if first_word \<noteq> 0 then get_first_set first_word word_pos
        else let i = scan_words (\<lambda>w. w \<noteq> 0) (bitmap m) (Suc word_pos) e in
          if i < e then get_first_set (bitmap m ! i) i
          else if bitmap m ! e AND NOT (m_last_word_mask m) = 0 then MY_BIT_NONE
          else get_first_set (bitmap m ! e) i)"

text \<open>The search for a free bit first sets the bits of the last word that do not count.\<close>

definition fill_last_word :: "MY_BITMAP \<Rightarrow> MY_BITMAP" where
  "fill_last_word m =
     m\<lparr>bitmap := (bitmap m)[last_word_ptr m := bitmap m ! last_word_ptr m OR m_last_word_mask m]\<rparr>"

definition bitmap_get_first :: "MY_BITMAP \<Rightarrow> MY_BITMAP \<times> nat" where
  "bitmap_get_first m =
     (let e = last_word_ptr m; m1 = fill_last_word m;
          i = scan_words (\<lambda>w. w \<noteq> 0xFFFFFFFF) (bitmap m1) 0 e in
      if i = e \<and> bitmap m1 ! i OR m_last_word_mask m = 0xFFFFFFFF then (m1, MY_BIT_NONE)
      else (m1, first_byte_bit (bitmap m1 ! i) i (\<lambda>b. b \<noteq> 0xFF) (\<lambda>b k. b AND push_bit k 1 = 0)))"

definition bitmap_set_next :: "MY_BITMAP \<Rightarrow> MY_BITMAP \<times> nat" where
  "bitmap_set_next m =
     (let (m1, bit_found) = bitmap_get_first m in
      if bit_found \<noteq> MY_BIT_NONE then (bitmap_set_bit m1 bit_found, bit_found) else (m1, bit_found))"

definition bitmap_lock_set_next :: "MY_BITMAP \<Rightarrow> MY_BITMAP \<times> nat" where
  "bitmap_lock_set_next m = bitmap_set_next m"

text \<open>The intersection of an array of bitmaps in a range of bits.\<close>

fun and_all :: "uint32 \<Rightarrow> MY_BITMAP list \<Rightarrow> nat \<Rightarrow> uint32" where
  "and_all cur_res [] i = cur_res"
| "and_all cur_res (m # ms) i = (if cur_res = 0 then 0 else and_all (cur_res AND bitmap m ! i) ms i)"

definition bitmap_exists_intersection :: "MY_BITMAP list \<Rightarrow> nat \<Rightarrow> nat \<Rightarrow> bool" where
  "bitmap_exists_intersection ms start_bit end_bit \<longleftrightarrow>
     list_ex (\<lambda>i. and_all (NOT 0) ms i \<noteq> 0) [start_bit div 32..<end_bit div 32] \<or>
     and_all (NOT (last_word_mask end_bit)) ms (end_bit div 32) \<noteq> 0"

section \<open>Bits of bytes, words and buffers\<close>

lemma bit_get_byte: "8 * j + k < 32 \<Longrightarrow> bit (get_byte w j) k \<longleftrightarrow> k < 8 \<and> bit w (8 * j + k)"
  by (auto simp: get_byte_def bit_simps)

lemma bit_255 [simp]: "bit (255 :: int) k \<longleftrightarrow> k < 8"
proof -
  have "(255 :: int) = mask 8" by (simp add: mask_eq_exp_minus_1)
  then show ?thesis by (simp only: bit_mask_iff possible_bit_def) simp
qed

lemma bit_full [simp]: "bit (0xFFFFFFFF :: int) k \<longleftrightarrow> k < 32"
proof -
  have "(0xFFFFFFFF :: int) = mask 32" by (simp add: mask_eq_exp_minus_1)
  then show ?thesis by (simp only: bit_mask_iff possible_bit_def) simp
qed

lemma bit_set_byte:
  assumes "j < 4"
  shows "bit (set_byte w j b) i \<longleftrightarrow> i < 32 \<and> (if i div 8 = j then bit b (i mod 8) else bit w i)"
proof (cases "i < 32 \<and> i div 8 = j")
  case True
  then have "8 * j \<le> i" "i - 8 * j < 8" "i mod 8 = i - 8 * j"
    by (auto simp: minus_mult_div_eq_mod [symmetric])
  with True show ?thesis by (auto simp: set_byte_def bit_simps)
next
  case False
  then have "i < 32 \<Longrightarrow> i < 8 * j \<or> 8 \<le> i - 8 * j" using assms by (auto simp: div_nat_eqI not_le)
  moreover have "\<not> bit b n" if "8 \<le> n" for n using that bit_imp_le_length [of b n] by auto
  ultimately show ?thesis using False bit_imp_le_length [of w i]
    by (auto simp: set_byte_def bit_simps)
qed

lemma word32_eq_iff: "(a :: uint32) = b \<longleftrightarrow> (\<forall>i<32. bit a i \<longleftrightarrow> bit b i)"
  by (auto simp: bit_eq_iff dest: bit_imp_le_length)

lemma byte_eq_iff: "(a :: byte) = b \<longleftrightarrow> (\<forall>i<8. bit a i \<longleftrightarrow> bit b i)"
  by (auto simp: bit_eq_iff dest: bit_imp_le_length)

lemma test_bit_byte: "k < 8 \<Longrightarrow> (b :: byte) AND 2 ^ k = 0 \<longleftrightarrow> \<not> bit b k"
  by (auto simp: byte_eq_iff bit_simps)

definition rbit :: "MY_BITMAP \<Rightarrow> nat \<Rightarrow> bool" where
  "rbit m b \<longleftrightarrow> bit (bitmap m ! (b div 32)) (b mod 32)"

lemma byte_of_bit: "b div 32 = b div 8 div 4" "b mod 32 = 8 * (b div 8 mod 4) + b mod 8" for b :: nat
  using mod_mult2_eq [of b 8 4] by (simp_all add: div_mult2_eq [symmetric])

lemma less_by_byte: "a < b \<longleftrightarrow> a div 8 < b div 8 \<or> a div 8 = b div 8 \<and> a mod 8 < b mod 8" for a b :: nat
proof -
  define p q x y where "p = a div 8" "q = b div 8" "x = a mod 8" "y = b mod 8"
  then have "a = 8 * p + x" "b = 8 * q + y" "x < 8" "y < 8" by simp_all
  then have "a < b \<longleftrightarrow> p < q \<or> p = q \<and> x < y" by linarith
  then show ?thesis by (simp add: p_q_x_y_def)
qed

lemma bit_map_byte: "bit (map_byte m j) k \<longleftrightarrow> k < 8 \<and> rbit m (8 * j + k)"
proof (cases "k < 8")
  case True
  have "8 * (j mod 4) + k < 32" using True mod_less_divisor [of 4 j] by linarith
  moreover have "(8 * j + k) div 32 = j div 4" "(8 * j + k) mod 32 = 8 * (j mod 4) + k"
    using True by (simp_all add: byte_of_bit)
  ultimately show ?thesis using True by (simp add: map_byte_def bit_get_byte rbit_def)
next
  case False
  then show ?thesis using bit_imp_le_length [of "map_byte m j" k] by auto
qed

lemma rbit_put_byte:
  assumes "j < 4 * length (bitmap m)" "b < 32 * length (bitmap m)"
  shows "rbit (put_byte m j v) b \<longleftrightarrow> (if b div 8 = j then bit v (b mod 8) else rbit m b)"
proof (cases "b div 32 = j div 4")
  case True
  have "b mod 32 div 8 = b div 8 mod 4" "b mod 32 mod 8 = b mod 8"
    by (simp_all add: byte_of_bit)
  moreover have "b div 8 = j \<longleftrightarrow> b div 8 mod 4 = j mod 4"
    using True by (metis byte_of_bit(1) div_mult_mod_eq)
  ultimately show ?thesis using True assms
    by (simp add: rbit_def put_byte_def bit_set_byte less_mult_imp_div_less mult.commute)
next
  case False
  then have "b div 8 \<noteq> j" by (auto simp: byte_of_bit)
  with False show ?thesis by (simp add: rbit_def put_byte_def)
qed

lemma put_byte_simps [simp]:
  "n_bits (put_byte m j v) = n_bits m" "last_word_ptr (put_byte m j v) = last_word_ptr m"
  "m_last_word_mask (put_byte m j v) = m_last_word_mask m" "length (bitmap (put_byte m j v)) = length (bitmap m)"
  by (simp_all add: put_byte_def)

lemma memset_bytes_Suc: "memset_bytes m s v (Suc n) = put_byte (memset_bytes m s v n) (s + n) v"
  by (simp add: memset_bytes_def)

lemma memset_bytes_0 [simp]: "memset_bytes m s v 0 = m"
  by (simp add: memset_bytes_def)

lemma memset_bytes_simps [simp]:
  "n_bits (memset_bytes m s v n) = n_bits m" "last_word_ptr (memset_bytes m s v n) = last_word_ptr m"
  "m_last_word_mask (memset_bytes m s v n) = m_last_word_mask m"
  "length (bitmap (memset_bytes m s v n)) = length (bitmap m)"
  by (induction n) (simp_all add: memset_bytes_Suc)

lemma rbit_memset_bytes:
  assumes "s + n \<le> 4 * length (bitmap m)" "b < 32 * length (bitmap m)"
  shows "rbit (memset_bytes m s v n) b \<longleftrightarrow> (if s \<le> b div 8 \<and> b div 8 < s + n then bit v (b mod 8) else rbit m b)"
  using assms(1)
proof (induction n)
  case (Suc n)
  then show ?case using assms(2) by (auto simp: memset_bytes_Suc rbit_put_byte)
qed auto

section \<open>Well-formed bitmaps and the sets they stand for\<close>

definition wf_bitmap :: "MY_BITMAP \<Rightarrow> bool" where
  "wf_bitmap m \<longleftrightarrow>
     0 < n_bits m \<and> n_bits m + 31 < 2 ^ 32 \<and> no_words_in_map (n_bits m) \<le> length (bitmap m) \<and>
     last_word_ptr m = no_words_in_map (n_bits m) - 1 \<and> m_last_word_mask m = last_word_mask_of (n_bits m)"

definition bm_set :: "MY_BITMAP \<Rightarrow> nat set" where
  "bm_set m = {b. b < n_bits m \<and> rbit m b}"

lemma bit_last_byte_mask:
  assumes "0 < n" "n < 2 ^ 32"
  shows "bit (last_byte_mask n) k \<longleftrightarrow> k < 8 \<and> k \<le> (n - 1) mod 8"
proof -
  have "uint_add n (2 ^ 32 - 1) = n - 1"
  proof -
    have "n + (2 ^ 32 - 1) = (n - 1) + 2 ^ 32" using assms by simp
    then have "uint_add n (2 ^ 32 - 1) = (n - 1) mod 2 ^ 32" by (simp only: uint_add_def mod_add_self2)
    then show ?thesis using assms by simp
  qed
  moreover have "push_bit u (2 :: uint32) - 1 = mask (Suc u)" for u
    by (simp add: mask_eq_exp_minus_1 push_bit_eq_mult)
  ultimately show ?thesis by (auto simp: last_byte_mask_def Let_def bit_simps)
qed

lemma no_words_in_map_eq: "n + 31 < 2 ^ 32 \<Longrightarrow> 0 < n \<Longrightarrow> no_words_in_map n = Suc ((n - 1) div 32)"
proof -
  assume "n + 31 < 2 ^ 32" "0 < n"
  then have "uint_add n 31 = (n - 1) + 32" by (simp add: uint_add_def)
  then show ?thesis by (simp add: no_words_in_map_def)
qed

lemma no_bytes_in_map_eq: "n + 7 < 2 ^ 32 \<Longrightarrow> 0 < n \<Longrightarrow> no_bytes_in_map n = Suc ((n - 1) div 8)"
proof -
  assume "n + 7 < 2 ^ 32" "0 < n"
  then have "uint_add n 7 = (n - 1) + 8" by (simp add: uint_add_def)
  then show ?thesis by (simp add: no_bytes_in_map_def)
qed

lemma bit_last_word_mask_of:
  assumes "0 < n" "n + 31 < 2 ^ 32" "i < 32"
  shows "bit (last_word_mask_of n) i \<longleftrightarrow> (n - 1) mod 32 < i"
proof -
  define r where "r = (n - 1) mod 32"
  have r: "r < 32" "(n - Suc 0) mod 8 = r mod 8" by (simp_all add: r_def mod_mod_cancel)
  have "(n - 1) div 8 mod 4 = r div 8" by (simp add: r_def byte_of_bit(2))
  then have nb: "no_bytes_in_map n mod 4 = Suc (r div 8) mod 4"
    using assms mod_Suc_eq [of "(n - 1) div 8" 4] by (simp add: no_bytes_in_map_eq)
  have inv: "bit (invers_last_byte_mask n) k \<longleftrightarrow> k < 8 \<and> r mod 8 < k" for k
    using assms by (auto simp: invers_last_byte_mask_def bit_simps bit_last_byte_mask r(2))
  have lt: "r < i \<longleftrightarrow> r div 8 < i div 8 \<or> r div 8 = i div 8 \<and> r mod 8 < i mod 8"
    by (rule less_by_byte)
  have four: "i div 8 < 4" "r div 8 < 4" using assms(3) r(1) by auto
  have "r div 8 = 0 \<or> r div 8 = 1 \<or> r div 8 = 2 \<or> r div 8 = 3" using four by arith
  moreover have "i div 8 = 0 \<or> i div 8 = 1 \<or> i div 8 = 2 \<or> i div 8 = 3" using four by arith
  ultimately show ?thesis
    unfolding r_def [symmetric] lt
    using assms(3) by (elim disjE) (auto simp: last_word_mask_of_def nb bit_set_byte inv)
qed

lemma wf_bitmapD:
  assumes "wf_bitmap m"
  shows "0 < n_bits m" "n_bits m + 31 < 2 ^ 32" "last_word_ptr m = (n_bits m - 1) div 32"
    "Suc (last_word_ptr m) \<le> length (bitmap m)" "no_words_in_map (n_bits m) = Suc (last_word_ptr m)"
  using assms by (auto simp: wf_bitmap_def no_words_in_map_eq)

lemma bit_m_last_word_mask:
  assumes "wf_bitmap m" "i < 32"
  shows "bit (m_last_word_mask m) i \<longleftrightarrow> n_bits m \<le> 32 * last_word_ptr m + i"
proof -
  have "32 * ((n_bits m - 1) div 32) + (n_bits m - 1) mod 32 = n_bits m - 1" by simp
  then have "n_bits m \<le> 32 * ((n_bits m - 1) div 32) + i \<longleftrightarrow> (n_bits m - 1) mod 32 < i"
    using wf_bitmapD(1) [OF assms(1)] by linarith
  with assms show ?thesis
    using wf_bitmapD [OF assms(1)] by (simp add: wf_bitmap_def bit_last_word_mask_of)
qed

text \<open>The bits that count are those of the words before the last and the unmasked ones of the last.\<close>

lemma bit_position:
  assumes "wf_bitmap m" "i \<le> last_word_ptr m" "j < 32"
  shows "32 * i + j < n_bits m \<longleftrightarrow> i < last_word_ptr m \<or> \<not> bit (m_last_word_mask m) j"
proof (cases "i = last_word_ptr m")
  case True
  then show ?thesis using assms by (auto simp: bit_m_last_word_mask)
next
  case False
  then have "i < (n_bits m - 1) div 32" using assms(2) wf_bitmapD [OF assms(1)] by simp
  then have "32 * Suc i \<le> n_bits m - 1" by (simp add: less_eq_div_iff_mult_less_eq Suc_le_eq [symmetric] mult.commute)
  with False assms show ?thesis by simp
qed

lemma word_of_bit: "wf_bitmap m \<Longrightarrow> b < n_bits m \<Longrightarrow> b div 32 \<le> last_word_ptr m"
  by (simp add: wf_bitmapD(3) div_le_mono)

lemma all_bits_iff:
  assumes "wf_bitmap m"
  shows "(\<forall>b<n_bits m. P (b div 32) (b mod 32)) \<longleftrightarrow>
    (\<forall>i<last_word_ptr m. \<forall>j<32. P i j) \<and> (\<forall>j<32. \<not> bit (m_last_word_mask m) j \<longrightarrow> P (last_word_ptr m) j)"
    (is "?L \<longleftrightarrow> ?R")
proof
  assume L: ?L
  have "P i j" if "i \<le> last_word_ptr m" "j < 32" "i < last_word_ptr m \<or> \<not> bit (m_last_word_mask m) j" for i j
    using that L [rule_format, of "32 * i + j"] bit_position [OF assms that(1,2)] by simp
  then show ?R by simp
next
  assume R: ?R
  show ?L
  proof (intro allI impI)
    fix b assume b: "b < n_bits m"
    have "32 * (b div 32) + b mod 32 = b" by simp
    then have "b div 32 < last_word_ptr m \<or> \<not> bit (m_last_word_mask m) (b mod 32)"
      using bit_position [OF assms word_of_bit [OF assms b], of "b mod 32"] b by simp
    then show "P (b div 32) (b mod 32)"
      using R word_of_bit [OF assms b] by (cases "b div 32 < last_word_ptr m") auto
  qed
qed

section \<open>The tests on whole bitmaps\<close>

lemma list_all_take: "k \<le> length xs \<Longrightarrow> list_all P (take k xs) \<longleftrightarrow> (\<forall>i<k. P (xs ! i))"
  by (auto simp: list_all_length)

lemma list_all_zip_take:
  "k \<le> length xs \<Longrightarrow> k \<le> length ys \<Longrightarrow>
   list_all (\<lambda>(a, b). P a b) (zip (take k xs) ys) \<longleftrightarrow> (\<forall>i<k. P (xs ! i) (ys ! i))"
  by (auto simp: list_all_length)

lemma bitmap_is_set_all_iff:
  assumes "wf_bitmap m"
  shows "bitmap_is_set_all m \<longleftrightarrow> bm_set m = {..<n_bits m}"
proof -
  have "bm_set m = {..<n_bits m} \<longleftrightarrow> (\<forall>b<n_bits m. bit (bitmap m ! (b div 32)) (b mod 32))"
    by (auto simp: bm_set_def rbit_def)
  also have "\<dots> \<longleftrightarrow> bitmap_is_set_all m"
    unfolding all_bits_iff [OF assms, of "\<lambda>i j. bit (bitmap m ! i) j"] using wf_bitmapD(4) [OF assms]
    by (auto simp: bitmap_is_set_all_def list_all_take word32_eq_iff bit_simps)
  finally show ?thesis by simp
qed

lemma bitmap_is_clear_all_iff:
  assumes "wf_bitmap m"
  shows "bitmap_is_clear_all m \<longleftrightarrow> bm_set m = {}"
proof -
  have "bm_set m = {} \<longleftrightarrow> (\<forall>b<n_bits m. \<not> bit (bitmap m ! (b div 32)) (b mod 32))"
    by (auto simp: bm_set_def rbit_def)
  also have "\<dots> \<longleftrightarrow> bitmap_is_clear_all m"
    unfolding all_bits_iff [OF assms, of "\<lambda>i j. \<not> bit (bitmap m ! i) j"] using wf_bitmapD(4) [OF assms]
    by (auto simp: bitmap_is_clear_all_def list_all_take word32_eq_iff bit_simps)
  finally show ?thesis by simp
qed

text \<open>Two bitmaps of the same size share the position and the mask of the last word.\<close>

lemma same_size:
  assumes "wf_bitmap m1" "wf_bitmap m2" "n_bits m1 = n_bits m2"
  shows "last_word_ptr m2 = last_word_ptr m1" "m_last_word_mask m2 = m_last_word_mask m1"
    "Suc (last_word_ptr m1) \<le> length (bitmap m2)"
  using assms wf_bitmapD(4,5) [OF assms(2)] by (auto simp: wf_bitmap_def)

lemma bitmap_is_subset_iff:
  assumes wf: "wf_bitmap m1" "wf_bitmap m2" and n: "n_bits m1 = n_bits m2"
  shows "bitmap_is_subset m1 m2 \<longleftrightarrow> bm_set m1 \<subseteq> bm_set m2"
proof -
  have "bm_set m1 \<subseteq> bm_set m2 \<longleftrightarrow>
      (\<forall>b<n_bits m1. bit (bitmap m1 ! (b div 32)) (b mod 32) \<longrightarrow> bit (bitmap m2 ! (b div 32)) (b mod 32))"
    using n by (auto simp: bm_set_def rbit_def)
  also have "\<dots> \<longleftrightarrow> bitmap_is_subset m1 m2"
    unfolding all_bits_iff [OF wf(1), of "\<lambda>i j. bit (bitmap m1 ! i) j \<longrightarrow> bit (bitmap m2 ! i) j"] using wf_bitmapD(4) [OF wf(1)] same_size [OF wf n]
    by (auto simp: bitmap_is_subset_def list_all_zip_take word32_eq_iff bit_simps)
  finally show ?thesis by simp
qed

lemma bitmap_is_overlapping_iff:
  assumes wf: "wf_bitmap m1" "wf_bitmap m2" and n: "n_bits m1 = n_bits m2"
  shows "bitmap_is_overlapping m1 m2 \<longleftrightarrow> bm_set m1 \<inter> bm_set m2 \<noteq> {}"
proof -
  have "bm_set m1 \<inter> bm_set m2 = {} \<longleftrightarrow>
      (\<forall>b<n_bits m1. bit (bitmap m1 ! (b div 32)) (b mod 32) \<longrightarrow> \<not> bit (bitmap m2 ! (b div 32)) (b mod 32))"
    using n by (auto simp: bm_set_def rbit_def)
  also have "\<dots> \<longleftrightarrow> \<not> bitmap_is_overlapping m1 m2"
    unfolding all_bits_iff [OF wf(1), of "\<lambda>i j. bit (bitmap m1 ! i) j \<longrightarrow> \<not> bit (bitmap m2 ! i) j"] using wf_bitmapD(4) [OF wf(1)] same_size [OF wf n]
    by (auto simp: bitmap_is_overlapping_def list_ex_length word32_eq_iff bit_simps)
  finally show ?thesis by simp
qed

lemma bitmap_cmp_iff:
  assumes wf: "wf_bitmap m1" "wf_bitmap m2" and n: "n_bits m1 = n_bits m2"
  shows "bitmap_cmp m1 m2 \<longleftrightarrow> bm_set m1 = bm_set m2"
proof -
  have "bm_set m1 = bm_set m2 \<longleftrightarrow>
      (\<forall>b<n_bits m1. bit (bitmap m1 ! (b div 32)) (b mod 32) \<longleftrightarrow> bit (bitmap m2 ! (b div 32)) (b mod 32))"
    using n by (auto simp: bm_set_def rbit_def)
  also have "\<dots> \<longleftrightarrow> (\<forall>i<last_word_ptr m1. bitmap m1 ! i = bitmap m2 ! i) \<and>
      bitmap m1 ! last_word_ptr m1 OR m_last_word_mask m1 = bitmap m2 ! last_word_ptr m1 OR m_last_word_mask m1"
    unfolding all_bits_iff [OF wf(1), of "\<lambda>i j. bit (bitmap m1 ! i) j \<longleftrightarrow> bit (bitmap m2 ! i) j"] by (auto simp: word32_eq_iff bit_simps)
  also have "\<dots> \<longleftrightarrow> bitmap_cmp m1 m2"
    using wf_bitmapD(4,5) [OF wf(1)] same_size [OF wf n]
    by (auto simp: bitmap_cmp_def list_eq_iff_nth_eq)
  finally show ?thesis by simp
qed

lemma bitmap_union_is_set_all_full:
  assumes wf: "wf_bitmap m1" "wf_bitmap m2" and n: "n_bits m1 = n_bits m2"
    and full: "bm_set m1 \<union> bm_set m2 = {..<n_bits m1}"
  shows "\<not> bitmap_union_is_set_all m1 m2"
proof -
  have "\<forall>b<n_bits m1. bit (bitmap m1 ! (b div 32)) (b mod 32) \<or> bit (bitmap m2 ! (b div 32)) (b mod 32)"
    using full by (auto simp: bm_set_def rbit_def)
  then show ?thesis
    unfolding all_bits_iff [OF wf(1), of "\<lambda>i j. bit (bitmap m1 ! i) j \<or> bit (bitmap m2 ! i) j"]
    by (auto simp: bitmap_union_is_set_all_def word32_eq_iff bit_simps)
qed

section \<open>The operations on whole bitmaps\<close>

lemma map_words_simps [simp]:
  "n_bits (map_words f m m2) = n_bits m" "last_word_ptr (map_words f m m2) = last_word_ptr m"
  "m_last_word_mask (map_words f m m2) = m_last_word_mask m"
  by (simp_all add: map_words_def)

lemma length_map_words:
  "Suc (last_word_ptr m) \<le> length (bitmap m) \<Longrightarrow> Suc (last_word_ptr m) \<le> length (bitmap m2) \<Longrightarrow>
   length (bitmap (map_words f m m2)) = length (bitmap m)"
  by (simp add: map_words_def)

lemma rbit_map_words:
  assumes wf: "wf_bitmap m" "wf_bitmap m2" and n: "n_bits m = n_bits m2"
  shows "b < n_bits m \<Longrightarrow> rbit (map_words f m m2) b \<longleftrightarrow>
    bit (f (bitmap m ! (b div 32)) (bitmap m2 ! (b div 32))) (b mod 32)"
  using wf_bitmapD(4) [OF wf(1)] same_size [OF wf n] word_of_bit [OF wf(1), of b]
  by (simp add: rbit_def map_words_def nth_append)

lemma wf_map_words:
  assumes wf: "wf_bitmap m" "wf_bitmap m2" and n: "n_bits m = n_bits m2"
  shows "wf_bitmap (map_words f m m2)"
  using wf wf_bitmapD(4) [OF wf(1)] same_size [OF wf n] by (simp add: wf_bitmap_def length_map_words)

lemmas word_op_defs = bitmap_subtract_def bitmap_union_def bitmap_xor_def bitmap_copy_def bitmap_invert_def

lemma bitmap_word_ops:
  assumes wf: "wf_bitmap m" "wf_bitmap m2" and n: "n_bits m = n_bits m2"
  shows "bm_set (bitmap_union m m2) = bm_set m \<union> bm_set m2"
    "bm_set (bitmap_subtract m m2) = bm_set m - bm_set m2"
    "bm_set (bitmap_xor m m2) = (bm_set m - bm_set m2) \<union> (bm_set m2 - bm_set m)"
    "bm_set (bitmap_copy m m2) = bm_set m2"
    "bm_set (bitmap_invert m) = {..<n_bits m} - bm_set m"
  using rbit_map_words [OF wf n] rbit_map_words [OF wf(1) wf(1) refl] n
  by (auto simp: word_op_defs bm_set_def rbit_def [of m] rbit_def [of m2] bit_simps)

lemma rbit_intersect:
  assumes wf: "wf_bitmap m" "wf_bitmap m2" and b: "b < n_bits m"
  shows "rbit (bitmap_intersect m m2) b \<longleftrightarrow> rbit m b \<and> rbit m2 b \<and> b < n_bits m2"
proof -
  define i where "i = b div 32"
  let ?l = "last_word_ptr m" and ?l2 = "last_word_ptr m2"
  have len: "Suc ?l \<le> length (bitmap m)" "Suc ?l2 \<le> length (bitmap m2)"
    using wf_bitmapD(4) wf by blast+
  have i: "i \<le> ?l" unfolding i_def by (rule word_of_bit [OF wf(1) b])
  have pos: "b < n_bits m2 \<longleftrightarrow> i < ?l2 \<or> i = ?l2 \<and> \<not> bit (m_last_word_mask m2) (b mod 32)"
  proof (cases "i \<le> ?l2")
    case True
    then show ?thesis using bit_position [OF wf(2) True, of "b mod 32"] by (auto simp: i_def)
  next
    case False
    then show ?thesis using word_of_bit [OF wf(2), of b] by (auto simp: i_def)
  qed
  have words: "bitmap (bitmap_intersect m m2) ! i =
      (if ?l2 < i then 0 else if i = ?l2 then bitmap m ! i AND bitmap m2 ! i AND NOT (m_last_word_mask m2)
       else bitmap m ! i AND bitmap m2 ! i)"
    using i len
    by (cases "?l2 \<le> ?l")
      (auto simp: bitmap_intersect_def Let_def wf_bitmapD(5) [OF wf(1)] wf_bitmapD(5) [OF wf(2)] nth_append
        nth_list_update min_absorb1 min_absorb2 ac_simps)
  show ?thesis
    unfolding rbit_def i_def [symmetric] words pos by (auto simp: bit_simps)
qed

lemma bitmap_intersect_set:
  assumes "wf_bitmap m" "wf_bitmap m2"
  shows "bm_set (bitmap_intersect m m2) = bm_set m \<inter> bm_set m2" "wf_bitmap (bitmap_intersect m m2)"
proof -
  have n: "n_bits (bitmap_intersect m m2) = n_bits m" by (simp add: bitmap_intersect_def Let_def)
  show "bm_set (bitmap_intersect m m2) = bm_set m \<inter> bm_set m2"
    using rbit_intersect [OF assms] by (auto simp: bm_set_def n)
  show "wf_bitmap (bitmap_intersect m m2)"
    using assms wf_bitmapD(4,5) [OF assms(1)] wf_bitmapD(4,5) [OF assms(2)]
    by (simp add: wf_bitmap_def bitmap_intersect_def Let_def)
qed

section \<open>Single bits and prefixes\<close>

lemma bit_below:
  assumes "wf_bitmap m" "b < n_bits m"
  shows "b < 32 * length (bitmap m)" "b div 8 < 4 * length (bitmap m)"
proof -
  have "b div 32 < length (bitmap m)"
    using word_of_bit [OF assms] wf_bitmapD(4) [OF assms(1)] by simp
  then show "b < 32 * length (bitmap m)" by (simp add: div_less_iff_less_mult mult.commute)
  then show "b div 8 < 4 * length (bitmap m)" by (simp add: div_less_iff_less_mult)
qed

lemma wf_put_byte [simp]: "wf_bitmap (put_byte m j v) = wf_bitmap m"
  by (simp add: wf_bitmap_def)

lemma wf_memset_bytes [simp]: "wf_bitmap (memset_bytes m s v n) = wf_bitmap m"
  by (simp add: wf_bitmap_def)

lemma eq_by_byte: "x = b \<longleftrightarrow> x div 8 = b div 8 \<and> x mod 8 = b mod 8" for x b :: nat
  by (metis div_mult_mod_eq)

lemma rbit_by_byte: "rbit m b = bit (map_byte m (b div 8)) (b mod 8)"
  by (simp add: bit_map_byte)

lemma bitmap_bit_ops:
  assumes "wf_bitmap m" "b < n_bits m"
  shows "bm_set (bitmap_set_bit m b) = insert b (bm_set m)" "wf_bitmap (bitmap_set_bit m b)"
    "bm_set (bitmap_clear_bit m b) = bm_set m - {b}" "wf_bitmap (bitmap_clear_bit m b)"
    "bm_set (bitmap_flip_bit m b) = (if b \<in> bm_set m then bm_set m - {b} else insert b (bm_set m))"
    "wf_bitmap (bitmap_flip_bit m b)"
    "bitmap_is_set m b \<longleftrightarrow> b \<in> bm_set m"
proof -
  have upd: "rbit (put_byte m (b div 8) v) x \<longleftrightarrow> (if x div 8 = b div 8 then bit v (x mod 8) else rbit m x)"
    if "x < n_bits m" for x v
    using rbit_put_byte [of "b div 8" m x] bit_below [OF assms(1)] assms(2) that by simp
  note defs = bm_set_def bitmap_set_bit_def bitmap_clear_bit_def bitmap_flip_bit_def
  note simps = upd rbit_by_byte [of m] bit_or_iff bit_and_iff bit_xor_iff bit_not_iff bit_exp_iff
  show "bm_set (bitmap_set_bit m b) = insert b (bm_set m)"
    using assms by (auto simp: defs simps eq_by_byte [of _ b] split: if_splits)
  show "bm_set (bitmap_clear_bit m b) = bm_set m - {b}"
    using assms by (auto simp: defs simps eq_by_byte [of _ b] split: if_splits)
  show "bm_set (bitmap_flip_bit m b) = (if b \<in> bm_set m then bm_set m - {b} else insert b (bm_set m))"
    using assms by (auto simp: defs simps eq_by_byte [of _ b] split: if_splits)
  show "bitmap_is_set m b \<longleftrightarrow> b \<in> bm_set m"
    using assms by (simp add: bitmap_is_set_def test_bit_byte bm_set_def rbit_by_byte)
qed (use assms in \<open>simp_all add: bitmap_set_bit_def bitmap_clear_bit_def bitmap_flip_bit_def\<close>)

lemma bitmap_fast_test_and_eq:
  assumes "wf_bitmap m" "b < n_bits m"
  shows "bitmap_fast_test_and_set m b = (bitmap_set_bit m b, b \<in> bm_set m)"
    "bitmap_fast_test_and_clear m b = (bitmap_clear_bit m b, b \<in> bm_set m)"
  using assms by (simp_all add: bitmap_fast_test_and_set_def bitmap_fast_test_and_clear_def Let_def
      bitmap_set_bit_def bitmap_clear_bit_def test_bit_byte bm_set_def rbit_by_byte)

lemma no_bytes_bound:
  assumes "wf_bitmap m"
  shows "no_bytes_in_map (n_bits m) \<le> 4 * length (bitmap m)" "no_bytes_in_map (n_bits m) = Suc ((n_bits m - 1) div 8)"
proof -
  show eq: "no_bytes_in_map (n_bits m) = Suc ((n_bits m - 1) div 8)"
    using wf_bitmapD [OF assms] by (simp add: no_bytes_in_map_eq)
  have "(n_bits m - 1) div 8 < 4 * length (bitmap m)"
    using bit_below(2) [OF assms, of "n_bits m - 1"] wf_bitmapD(1) [OF assms] by simp
  then show "no_bytes_in_map (n_bits m) \<le> 4 * length (bitmap m)" using eq by simp
qed

lemma bitmap_set_above_set:
  assumes "wf_bitmap m"
  shows "bm_set (bitmap_set_above m k v) =
    {b \<in> bm_set m. b < 8 * k} \<union> (if v then {b. 8 * k \<le> b \<and> b < n_bits m} else {})"
proof -
  have "rbit (bitmap_set_above m k v) b \<longleftrightarrow> (if k \<le> b div 8 then v else rbit m b)" if "b < n_bits m" for b
  proof (cases "k \<le> no_bytes_in_map (n_bits m)")
    case True
    have "b div 8 < no_bytes_in_map (n_bits m)"
      using that no_bytes_bound(2) [OF assms] by (simp add: less_Suc_eq_le div_le_mono)
    then show ?thesis using True rbit_memset_bytes [of k "no_bytes_in_map (n_bits m) - k" m b]
      bit_below(1) [OF assms that] no_bytes_bound(1) [OF assms]
      by (simp add: bitmap_set_above_def bit_simps)
  next
    case False
    have "b div 8 \<le> (n_bits m - 1) div 8" using that by (intro div_le_mono) simp
    with False no_bytes_bound(2) [OF assms] have "\<not> k \<le> b div 8" by simp
    with False show ?thesis by (simp add: bitmap_set_above_def)
  qed
  then show ?thesis
    by (auto simp: bm_set_def bitmap_set_above_def less_eq_div_iff_mult_less_eq mult.commute not_le
        split: if_splits)
qed

lemma bit_low_bits: "k < 8 \<Longrightarrow> bit (2 ^ k - 1 :: byte) i \<longleftrightarrow> i < k"
  by (auto simp flip: mask_eq_exp_minus_1 simp: bit_simps)

lemma bitmap_set_prefix_set:
  assumes wf: "wf_bitmap m"
  shows "bm_set (bitmap_set_prefix m p) = {..<min p (n_bits m)}" "wf_bitmap (bitmap_set_prefix m p)"
proof -
  define s where "s = min p (n_bits m)"
  define m1 where "m1 = memset_bytes m 0 0xFF (s div 8)"
  define m2 where "m2 = (if s mod 8 \<noteq> 0 then put_byte m1 (s div 8) (2 ^ (s mod 8) - 1) else m1)"
  define q where "q = s div 8 + (if s mod 8 \<noteq> 0 then 1 else 0)"
  let ?n = "no_bytes_in_map (n_bits m)"
  have res: "bitmap_set_prefix m p = memset_bytes m2 q 0 (?n - q)"
    by (simp add: bitmap_set_prefix_def Let_def s_def [symmetric] m1_def m2_def q_def)
  have m2: "n_bits m2 = n_bits m" "length (bitmap m2) = length (bitmap m)" "wf_bitmap m2"
    using wf by (simp_all add: m2_def m1_def)
  show "wf_bitmap (bitmap_set_prefix m p)" by (simp add: res m2)
  have q: "q \<le> ?n"
  proof -
    have "q = (s + 7) div 8" unfolding q_def by presburger
    also have "\<dots> \<le> (n_bits m - 1 + 8) div 8"
      using wf_bitmapD(1) [OF wf] by (intro div_le_mono) (simp add: s_def)
    also have "\<dots> = ?n" using no_bytes_bound(2) [OF wf] by simp
    finally show ?thesis .
  qed
  have "rbit (bitmap_set_prefix m p) b \<longleftrightarrow> b < s" if b: "b < n_bits m" for b
  proof -
    note below = bit_below [OF wf b] no_bytes_bound(1) [OF wf]
    have nb: "b div 8 < ?n"
      using b no_bytes_bound(2) [OF wf] by (simp add: less_Suc_eq_le div_le_mono)
    have r1: "rbit m1 b \<longleftrightarrow> (if b div 8 < s div 8 then True else rbit m b)"
      using below q rbit_memset_bytes [of 0 "s div 8" m b] unfolding m1_def q_def
      by (auto simp: bit_simps split: if_splits)
    have r2: "rbit m2 b \<longleftrightarrow> (if s mod 8 \<noteq> 0 \<and> b div 8 = s div 8 then b mod 8 < s mod 8 else rbit m1 b)"
      using below q rbit_put_byte [of "s div 8" m1 b] unfolding m2_def q_def
      by (auto simp: m1_def bit_low_bits split: if_splits)
    have "rbit (bitmap_set_prefix m p) b \<longleftrightarrow> (if q \<le> b div 8 then False else rbit m2 b)"
      unfolding res using below q nb rbit_memset_bytes [of q "?n - q" m2 b] by (simp add: m2)
    then show ?thesis
      unfolding r2 r1 less_by_byte [of b s] q_def by (auto split: if_splits)
  qed
  then show "bm_set (bitmap_set_prefix m p) = {..<min p (n_bits m)}"
    by (auto simp: bm_set_def res m2 s_def)
qed

lemma below_by_byte:
  fixes n :: nat
  assumes "0 < n" "k < 8"
  shows "8 * j + k < n \<longleftrightarrow> j < (n - 1) div 8 \<or> j = (n - 1) div 8 \<and> k \<le> (n - 1) mod 8"
proof -
  define q r where "q = (n - 1) div 8" "r = (n - 1) mod 8"
  then have "n - 1 = 8 * q + r" "r < 8" by simp_all
  with assms have "8 * j + k < n \<longleftrightarrow> j < q \<or> j = q \<and> k \<le> r" by linarith
  then show ?thesis by (simp add: q_r_def)
qed

lemma all_bytes_iff:
  fixes n :: nat
  assumes "0 < n"
  shows "(\<forall>b<n. P (b div 8) (b mod 8)) \<longleftrightarrow>
    (\<forall>j<(n - 1) div 8. \<forall>k<8. P j k) \<and> (\<forall>k\<le>(n - 1) mod 8. P ((n - 1) div 8) k)" (is "?L \<longleftrightarrow> ?R")
proof -
  note pos = below_by_byte [OF assms]
  have "?L \<longleftrightarrow> (\<forall>j. \<forall>k<8. 8 * j + k < n \<longrightarrow> P j k)"
  proof (intro iffI allI impI)
    fix j k assume ?L "k < 8" "8 * j + k < n"
    then show "P j k" using spec [of _ "8 * j + k"] by fastforce
  next
    fix b assume "\<forall>j. \<forall>k<8. 8 * j + k < n \<longrightarrow> P j k" "b < n"
    then show "P (b div 8) (b mod 8)" by simp
  qed
  also have "\<dots> \<longleftrightarrow> ?R"
    using pos mod_less_divisor [of 8 "n - 1"] by (auto dest: le_less_trans)
  finally show ?thesis .
qed

lemma bitmap_is_prefix_iff:
  assumes wf: "wf_bitmap m" and p: "0 < p" "p \<le> n_bits m"
  shows "bitmap_is_prefix m p \<longleftrightarrow> bm_set m = {..<p}"
proof -
  define l q where "l = (n_bits m - 1) div 8" "q = (p - 1) div 8"
  let ?lm = "\<lambda>k. k \<le> (n_bits m - 1) mod 8"
  have n: "0 < n_bits m" "n_bits m < 2 ^ 32" using wf_bitmapD(1,2) [OF wf] by simp_all
  have ql: "q \<le> l" unfolding l_q_def using p by (intro div_le_mono) simp
  note pos = below_by_byte [OF p(1), folded l_q_def]
  have prefix_code: "bitmap_is_prefix m p \<longleftrightarrow> (\<forall>j<q. map_byte m j = 0xFF) \<and>
      (if q = l then map_byte m l AND last_byte_mask (n_bits m) = last_byte_mask p
       else map_byte m q = last_byte_mask p \<and> (\<forall>j. Suc q \<le> j \<and> j < l \<longrightarrow> map_byte m j = 0) \<and>
         map_byte m l AND last_byte_mask (n_bits m) = 0)"
    using p no_bytes_bound(2) [OF wf] by (auto simp: bitmap_is_prefix_def Let_def l_q_def list_all_iff)
  have "bm_set m = {..<p} \<longleftrightarrow> (\<forall>b<n_bits m. rbit m (8 * (b div 8) + b mod 8) \<longleftrightarrow> 8 * (b div 8) + b mod 8 < p)"
    using p by (auto simp: bm_set_def)
  also have "\<dots> \<longleftrightarrow> (\<forall>j<l. \<forall>k<8. rbit m (8 * j + k) \<longleftrightarrow> 8 * j + k < p) \<and>
      (\<forall>k<8. ?lm k \<longrightarrow> (rbit m (8 * l + k) \<longleftrightarrow> 8 * l + k < p))"
    unfolding all_bytes_iff [OF n(1), of "\<lambda>j k. rbit m (8 * j + k) \<longleftrightarrow> 8 * j + k < p"] l_q_def
    by (auto dest: le_less_trans)
  also have "\<dots> \<longleftrightarrow> bitmap_is_prefix m p"
  proof (cases "q = l")
    case True
    then have "(p - 1) mod 8 \<le> (n_bits m - 1) mod 8"
      using less_by_byte [of "n_bits m - 1" "p - 1"] p by (auto simp: l_q_def)
    then show ?thesis using True p n
      by (auto simp: prefix_code pos byte_eq_iff bit_map_byte bit_simps bit_last_byte_mask)
  next
    case False
    with ql have "q < l" by simp
    then have split: "(\<forall>j<l. P j) \<longleftrightarrow> (\<forall>j<q. P j) \<and> P q \<and> (\<forall>j. Suc q \<le> j \<and> j < l \<longrightarrow> P j)" for P
      by (metis Suc_leI less_trans nat_neq_iff not_less_eq_eq)
    show ?thesis unfolding split using False \<open>q < l\<close> p n
      by (auto simp: prefix_code pos byte_eq_iff bit_map_byte bit_simps bit_last_byte_mask)
  qed
  finally show ?thesis by simp
qed

end
