(* ===== verification/Bitmap_Sets.thy ===== *)
theory Bitmap_Sets
  imports Bitmaps
begin

unbundle bit_operations_syntax

text \<open>
  What the operations of \<open>mysys/my_bitmap.c\<close> promise: each acts on the set of bit numbers below
  \<open>n_bits\<close> that the bitmap stands for, whatever the bits of the buffer that do not count hold.
\<close>

section \<open>Counting\<close>

text \<open>The table is built by doubling: the entries \<open>2 n\<close> and \<open>2 n + 1\<close> come from the entry \<open>n\<close>.\<close>

fun double_table :: "nat list \<Rightarrow> nat list" where
  "double_table [] = []"
| "double_table (x # xs) = x # Suc x # double_table xs"

lemma length_double_table [simp]: "length (double_table xs) = 2 * length xs"
  by (induction xs) simp_all

lemma nth_double_table: "n < 2 * length xs \<Longrightarrow> double_table xs ! n = n mod 2 + xs ! (n div 2)"
proof (induction xs arbitrary: n)
  case (Cons x xs)
  then show ?case by (cases n rule: nat.exhaust; cases "n - 1") (auto simp: nth_Cons')
qed simp

lemma nbits_table_double: "nbits_table = (double_table ^^ 8) [0]"
  by (simp add: nbits_table_def numeral_eq_Suc)

lemma nth_doubled: "length ((double_table ^^ k) [0]) = 2 ^ k \<and>
    (\<forall>n<2 ^ k. (double_table ^^ k) [0] ! n = (\<Sum>j<k. of_bool (bit n j)))"
proof (induction k)
  case (Suc k)
  then have len: "length ((double_table ^^ k) [0]) = 2 ^ k" by simp
  have "(double_table ^^ Suc k) [0] ! n = (\<Sum>j<Suc k. of_bool (bit n j))" if "n < 2 ^ Suc k" for n
  proof -
    have "(double_table ^^ Suc k) [0] ! n = n mod 2 + (\<Sum>j<k. of_bool (bit (n div 2) j))"
      using Suc that by (simp add: nth_double_table len less_mult_imp_div_less mult.commute del: sum_of_bool_eq)
    then show ?thesis
      by (simp add: sum.lessThan_Suc_shift bit_Suc bit_0 mod_2_eq_odd del: sum_of_bool_eq sum.lessThan_Suc)
  qed
  then show ?case by (simp add: len del: sum_of_bool_eq)
qed simp

lemma my_bits_nbits_sum: "my_bits_nbits b = (\<Sum>k<8. of_bool (bit b k))"
proof -
  have "unat b < 2 ^ 8" using unsigned_less [of b] by simp
  then have "my_bits_nbits b = (\<Sum>k<8. of_bool (bit (unat b) k))"
    using nth_doubled [of 8] by (simp add: my_bits_nbits_def nbits_table_double del: sum_of_bool_eq funpow.simps)
  then show ?thesis by (simp add: bit_unsigned_iff)
qed

lemma sum_groups: "(\<Sum>j<n. \<Sum>k<d. f (d * j + k)) = (\<Sum>k<n * d. f k)" for f :: "nat \<Rightarrow> nat"
proof -
  have "(\<Sum>k<d. f (d * j + k)) = sum f {j * d..<j * d + d}" for j
    using sum.shift_bounds_nat_ivl [of f 0 "j * d" d] by (simp add: atLeast0LessThan ac_simps)
  then show ?thesis by (simp add: sum.nat_group)
qed

lemma my_count_bits_sum: "my_count_bits_uint32 w = (\<Sum>k<32. of_bool (bit w k))"
proof -
  have "my_bits_nbits (get_byte w j) = (\<Sum>k<8. of_bool (bit w (8 * j + k)))" if "j < 4" for j
    unfolding my_bits_nbits_sum using that by (intro sum.cong) (auto simp: bit_get_byte)
  then have "my_count_bits_uint32 w = (\<Sum>j<4. \<Sum>k<8. of_bool (bit w (8 * j + k)))"
    by (simp add: my_count_bits_uint32_def lessThan_nat_numeral lessThan_Suc del: sum_of_bool_eq)
  then show ?thesis using sum_groups [of "\<lambda>k. of_bool (bit w k)" 8 4] by (simp del: sum_of_bool_eq)
qed

lemma fold_add: "fold (\<lambda>w res. res + f w) ws (a :: nat) = a + (\<Sum>w\<leftarrow>ws. f w)"
  by (induction ws arbitrary: a) simp_all

lemma finite_bm_set [simp]: "finite (bm_set m)"
  by (rule finite_subset [of _ "{..<n_bits m}"]) (auto simp: bm_set_def)

lemma bitmap_bits_set_card:
  assumes wf: "wf_bitmap m"
  shows "bitmap_bits_set m = card (bm_set m)"
proof -
  let ?l = "last_word_ptr m"
  let ?c = "\<lambda>b. of_bool (b < n_bits m \<and> rbit m b) :: nat"
  have before: "(\<Sum>j<32. ?c (32 * i + j)) = my_count_bits_uint32 (bitmap m ! i)" if "i < ?l" for i
    unfolding my_count_bits_sum using that by (intro sum.cong refl) (simp add: bit_position [OF wf] rbit_def)
  have last: "(\<Sum>j<32. ?c (32 * ?l + j)) = my_count_bits_uint32 (bitmap m ! ?l AND NOT (m_last_word_mask m))"
    unfolding my_count_bits_sum
    by (intro sum.cong refl) (auto simp: bit_position [OF wf] rbit_def bit_and_iff bit_not_iff)
  have "n_bits m \<le> Suc ?l * 32"
    using wf_bitmapD(1,3) [OF wf] dividend_less_div_times [of 32 "n_bits m - 1"] by simp
  then have "card (bm_set m) = sum ?c {..<Suc ?l * 32}"
    by (auto simp: bm_set_def intro!: arg_cong [of _ _ card])
  also have "\<dots> = (\<Sum>i<Suc ?l. \<Sum>j<32. ?c (32 * i + j))"
    by (rule sum_groups [of ?c, symmetric])
  also have "\<dots> = (\<Sum>i<?l. my_count_bits_uint32 (bitmap m ! i)) +
      my_count_bits_uint32 (bitmap m ! ?l AND NOT (m_last_word_mask m))"
    using before last by simp
  also have "\<dots> = bitmap_bits_set m"
    using wf_bitmapD(4) [OF wf]
    by (simp add: bitmap_bits_set_def fold_add sum_list_sum_nth atLeast0LessThan)
  finally show ?thesis by simp
qed

section \<open>Searching\<close>

definition first_of :: "nat set \<Rightarrow> nat" where
  "first_of S = (if S = {} then MY_BIT_NONE else Min S)"

lemma scan_words_le: "i \<le> e \<Longrightarrow> i \<le> scan_words P ws i e \<and> scan_words P ws i e \<le> e"
  by (induction P ws i e rule: scan_words.induct) (subst (1 2) scan_words.simps, auto)

lemma scan_words_before: "i \<le> k \<Longrightarrow> k < scan_words P ws i e \<Longrightarrow> \<not> P (ws ! k)"
proof (induction P ws i e rule: scan_words.induct)
  case (1 P ws i e)
  then show ?case using scan_words.simps [of P ws i e] by (cases "k = i") (auto split: if_splits)
qed

lemma scan_words_hit: "scan_words P ws i e < e \<Longrightarrow> P (ws ! scan_words P ws i e)"
proof (induction P ws i e rule: scan_words.induct)
  case (1 P ws i e)
  then show ?case using scan_words.simps [of P ws i e] by (auto split: if_splits)
qed

lemma find_upt: "find P [0..<n] = Some i \<longleftrightarrow> i < n \<and> P i \<and> (\<forall>j<i. \<not> P j)"
  by (auto simp: find_Some_iff)

text \<open>The byte loop and the bit loop find the first position of a word that satisfies a test.\<close>

lemma first_byte_bit_least:
  assumes P: "\<And>j. j < 4 \<Longrightarrow> P (get_byte v j) \<longleftrightarrow> (\<exists>k<8. R (8 * j + k))"
    and Q: "\<And>j k. j < 4 \<Longrightarrow> k < 8 \<Longrightarrow> Q (get_byte v j) k \<longleftrightarrow> R (8 * j + k)"
    and ex: "i < 32" "R i"
  obtains j where "j < 32" "R j" "\<And>k. k < j \<Longrightarrow> \<not> R k" "first_byte_bit v p P Q = 32 * p + j"
proof -
  define j where "j = (LEAST j. R j)"
  have j: "R j" "\<And>k. k < j \<Longrightarrow> \<not> R k" "j \<le> i"
    using ex(2) unfolding j_def by (auto intro: LeastI Least_le dest: not_less_Least)
  then have "j < 32" using ex(1) by simp
  have "find (\<lambda>j. P (get_byte v j)) [0..<4] = Some (j div 8)"
  proof -
    have "\<not> (\<exists>k<8. R (8 * y + k))" if "y < j div 8" for y
      using j(2) that less_by_byte [of "8 * y + _" j] by fastforce
    moreover have "\<exists>k<8. R (8 * (j div 8) + k)" using j(1) by (intro exI [of _ "j mod 8"]) simp
    ultimately show ?thesis using P \<open>j < 32\<close> by (auto simp: find_upt)
  qed
  moreover have "find (Q (get_byte v (j div 8))) [0..<8] = Some (j mod 8)"
  proof -
    have "\<not> R (8 * (j div 8) + k)" if "k < j mod 8" for k
      using j(2) that less_by_byte [of "8 * (j div 8) + k" j] by simp
    then show ?thesis using Q [of "j div 8"] \<open>j < 32\<close> j(1) by (auto simp: find_upt)
  qed
  ultimately have "first_byte_bit v p P Q = 32 * p + j"
    by (simp add: first_byte_bit_def)
  then show thesis using that \<open>j < 32\<close> j by blast
qed

lemma byte_nonzero_iff: "j < 4 \<Longrightarrow> get_byte v j \<noteq> 0 \<longleftrightarrow> (\<exists>k<8. bit v (8 * j + k))"
  by (auto simp: byte_eq_iff bit_get_byte)

lemma byte_nonfull_iff: "j < 4 \<Longrightarrow> get_byte v j \<noteq> 0xFF \<longleftrightarrow> (\<exists>k<8. \<not> bit v (8 * j + k))"
  by (auto simp: byte_eq_iff bit_get_byte bit_simps)

text \<open>A word in which the first hit lies, when all words before it have none, gives the first of all.\<close>

lemma first_of_hit:
  assumes "j < 32" "R (32 * i + j)" "\<And>k. k < j \<Longrightarrow> \<not> R (32 * i + k)"
    and ex: "k < 32" "R (32 * i + k)" "32 * i + k < n"
    and before: "\<And>y. y < 32 * i \<Longrightarrow> \<not> R y"
  shows "first_of {x. x < n \<and> R x} = 32 * i + j"
proof -
  have jk: "j \<le> k" using assms(3) ex(2) not_le by blast
  have "32 * i + j \<le> y" if "R y" for y
  proof (rule ccontr)
    assume "\<not> 32 * i + j \<le> y"
    then have "y < 32 * i \<or> (y - 32 * i < j \<and> y = 32 * i + (y - 32 * i))" by arith
    then show False using that before assms(3) by metis
  qed
  then have "Min {x. x < n \<and> R x} = 32 * i + j"
    using jk ex(3) assms(2) by (intro Min_eqI) auto
  moreover have "{x. x < n \<and> R x} \<noteq> {}" using ex by blast
  ultimately show ?thesis unfolding first_of_def by presburger
qed

lemma first_of_miss: "(\<And>y. y < n \<Longrightarrow> \<not> R y) \<Longrightarrow> first_of {x. x < n \<and> R x} = MY_BIT_NONE"
  by (auto simp: first_of_def)

lemma get_first_set_first:
  assumes bits: "\<And>j. j < 32 \<Longrightarrow> bit v j \<longleftrightarrow> R (32 * i + j)"
    and ex: "k < 32" "R (32 * i + k)" "32 * i + k < n"
    and before: "\<And>y. y < 32 * i \<Longrightarrow> \<not> R y"
  shows "get_first_set v i = first_of {x. x < n \<and> R x}"
proof -
  obtain j where "j < 32" "bit v j" "\<And>k. k < j \<Longrightarrow> \<not> bit v k" "get_first_set v i = 32 * i + j"
    unfolding get_first_set_def
    by (rule first_byte_bit_least [of "\<lambda>b. b \<noteq> 0" v "bit v" "\<lambda>b k. b AND push_bit k 1 \<noteq> 0" k i])
      (use bits ex in \<open>auto simp: byte_nonzero_iff test_bit_byte bit_get_byte\<close>)
  then show ?thesis using first_of_hit [of j R i k n] bits ex before by simp
qed

lemma masked_nonzero:
  assumes "wf_bitmap m"
  shows "w AND NOT (m_last_word_mask m) \<noteq> 0 \<longleftrightarrow> (\<exists>k<32. bit w k \<and> 32 * last_word_ptr m + k < n_bits m)"
  by (auto simp: word32_eq_iff bit_and_iff bit_not_iff bit_position [OF assms])

lemma word_nonzero:
  assumes "wf_bitmap m" "i < last_word_ptr m" "(w :: uint32) \<noteq> 0"
  shows "\<exists>k<32. bit w k \<and> 32 * i + k < n_bits m"
  using assms bit_position [OF assms(1), of i] by (auto simp: word32_eq_iff)

lemma last_word_miss:
  assumes "wf_bitmap m" "\<And>y. y < 32 * last_word_ptr m \<Longrightarrow> \<not> R y"
    and bits: "\<And>j. j < 32 \<Longrightarrow> R (32 * last_word_ptr m + j) \<Longrightarrow> bit w j" and "w AND NOT (m_last_word_mask m) = 0"
  shows "first_of {x. x < n_bits m \<and> R x} = MY_BIT_NONE"
proof (rule first_of_miss, rule notI)
  fix y assume y: "y < n_bits m" "R y"
  let ?l = "last_word_ptr m"
  have "32 * ?l \<le> y" using y(2) assms(2) not_le by blast
  moreover have "y div 32 \<le> ?l" by (rule word_of_bit [OF assms(1) y(1)])
  ultimately have "y = 32 * ?l + y mod 32"
    by (metis div_le_mono div_mult_mod_eq le_antisym mult.commute nonzero_mult_div_cancel_left zero_neq_numeral)
  then show False using bits [of "y mod 32"] y masked_nonzero [OF assms(1), of w] assms(4) by auto
qed

lemma bm_set_eq: "bm_set m = {x. x < n_bits m \<and> rbit m x}"
  by (simp add: bm_set_def)

lemma rbit_word: "j < 32 \<Longrightarrow> rbit m (32 * i + j) \<longleftrightarrow> bit (bitmap m ! i) j"
  by (simp add: rbit_def)

lemma scan_first:
  assumes wf: "wf_bitmap m" and p: "p \<le> last_word_ptr m"
    and bits: "\<And>i j. p \<le> i \<Longrightarrow> j < 32 \<Longrightarrow> R (32 * i + j) \<longleftrightarrow> bit (bitmap m ! i) j"
    and before: "\<And>y. y < 32 * p \<Longrightarrow> \<not> R y"
    and i: "i = scan_words (\<lambda>w. w \<noteq> 0) (bitmap m) p (last_word_ptr m)"
  shows "(if i = last_word_ptr m \<and> bitmap m ! i AND NOT (m_last_word_mask m) = 0 then MY_BIT_NONE
     else get_first_set (bitmap m ! i) i) = first_of {x. x < n_bits m \<and> R x}"
proof -
  let ?e = "last_word_ptr m"
  have ie: "p \<le> i" "i \<le> ?e" using scan_words_le [OF p] by (simp_all add: i)
  have no: "\<not> R y" if "y < 32 * i" for y
  proof (cases "y < 32 * p")
    case False
    have y: "p \<le> y div 32" "y div 32 < i" using False that by (simp_all add: less_mult_imp_div_less mult.commute)
    then have "bitmap m ! (y div 32) = 0"
      using scan_words_before [of p "y div 32" "\<lambda>w. w \<noteq> 0" "bitmap m" ?e] by (simp add: i)
    then show ?thesis using bits [of "y div 32" "y mod 32"] y(1) by simp
  qed (rule before)
  show ?thesis
  proof (cases "i = ?e \<and> bitmap m ! i AND NOT (m_last_word_mask m) = 0")
    case True
    then have e: "i = ?e" and z: "bitmap m ! ?e AND NOT (m_last_word_mask m) = 0" by auto
    show ?thesis using last_word_miss [OF wf _ _ z, of R] no bits ie(1) z by (simp add: e)
  next
    case False
    then have "\<exists>k<32. bit (bitmap m ! i) k \<and> 32 * i + k < n_bits m"
      using masked_nonzero [OF wf, of "bitmap m ! i"] word_nonzero [OF wf, of i "bitmap m ! i"] ie
        scan_words_hit [of "\<lambda>w. w \<noteq> 0" "bitmap m" p ?e, folded i] by (cases "i = ?e") auto
    then obtain k where "k < 32" "bit (bitmap m ! i) k" "32 * i + k < n_bits m" by blast
    then have "get_first_set (bitmap m ! i) i = first_of {x. x < n_bits m \<and> R x}"
      using no bits ie(1) by (intro get_first_set_first [of _ R i k]) simp_all
    with False show ?thesis by (simp only: if_False)
  qed
qed

lemma bitmap_get_first_set_eq:
  assumes wf: "wf_bitmap m"
  shows "bitmap_get_first_set m = first_of (bm_set m)"
  using scan_first [OF wf, of 0 "rbit m"] by (simp add: bitmap_get_first_set_def bm_set_eq rbit_word Let_def)

lemma bit_zero_bytes:
  "t \<le> 4 \<Longrightarrow> bit (fold (\<lambda>i w. set_byte w i 0) [0..<t] w) j \<longleftrightarrow> bit w j \<and> t \<le> j div 8"
proof (induction t)
  case (Suc t)
  then show ?case using bit_imp_le_length [of w j] by (auto simp: bit_set_byte)
qed simp

lemma bit_mask_out_previous:
  assumes "j < 32"
  shows "bit (mask_out_previous w b) j \<longleftrightarrow> bit w j \<and> b mod 32 \<le> j"
proof -
  define t where "t = b mod 32 div 8"
  have t: "t < 4" by (simp add: t_def less_mult_imp_div_less)
  have mod8: "b mod 8 = b mod 32 mod 8" by (simp add: mod_mod_cancel)
  have ff: "bit (ucast (push_bit q (0xFF :: uint32)) :: byte) k \<longleftrightarrow> k < 8 \<and> q \<le> k" if "q < 8" for q k
    using that by (auto simp: bit_simps)
  have "bit (mask_out_previous w b) j \<longleftrightarrow>
      (if j div 8 = t then bit w j \<and> b mod 8 \<le> j mod 8 else bit w j \<and> t \<le> j div 8)"
    using assms t unfolding mask_out_previous_def Let_def t_def [symmetric]
    by (auto simp: bit_set_byte bit_zero_bytes bit_and_iff ff bit_get_byte)
  also have "\<dots> \<longleftrightarrow> bit w j \<and> \<not> j < b mod 32"
    unfolding less_by_byte [of j "b mod 32"] t_def mod8 by auto
  finally show ?thesis by (simp add: not_less)
qed

lemma bitmap_get_next_set_eq:
  assumes wf: "wf_bitmap m"
  shows "bitmap_get_next_set m b = first_of {x \<in> bm_set m. uint_add b 1 \<le> x}"
proof -
  define s where "s = uint_add b 1"
  define p where "p = s div 32"
  let ?e = "last_word_ptr m"
  let ?R = "\<lambda>x. s \<le> x \<and> rbit m x"
  let ?fw = "mask_out_previous (bitmap m ! p) s"
  have S: "{x \<in> bm_set m. uint_add b 1 \<le> x} = {x. x < n_bits m \<and> ?R x}"
    by (auto simp: bm_set_def s_def)
  have ps: "32 * p \<le> s" "s < 32 * Suc p" by (simp_all add: p_def dividend_less_times_div)
  have fw: "bit ?fw j \<longleftrightarrow> ?R (32 * p + j)" if "j < 32" for j
  proof -
    have "s \<le> 32 * p + j \<longleftrightarrow> s mod 32 \<le> j"
      using div_mult_mod_eq [of s 32] unfolding p_def by linarith
    then show ?thesis using that by (auto simp: bit_mask_out_previous rbit_word)
  qed
  have before: "\<not> ?R y" if "y < 32 * p" for y using that ps by simp
  have code: "bitmap_get_next_set m b =
    (if n_bits m \<le> s then MY_BIT_NONE
     else if p = ?e then (if ?fw AND NOT (m_last_word_mask m) \<noteq> 0 then get_first_set ?fw p else MY_BIT_NONE)
     else if ?fw \<noteq> 0 then get_first_set ?fw p
     else if scan_words (\<lambda>w. w \<noteq> 0) (bitmap m) (Suc p) ?e < ?e
     then get_first_set (bitmap m ! scan_words (\<lambda>w. w \<noteq> 0) (bitmap m) (Suc p) ?e)
            (scan_words (\<lambda>w. w \<noteq> 0) (bitmap m) (Suc p) ?e)
     else if bitmap m ! ?e AND NOT (m_last_word_mask m) = 0 then MY_BIT_NONE
     else get_first_set (bitmap m ! ?e) (scan_words (\<lambda>w. w \<noteq> 0) (bitmap m) (Suc p) ?e))"
    unfolding bitmap_get_next_set_def Let_def s_def p_def by (rule refl)
  show ?thesis
    unfolding S
  proof (cases "n_bits m \<le> s")
    case True
    then show "bitmap_get_next_set m b = first_of {x. x < n_bits m \<and> ?R x}"
      using first_of_miss [of "n_bits m" ?R] by (simp add: code)
  next
    case False
    then have pe: "p \<le> ?e" unfolding p_def by (simp add: word_of_bit [OF wf])
    consider "?fw = 0" "p \<noteq> ?e" | k where "p \<noteq> ?e" "k < 32" "bit ?fw k" "32 * p + k < n_bits m"
      | "p = ?e" "?fw AND NOT (m_last_word_mask m) = 0"
      | k where "p = ?e" "?fw AND NOT (m_last_word_mask m) \<noteq> 0" "k < 32" "bit ?fw k" "32 * p + k < n_bits m"
      using masked_nonzero [OF wf, of ?fw] word_nonzero [OF wf, of p ?fw] pe by fastforce
    then show "bitmap_get_next_set m b = first_of {x. x < n_bits m \<and> ?R x}"
    proof cases
      case 1
      define i where "i = scan_words (\<lambda>w. w \<noteq> 0) (bitmap m) (Suc p) ?e"
      have pe': "Suc p \<le> ?e" using 1 pe by simp
      have ie: "i \<le> ?e" using scan_words_le [OF pe'] by (simp add: i_def)
      have no: "\<not> ?R y" if "y < 32 * Suc p" for y
      proof (cases "y < 32 * p")
        case False
        then have "y = 32 * p + (y - 32 * p)" "y - 32 * p < 32" using that by simp_all
        then show ?thesis using fw [of "y - 32 * p"] 1(1) by simp
      qed (rule before)
      have bits: "?R (32 * i + j) \<longleftrightarrow> bit (bitmap m ! i) j" if "Suc p \<le> i" "j < 32" for i j
        using that ps by (simp add: rbit_word)
      have "(if i = ?e \<and> bitmap m ! i AND NOT (m_last_word_mask m) = 0 then MY_BIT_NONE
          else get_first_set (bitmap m ! i) i) = first_of {x. x < n_bits m \<and> ?R x}"
        by (rule scan_first [OF wf pe' _ _ i_def]) (use bits no in blast)+
      then show ?thesis using False 1 ie by (cases "i = ?e") (simp_all add: code i_def [symmetric] split: if_splits)
    next
      case 2
      then have "get_first_set ?fw p = first_of {x. x < n_bits m \<and> ?R x}"
        using fw before by (intro get_first_set_first [of _ ?R p k]) simp_all
      then show ?thesis using 2 False by (auto simp: code)
    next
      case 3
      then show ?thesis using last_word_miss [OF wf, of ?R ?fw] fw before False by (simp add: code)
    next
      case 4
      then have "get_first_set ?fw p = first_of {x. x < n_bits m \<and> ?R x}"
        using fw before by (intro get_first_set_first [of _ ?R p k]) simp_all
      then show ?thesis using 4 False by (simp add: code)
    qed
  qed
qed

section \<open>The first free bit\<close>

lemma fill_last_word_simps [simp]:
  "n_bits (fill_last_word m) = n_bits m" "last_word_ptr (fill_last_word m) = last_word_ptr m"
  "m_last_word_mask (fill_last_word m) = m_last_word_mask m" "wf_bitmap (fill_last_word m) = wf_bitmap m"
  by (simp_all add: fill_last_word_def wf_bitmap_def)

lemma rbit_fill_last_word:
  assumes wf: "wf_bitmap m" and x: "x < n_bits m"
  shows "rbit (fill_last_word m) x \<longleftrightarrow> rbit m x"
  using bit_position [OF wf word_of_bit [OF assms], of "x mod 32"] wf_bitmapD(4) [OF wf] x
  by (auto simp: rbit_def fill_last_word_def nth_list_update bit_or_iff)

lemma fill_last_word_free:
  assumes wf: "wf_bitmap m" and i: "i \<le> last_word_ptr m" and k: "k < 32" "\<not> bit (bitmap (fill_last_word m) ! i) k"
  shows "32 * i + k < n_bits m" "\<not> bit (m_last_word_mask m) k \<or> i < last_word_ptr m"
  using k bit_position [OF wf i k(1)] wf_bitmapD(4) [OF wf] i
  by (cases "i = last_word_ptr m"; simp add: fill_last_word_def bit_or_iff)+

lemma bitmap_get_first_state:
  assumes wf: "wf_bitmap m"
  shows "bm_set (fst (bitmap_get_first m)) = bm_set m" "wf_bitmap (fst (bitmap_get_first m))"
    "n_bits (fst (bitmap_get_first m)) = n_bits m"
proof -
  have "fst (bitmap_get_first m) = fill_last_word m" by (simp add: bitmap_get_first_def Let_def)
  then show "bm_set (fst (bitmap_get_first m)) = bm_set m" "wf_bitmap (fst (bitmap_get_first m))"
    "n_bits (fst (bitmap_get_first m)) = n_bits m"
    using wf rbit_fill_last_word [OF wf] by (auto simp: bm_set_def)
qed

lemma bitmap_get_first_eq:
  assumes wf: "wf_bitmap m"
  shows "snd (bitmap_get_first m) = first_of ({..<n_bits m} - bm_set m)"
proof -
  let ?e = "last_word_ptr m" and ?full = "0xFFFFFFFF :: uint32" and ?m1 = "fill_last_word m"
  define i where "i = scan_words (\<lambda>w. w \<noteq> ?full) (bitmap ?m1) 0 ?e"
  let ?v = "bitmap ?m1 ! i" and ?R = "\<lambda>x. \<not> rbit ?m1 x"
  have S: "{..<n_bits m} - bm_set m = {x. x < n_bits m \<and> ?R x}"
    using rbit_fill_last_word [OF wf] by (auto simp: bm_set_def)
  have code: "snd (bitmap_get_first m) =
      (if i = ?e \<and> ?v OR m_last_word_mask m = ?full then MY_BIT_NONE
       else first_byte_bit ?v i (\<lambda>b. b \<noteq> 0xFF) (\<lambda>b k. b AND push_bit k 1 = 0))"
    unfolding bitmap_get_first_def Let_def i_def if_distrib [of snd] snd_conv by (rule refl)
  have ie: "i \<le> ?e" using scan_words_le [of 0 ?e] by (simp add: i_def)
  have before: "rbit ?m1 y" if "y < 32 * i" for y
    using scan_words_before [of 0 "y div 32" "\<lambda>w. w \<noteq> ?full" "bitmap ?m1" ?e] that
    by (simp add: i_def rbit_def bit_simps less_mult_imp_div_less mult.commute)
  show ?thesis
  proof (cases "\<exists>k<32. \<not> bit ?v k")
    case True
    then obtain k where k: "k < 32" "\<not> bit ?v k" by blast
    note free = fill_last_word_free [OF wf ie k]
    have found: "\<not> (i = ?e \<and> ?v OR m_last_word_mask m = ?full)"
      using k free(2) by (auto simp: word32_eq_iff bit_simps)
    obtain j where j: "j < 32" "\<not> bit ?v j" "\<And>k. k < j \<Longrightarrow> \<not> \<not> bit ?v k"
      "first_byte_bit ?v i (\<lambda>b. b \<noteq> 0xFF) (\<lambda>b k. b AND push_bit k 1 = 0) = 32 * i + j"
      by (rule first_byte_bit_least [of "\<lambda>b. b \<noteq> 0xFF" ?v "\<lambda>k. \<not> bit ?v k" "\<lambda>b k. b AND push_bit k 1 = 0" k i])
        (use k in \<open>auto simp: byte_nonfull_iff test_bit_byte bit_get_byte\<close>)
    have "first_of {x. x < n_bits m \<and> ?R x} = 32 * i + j"
      by (rule first_of_hit [of j ?R i k]) (use j(1-3) k free(1) before in \<open>auto simp: rbit_word\<close>)
    then show ?thesis by (simp only: S code if_not_P [OF found] j(4))
  next
    case False
    then have v: "?v = ?full" by (auto simp: word32_eq_iff bit_simps)
    then have e: "i = ?e"
      using scan_words_hit [of "\<lambda>w. w \<noteq> ?full" "bitmap ?m1" 0 ?e] ie by (fastforce simp: i_def)
    have "rbit ?m1 y" if "y < n_bits m" for y
      using before [of y] word_of_bit [OF wf that] v
      by (cases "y div 32 = ?e") (auto simp: e rbit_def bit_simps div_less_iff_less_mult mult.commute)
    then have "first_of {x. x < n_bits m \<and> ?R x} = MY_BIT_NONE" by (intro first_of_miss) simp
    moreover have "?v OR m_last_word_mask m = ?full" unfolding v by (auto simp: word32_eq_iff bit_simps)
    ultimately show ?thesis using e unfolding S code by simp
  qed
qed

lemma first_of_in: "finite S \<Longrightarrow> S \<noteq> {} \<Longrightarrow> first_of S \<in> S"
  by (simp add: first_of_def)

lemma bitmap_set_next_eq:
  assumes wf: "wf_bitmap m"
  shows "snd (bitmap_set_next m) = first_of ({..<n_bits m} - bm_set m)"
    "bm_set (fst (bitmap_set_next m)) =
      (if bm_set m = {..<n_bits m} then bm_set m else insert (first_of ({..<n_bits m} - bm_set m)) (bm_set m))"
    "wf_bitmap (fst (bitmap_set_next m))"
proof -
  let ?S = "{..<n_bits m} - bm_set m"
  note st = bitmap_get_first_state [OF wf] and bf = bitmap_get_first_eq [OF wf]
  have sub: "bm_set m \<subseteq> {..<n_bits m}" by (auto simp: bm_set_def)
  have ins: "?S \<noteq> {} \<Longrightarrow> first_of ?S < n_bits m" using first_of_in [of ?S] by auto
  have none: "first_of ?S = MY_BIT_NONE \<longleftrightarrow> ?S = {}"
  proof (cases "?S = {}")
    case False
    have "first_of ?S \<noteq> MY_BIT_NONE" using ins [OF False] wf_bitmapD(2) [OF wf] unfolding MY_BIT_NONE_def by linarith
    with False show ?thesis by blast
  qed (simp add: first_of_def)
  show "snd (bitmap_set_next m) = first_of ?S"
    using bf by (simp add: bitmap_set_next_def split_beta)
  have code: "fst (bitmap_set_next m) =
      (if ?S = {} then fst (bitmap_get_first m) else bitmap_set_bit (fst (bitmap_get_first m)) (first_of ?S))"
    using bf none by (simp add: bitmap_set_next_def split_beta)
  show "bm_set (fst (bitmap_set_next m)) = (if bm_set m = {..<n_bits m} then bm_set m else insert (first_of ?S) (bm_set m))"
    using sub ins st bitmap_bit_ops(1) [OF st(2), of "first_of ?S"] by (auto simp: code)
  show "wf_bitmap (fst (bitmap_set_next m))"
    using ins st bitmap_bit_ops(2) [OF st(2), of "first_of ?S"] by (simp add: code)
qed

section \<open>Intersections of many bitmaps\<close>

lemma bit_and_all: "bit (and_all c ms i) j \<longleftrightarrow> bit c j \<and> (\<forall>m\<in>set ms. bit (bitmap m ! i) j)"
  by (induction c ms i rule: and_all.induct) (auto simp: bit_and_iff)

lemma le_by_word: "j < 32 \<Longrightarrow> 32 * i + j \<le> e \<longleftrightarrow> i < e div 32 \<or> i = e div 32 \<and> j \<le> e mod 32" for e :: nat
proof -
  assume "j < 32"
  define q r where "q = e div 32" "r = e mod 32"
  then have "e = 32 * q + r" "r < 32" by simp_all
  with \<open>j < 32\<close> have "32 * i + j \<le> e \<longleftrightarrow> i < q \<or> i = q \<and> j \<le> r" by linarith
  then show ?thesis by (simp add: q_r_def)
qed

lemma bitmap_exists_intersection_iff:
  assumes ms: "\<And>m. m \<in> set ms \<Longrightarrow> wf_bitmap m \<and> e < n_bits m" and se: "s \<le> e"
    and outside: "m0 \<in> set ms" "bm_set m0 \<subseteq> {s..e}"
  shows "bitmap_exists_intersection ms s e \<longleftrightarrow> (\<exists>b. \<forall>m\<in>set ms. b \<in> bm_set m)"
proof -
  have e: "e + 1 + 31 < 2 ^ 32" using ms [OF outside(1)] wf_bitmapD(2) [of m0] by simp
  then have lm: "\<not> bit (last_word_mask e) j \<longleftrightarrow> j \<le> e mod 32" if "j < 32" for j
    using that bit_last_word_mask_of [of "e + 1" j] by (auto simp: last_word_mask_def uint_add_def)
  have bm: "b \<in> bm_set m \<longleftrightarrow> rbit m b" if "b \<le> e" "m \<in> set ms" for b m
    using ms [OF that(2)] that(1) by (simp add: bm_set_def)
  have "bitmap_exists_intersection ms s e \<longleftrightarrow>
      (\<exists>i. (s div 32 \<le> i \<and> i < e div 32) \<and> (\<exists>j<32. \<forall>m\<in>set ms. bit (bitmap m ! i) j)) \<or>
      (\<exists>j<32. j \<le> e mod 32 \<and> (\<forall>m\<in>set ms. bit (bitmap m ! (e div 32)) j))"
    using lm by (simp add: bitmap_exists_intersection_def list_ex_iff word32_eq_iff bit_and_all bit_not_iff Bex_def Ball_def
        cong: conj_cong)
  also have "\<dots> \<longleftrightarrow>
      (\<exists>i j. j < 32 \<and> s div 32 \<le> i \<and> (i < e div 32 \<or> i = e div 32 \<and> j \<le> e mod 32) \<and>
         (\<forall>m\<in>set ms. bit (bitmap m ! i) j))"
    using div_le_mono [OF se, of 32] by blast
  also have "\<dots> \<longleftrightarrow> (\<exists>b. s div 32 \<le> b div 32 \<and> b \<le> e \<and> (\<forall>m\<in>set ms. rbit m b))"
  proof (intro iffI; elim exE conjE)
    fix i j assume "j < 32" "s div 32 \<le> i" "i < e div 32 \<or> i = e div 32 \<and> j \<le> e mod 32"
      "\<forall>m\<in>set ms. bit (bitmap m ! i) j"
    then show "\<exists>b. s div 32 \<le> b div 32 \<and> b \<le> e \<and> (\<forall>m\<in>set ms. rbit m b)"
      by (intro exI [of _ "32 * i + j"]) (auto simp: rbit_word le_by_word)
  next
    fix b assume "s div 32 \<le> b div 32" "b \<le> e" "\<forall>m\<in>set ms. rbit m b"
    then show "\<exists>i j. j < 32 \<and> s div 32 \<le> i \<and> (i < e div 32 \<or> i = e div 32 \<and> j \<le> e mod 32) \<and>
        (\<forall>m\<in>set ms. bit (bitmap m ! i) j)"
      using le_by_word [of "b mod 32" "b div 32" e]
      by (intro exI [of _ "b div 32"] exI [of _ "b mod 32"]) (simp add: rbit_def)
  qed
  also have "\<dots> \<longleftrightarrow> (\<exists>b. \<forall>m\<in>set ms. b \<in> bm_set m)"
  proof (intro iffI; elim exE conjE)
    fix b assume b: "\<forall>m\<in>set ms. b \<in> bm_set m"
    then have "\<forall>m\<in>set ms. rbit m b" by (simp add: bm_set_def)
    then show "\<exists>b. s div 32 \<le> b div 32 \<and> b \<le> e \<and> (\<forall>m\<in>set ms. rbit m b)"
      using outside b by (intro exI [of _ b]) (auto simp: div_le_mono)
  qed (use bm in blast)
  finally show ?thesis .
qed

section \<open>Making and filling bitmaps\<close>

lemma word_below:
  assumes "x < n" "n + 31 < 2 ^ 32"
  shows "x div 32 < no_words_in_map n"
  using assms no_words_in_map_eq [OF assms(2)] div_le_mono [of x "n - 1" 32] by simp

lemma my_bitmap_init_ok:
  assumes "0 < n" "n + 31 < 2 ^ 32" "no_words_in_map n \<le> length b"
  shows "\<exists>m. my_bitmap_init (Some b) n = Some m \<and> wf_bitmap m \<and> n_bits m = n \<and> bm_set m = {}"
  using assms word_below [OF _ assms(2)]
  by (auto simp: my_bitmap_init_def wf_bitmap_def bitmap_clear_all_def create_last_word_mask_def bm_set_def rbit_def
      nth_append)

lemma bitmap_fill_all:
  assumes wf: "wf_bitmap m"
  shows "bm_set (bitmap_clear_all m) = {}" "wf_bitmap (bitmap_clear_all m)"
    "bm_set (bitmap_set_all m) = {..<n_bits m}" "wf_bitmap (bitmap_set_all m)"
  using wf word_below [OF _ wf_bitmapD(2) [OF wf]]
  by (auto simp: bitmap_clear_all_def bitmap_set_all_def wf_bitmap_def bm_set_def rbit_def nth_append bit_simps)

section \<open>Sequences of calls on single bits\<close>

datatype bit_call = SetBit nat | ClearBit nat | FlipBit nat | IsSet nat | TestAndSet nat | TestAndClear nat

fun call_bit :: "bit_call \<Rightarrow> nat" where
  "call_bit (SetBit b) = b"
| "call_bit (ClearBit b) = b"
| "call_bit (FlipBit b) = b"
| "call_bit (IsSet b) = b"
| "call_bit (TestAndSet b) = b"
| "call_bit (TestAndClear b) = b"

text \<open>One call on a bitmap and the same call on a set of numbers, each with its answer.\<close>

fun bitmap_call :: "bit_call \<Rightarrow> MY_BITMAP \<Rightarrow> MY_BITMAP \<times> bool option" where
  "bitmap_call (SetBit b) m = (bitmap_set_bit m b, None)"
| "bitmap_call (ClearBit b) m = (bitmap_clear_bit m b, None)"
| "bitmap_call (FlipBit b) m = (bitmap_flip_bit m b, None)"
| "bitmap_call (IsSet b) m = (m, Some (bitmap_is_set m b))"
| "bitmap_call (TestAndSet b) m = (case bitmap_test_and_set m b of (m', r) \<Rightarrow> (m', Some r))"
| "bitmap_call (TestAndClear b) m = (case bitmap_test_and_clear m b of (m', r) \<Rightarrow> (m', Some r))"

fun set_call :: "bit_call \<Rightarrow> nat set \<Rightarrow> nat set \<times> bool option" where
  "set_call (SetBit b) S = (insert b S, None)"
| "set_call (ClearBit b) S = (S - {b}, None)"
| "set_call (FlipBit b) S = (if b \<in> S then S - {b} else insert b S, None)"
| "set_call (IsSet b) S = (S, Some (b \<in> S))"
| "set_call (TestAndSet b) S = (insert b S, Some (b \<in> S))"
| "set_call (TestAndClear b) S = (S - {b}, Some (b \<in> S))"

fun run_calls :: "('c \<Rightarrow> 's \<Rightarrow> 's \<times> 'a) \<Rightarrow> 'c list \<Rightarrow> 's \<Rightarrow> 's \<times> 'a list" where
  "run_calls f [] s = (s, [])"
| "run_calls f (c # cs) s = (case f c s of (s', a) \<Rightarrow> case run_calls f cs s' of (s'', as) \<Rightarrow> (s'', a # as))"

text \<open>
  An implementation of a state machine by another: every admissible call gives the same answer
  and keeps the states related.
\<close>

locale call_refinement =
  fixes inv :: "'s \<Rightarrow> bool" and abs :: "'s \<Rightarrow> 't" and ok :: "'k \<Rightarrow> 'c \<Rightarrow> bool" and key :: "'s \<Rightarrow> 'k"
    and step :: "'c \<Rightarrow> 's \<Rightarrow> 's \<times> 'a" and spec :: "'c \<Rightarrow> 't \<Rightarrow> 't \<times> 'a"
  assumes step_inv: "inv s \<Longrightarrow> ok (key s) c \<Longrightarrow> inv (fst (step c s))"
    and step_key: "inv s \<Longrightarrow> ok (key s) c \<Longrightarrow> key (fst (step c s)) = key s"
    and step_abs: "inv s \<Longrightarrow> ok (key s) c \<Longrightarrow> spec c (abs s) = (abs (fst (step c s)), snd (step c s))"
begin

lemma run_refines:
  assumes "inv s" "list_all (ok (key s)) cs"
  shows "inv (fst (run_calls step cs s)) \<and> key (fst (run_calls step cs s)) = key s \<and>
    run_calls spec cs (abs s) = (abs (fst (run_calls step cs s)), snd (run_calls step cs s))"
  using assms
proof (induction cs arbitrary: s)
  case (Cons c cs)
  then show ?case
    using Cons.IH [of "fst (step c s)"] step_inv [of s c] step_key [of s c] step_abs [of s c]
    by (simp add: split_beta)
qed simp

end

interpretation bitmap_calls: call_refinement wf_bitmap bm_set "\<lambda>n c. call_bit c < n" n_bits bitmap_call set_call
proof unfold_locales
  fix m c assume m: "wf_bitmap m" "call_bit c < n_bits m"
  have n: "n_bits (bitmap_set_bit m b) = n_bits m" "n_bits (bitmap_clear_bit m b) = n_bits m"
    "n_bits (bitmap_flip_bit m b) = n_bits m" for b
    by (simp_all add: bitmap_set_bit_def bitmap_clear_bit_def bitmap_flip_bit_def)
  show "wf_bitmap (fst (bitmap_call c m))" "n_bits (fst (bitmap_call c m)) = n_bits m"
    "set_call c (bm_set m) = (bm_set (fst (bitmap_call c m)), snd (bitmap_call c m))"
    using m by (cases c; simp add: bitmap_bit_ops bitmap_fast_test_and_eq n bitmap_test_and_set_def bitmap_test_and_clear_def)+
qed

section \<open>What the bitmap operations promise\<close>

text \<open>A bitmap of \<open>n\<close> bits in which the bits of a list are set, for the examples.\<close>

definition bitmap_of :: "nat \<Rightarrow> nat list \<Rightarrow> MY_BITMAP" where
  "bitmap_of n bs =
     fold (\<lambda>b m. bitmap_set_bit m b) bs (the (my_bitmap_init (Some (replicate (no_words_in_map n) 0)) n))"

lemma bitmap_of_ok:
  assumes "0 < n" "n + 31 < 2 ^ 32" "list_all (\<lambda>b. b < n) bs"
  shows "wf_bitmap (bitmap_of n bs) \<and> n_bits (bitmap_of n bs) = n \<and> bm_set (bitmap_of n bs) = set bs"
proof -
  have "wf_bitmap m \<Longrightarrow> n_bits m = n \<Longrightarrow> list_all (\<lambda>b. b < n) bs \<Longrightarrow>
      wf_bitmap (fold (\<lambda>b m. bitmap_set_bit m b) bs m) \<and> n_bits (fold (\<lambda>b m. bitmap_set_bit m b) bs m) = n \<and>
      bm_set (fold (\<lambda>b m. bitmap_set_bit m b) bs m) = bm_set m \<union> set bs" for m bs
  proof (induction bs arbitrary: m)
    case (Cons b bs)
    have "n_bits (bitmap_set_bit m b) = n_bits m" by (simp add: bitmap_set_bit_def)
    then show ?case using Cons.IH [of "bitmap_set_bit m b"] Cons.prems bitmap_bit_ops(1,2) [of m b] by simp
  qed simp
  then show ?thesis
    using my_bitmap_init_ok [OF assms(1,2), of "replicate (no_words_in_map n) 0"] assms(3)
    by (auto simp: bitmap_of_def)
qed

text \<open>C17: Any sequence of calls that set, clear, flip, test, test-and-set or test-and-clear single bits
  below \<open>n_bits\<close> gives the answers, and ends with the set, that the same calls on a set of numbers give.\<close>

theorem bitmap_calls_correct:
  assumes "wf_bitmap m" "list_all (\<lambda>c. call_bit c < n_bits m) cs"
  shows "run_calls set_call cs (bm_set m) =
      (bm_set (fst (run_calls bitmap_call cs m)), snd (run_calls bitmap_call cs m)) \<and>
    wf_bitmap (fst (run_calls bitmap_call cs m))"
  using bitmap_calls.run_refines [OF assms] by simp_all

theorem bitmap_calls_correct_witness:
  "wf_bitmap (bitmap_of 40 [3]) \<and>
   run_calls set_call [TestAndSet 39, TestAndSet 39, FlipBit 3, IsSet 3] (bm_set (bitmap_of 40 [3])) =
     (bm_set (fst (run_calls bitmap_call [TestAndSet 39, TestAndSet 39, FlipBit 3, IsSet 3] (bitmap_of 40 [3]))),
      [Some False, Some True, None, Some False])"
proof -
  have m: "wf_bitmap (bitmap_of 40 [3])" "n_bits (bitmap_of 40 [3]) = 40" "bm_set (bitmap_of 40 [3]) = {3}"
    using bitmap_of_ok [of 40 "[3]"] by simp_all
  show ?thesis
    using bitmap_calls_correct [of "bitmap_of 40 [3]" "[TestAndSet 39, TestAndSet 39, FlipBit 3, IsSet 3]"] m
    by (auto simp: prod_eq_iff)
qed

text \<open>C18: The operations on whole bitmaps are the set operations, and keep the bitmap well formed:
  union, difference, symmetric difference, copy and complement for bitmaps of one size, the
  intersection also for bitmaps of different sizes, the prefix operation, which keeps the first
  bits only, and the operation that sets or clears all bits from a byte on.\<close>

theorem bitmap_bulk_correct:
  assumes "wf_bitmap m" "wf_bitmap m2" "wf_bitmap m3" "n_bits m = n_bits m2"
  shows "bm_set (bitmap_union m m2) = bm_set m \<union> bm_set m2 \<and>
    bm_set (bitmap_subtract m m2) = bm_set m - bm_set m2 \<and>
    bm_set (bitmap_xor m m2) = (bm_set m - bm_set m2) \<union> (bm_set m2 - bm_set m) \<and>
    bm_set (bitmap_copy m m2) = bm_set m2 \<and>
    bm_set (bitmap_invert m) = {..<n_bits m} - bm_set m \<and>
    bm_set (bitmap_intersect m m3) = bm_set m \<inter> bm_set m3 \<and>
    bm_set (bitmap_set_prefix m k) = {..<min k (n_bits m)} \<and>
    bm_set (bitmap_set_above m k v) =
      {b \<in> bm_set m. b < 8 * k} \<union> (if v then {b. 8 * k \<le> b \<and> b < n_bits m} else {}) \<and>
    wf_bitmap (bitmap_union m m2) \<and> wf_bitmap (bitmap_subtract m m2) \<and> wf_bitmap (bitmap_xor m m2) \<and>
    wf_bitmap (bitmap_copy m m2) \<and> wf_bitmap (bitmap_invert m) \<and> wf_bitmap (bitmap_intersect m m3) \<and>
    wf_bitmap (bitmap_set_prefix m k) \<and> wf_bitmap (bitmap_set_above m k v)"
  using assms bitmap_word_ops [of m m2] bitmap_intersect_set [of m m3] bitmap_set_prefix_set [of m k]
    bitmap_set_above_set [of m k v] wf_map_words [of m m2] wf_map_words [of m m]
  by (simp add: word_op_defs) (simp add: bitmap_set_above_def)

theorem bitmap_bulk_correct_witness:
  "wf_bitmap (bitmap_of 40 [3, 35]) \<and> wf_bitmap (bitmap_of 40 [3, 39]) \<and> wf_bitmap (bitmap_of 36 [35]) \<and>
   bm_set (bitmap_union (bitmap_of 40 [3, 35]) (bitmap_of 40 [3, 39])) = {3, 35, 39} \<and>
   bm_set (bitmap_xor (bitmap_of 40 [3, 35]) (bitmap_of 40 [3, 39])) = {35, 39} \<and>
   bm_set (bitmap_intersect (bitmap_of 40 [3, 35]) (bitmap_of 36 [35])) = {35}"
  using bitmap_bulk_correct [of "bitmap_of 40 [3, 35]" "bitmap_of 40 [3, 39]" "bitmap_of 36 [35]" 0 False]
    bitmap_of_ok [of 40 "[3, 35]"] bitmap_of_ok [of 40 "[3, 39]"] bitmap_of_ok [of 36 "[35]"]
  by auto

text \<open>C19: The tests on whole bitmaps decide the set relations, whatever the bits beyond the last hold:
  all set, all clear, subset, overlapping, equal, equal to a non-empty prefix, and the number
  of bits set is the number of elements.\<close>

theorem bitmap_tests_correct:
  assumes "wf_bitmap m" "wf_bitmap m2" "n_bits m = n_bits m2" "0 < p" "p \<le> n_bits m"
  shows "(bitmap_is_set_all m \<longleftrightarrow> bm_set m = {..<n_bits m}) \<and>
    (bitmap_is_clear_all m \<longleftrightarrow> bm_set m = {}) \<and>
    (bitmap_is_subset m m2 \<longleftrightarrow> bm_set m \<subseteq> bm_set m2) \<and>
    (bitmap_is_overlapping m m2 \<longleftrightarrow> bm_set m \<inter> bm_set m2 \<noteq> {}) \<and>
    (bitmap_cmp m m2 \<longleftrightarrow> bm_set m = bm_set m2) \<and>
    (bitmap_is_prefix m p \<longleftrightarrow> bm_set m = {..<p}) \<and>
    bitmap_bits_set m = card (bm_set m)"
  using assms by (simp add: bitmap_is_set_all_iff bitmap_is_clear_all_iff bitmap_is_subset_iff
      bitmap_is_overlapping_iff bitmap_cmp_iff bitmap_is_prefix_iff bitmap_bits_set_card)

theorem bitmap_tests_correct_witness:
  "wf_bitmap (bitmap_of 40 [0, 1]) \<and> wf_bitmap (bitmap_of 40 [0, 1, 39]) \<and>
   bitmap_is_subset (bitmap_of 40 [0, 1]) (bitmap_of 40 [0, 1, 39]) \<and>
   \<not> bitmap_cmp (bitmap_of 40 [0, 1]) (bitmap_of 40 [0, 1, 39]) \<and> bitmap_is_prefix (bitmap_of 40 [0, 1]) 2 \<and>
   bitmap_bits_set (bitmap_of 40 [0, 1]) = 2"
proof -
  have m: "wf_bitmap (bitmap_of 40 [0, 1])" "n_bits (bitmap_of 40 [0, 1]) = 40" "bm_set (bitmap_of 40 [0, 1]) = {0, 1}"
    using bitmap_of_ok [of 40 "[0, 1]"] by simp_all
  have m2: "wf_bitmap (bitmap_of 40 [0, 1, 39])" "n_bits (bitmap_of 40 [0, 1, 39]) = 40"
    "bm_set (bitmap_of 40 [0, 1, 39]) = {0, 1, 39}"
    using bitmap_of_ok [of 40 "[0, 1, 39]"] by simp_all
  have "n_bits (bitmap_of 40 [0, 1]) = n_bits (bitmap_of 40 [0, 1, 39])" "0 < (2 :: nat)"
    "2 \<le> n_bits (bitmap_of 40 [0, 1])" unfolding m m2 by simp_all
  note t = bitmap_tests_correct [OF m(1) m2(1) this, unfolded m(3) m2(3)]
  have "{0, 1} = {..<2 :: nat}" by auto
  moreover have "{0, 1} \<subseteq> {0, 1, 39 :: nat}" "card {0, 1 :: nat} = 2" by simp_all
  moreover have "{0, 1} \<noteq> {0, 1, 39 :: nat}"
    by (rule notI, drule eqset_imp_iff [of _ _ 39]) simp
  ultimately show ?thesis using t m(1) m2(1) by (simp only: simp_thms)
qed

text \<open>C20: The searches find the least bit of the set, the least bit above a given one (starting over when the
  given bit is \<open>MY_BIT_NONE\<close>) and the least free bit, or \<open>MY_BIT_NONE\<close> when there is none; taking the
  first free bit adds exactly that bit.\<close>

theorem bitmap_search_correct:
  assumes "wf_bitmap m"
  shows "bitmap_get_first_set m = first_of (bm_set m) \<and>
    bitmap_get_next_set m b = first_of {x \<in> bm_set m. uint_add b 1 \<le> x} \<and>
    snd (bitmap_get_first m) = first_of ({..<n_bits m} - bm_set m) \<and>
    bm_set (fst (bitmap_get_first m)) = bm_set m \<and>
    snd (bitmap_set_next m) = first_of ({..<n_bits m} - bm_set m) \<and>
    bm_set (fst (bitmap_set_next m)) =
      (if bm_set m = {..<n_bits m} then bm_set m else insert (first_of ({..<n_bits m} - bm_set m)) (bm_set m)) \<and>
    wf_bitmap (fst (bitmap_set_next m))"
  using assms by (simp only: bitmap_get_first_set_eq bitmap_get_next_set_eq bitmap_get_first_eq
      bitmap_get_first_state bitmap_set_next_eq simp_thms)

theorem bitmap_search_correct_witness:
  "wf_bitmap (bitmap_of 40 [2, 35]) \<and> bitmap_get_first_set (bitmap_of 40 [2, 35]) = 2 \<and>
   bitmap_get_next_set (bitmap_of 40 [2, 35]) 2 = 35 \<and> snd (bitmap_set_next (bitmap_of 40 [2, 35])) = 0"
proof -
  have m: "wf_bitmap (bitmap_of 40 [2, 35])" "n_bits (bitmap_of 40 [2, 35]) = 40" "bm_set (bitmap_of 40 [2, 35]) = {2, 35}"
    using bitmap_of_ok [of 40 "[2, 35]"] by simp_all
  have "{x \<in> {2, 35}. uint_add 2 1 \<le> x} = {35}" by (auto simp: uint_add_def)
  moreover have "Min ({..<40} - {2, 35}) = (0 :: nat)" by (intro Min_eqI) auto
  moreover have "\<not> {..<40} \<subseteq> {2, 35 :: nat}" by (rule notI, drule subsetD [of _ _ 0]) simp_all
  ultimately show ?thesis
    using bitmap_search_correct [OF m(1), of 2, unfolded m(2,3)] m(1) by (auto simp: first_of_def)
qed



text \<open>C33: The test whether two bitmaps cover all bits answers false for every pair that does: its last
  comparison is inverted.\<close>

theorem bitmap_union_is_set_all_inverted:
  assumes "wf_bitmap m1" "wf_bitmap m2" "n_bits m1 = n_bits m2" "bm_set m1 \<union> bm_set m2 = {..<n_bits m1}"
  shows "\<not> bitmap_union_is_set_all m1 m2"
  using assms by (rule bitmap_union_is_set_all_full)

theorem bitmap_union_is_set_all_inverted_witness:
  "wf_bitmap (bitmap_of 2 [0]) \<and> wf_bitmap (bitmap_of 2 [1]) \<and>
   bm_set (bitmap_of 2 [0]) \<union> bm_set (bitmap_of 2 [1]) = {..<2} \<and>
   \<not> bitmap_union_is_set_all (bitmap_of 2 [0]) (bitmap_of 2 [1])"
  using bitmap_union_is_set_all_inverted [of "bitmap_of 2 [0]" "bitmap_of 2 [1]"]
    bitmap_of_ok [of 2 "[0]"] bitmap_of_ok [of 2 "[1]"]
  by (auto simp: lessThan_nat_numeral lessThan_Suc)

end
