(* ===== verification/Base64.thy ===== *)
theory Base64
  imports Prelude
begin

text \<open>
  The base64 encoder and decoder of \<open>mysys/base64.c\<close>.  A text is a list of bytes; the decoder's
  pointers are positions in its input.  The destination of the decoder is a buffer of a given
  capacity, and a write beyond it is the result \<open>None\<close>.  An \<open>int\<close> is an integer that wraps around at
  32 bits.
\<close>

section \<open>The lengths\<close>

definition as_int32 :: "int \<Rightarrow> int" where
  "as_int32 n = (n + 2 ^ 31) mod 2 ^ 32 - 2 ^ 31"

text \<open>Division of C rounds towards zero.\<close>

definition c_div :: "int \<Rightarrow> int \<Rightarrow> int" where
  "c_div a b = sgn a * sgn b * (\<bar>a\<bar> div \<bar>b\<bar>)"

definition base64_encode_max_arg_length :: int where
  "base64_encode_max_arg_length = 0x5EC0D4C6"

definition base64_needed_encoded_length :: "int \<Rightarrow> int" where
  "base64_needed_encoded_length length_of_data =
     (let nb_base64_chars = as_int32 (c_div (as_int32 (length_of_data + 2)) 3 * 4) in
      as_int32 (as_int32 (nb_base64_chars + c_div (as_int32 (nb_base64_chars - 1)) 76) + 1))"

definition base64_decode_max_arg_length :: int where
  "base64_decode_max_arg_length = 0x7FFFFFFF"

text \<open>The cast to \<open>int\<close> binds stronger than the division.\<close>

definition base64_needed_decoded_length :: "int \<Rightarrow> int" where
  "base64_needed_decoded_length length_of_encoded_data =
     as_int32 (c_div (as_int32 (length_of_encoded_data + 3)) 4 * 3)"

section \<open>The encoder\<close>

definition base64_table :: "byte list" where
  "base64_table = map of_char ''ABCDEFGHIJKLMNOPQRSTUVWXYZabcdefghijklmnopqrstuvwxyz0123456789+/''"

definition newline :: byte where
  "newline = 10"

definition pad_char :: byte where
  "pad_char = of_char (CHR ''='')"

text \<open>The bits that the three bytes from position \<open>i\<close> contribute, with zeros for those behind the end.\<close>

definition enc_collect :: "byte list \<Rightarrow> nat \<Rightarrow> nat" where
  "enc_collect s i =
     (let c = unat (s ! i) * 2 ^ 8;
          c = (if i + 1 < length s then c + unat (s ! (i + 1)) else c) * 2 ^ 8 in
      if i + 2 < length s then c + unat (s ! (i + 2)) else c)"

function base64_encode_loop :: "byte list \<Rightarrow> nat \<Rightarrow> nat \<Rightarrow> byte list" where
  "base64_encode_loop s i len =
     (if i < length s then
        let src_len = length s; c = enc_collect s i; i' = i + 3; sep = len = 76 in
        (if sep then [newline] else []) @
        [base64_table ! (c div 2 ^ 18 mod 64), base64_table ! (c div 2 ^ 12 mod 64),
         if i' > src_len + 1 then pad_char else base64_table ! (c div 2 ^ 6 mod 64),
         if i' > src_len then pad_char else base64_table ! (c mod 64)] @
        base64_encode_loop s i' ((if sep then 0 else len) + 4)
      else [])"
  by pat_completeness auto
termination by (relation "measure (\<lambda>(s, i, len). length s - i)") auto

declare base64_encode_loop.simps [simp del]

text \<open>The text without the terminating zero.\<close>

definition base64_encode :: "byte list \<Rightarrow> byte list" where
  "base64_encode s = base64_encode_loop s 0 0"

section \<open>The decoder\<close>

record MY_BASE64_DECODER =
  d_src :: nat
  d_c :: nat
  d_error :: bool
  d_state :: nat
  d_mark :: nat

definition from_base64_table :: "int list" where
  "from_base64_table =
    [- 1, - 1, - 1, - 1, - 1, - 1, - 1, - 1, - 1, - 2, - 2, - 2, - 2, - 2, - 1, - 1,
     - 1, - 1, - 1, - 1, - 1, - 1, - 1, - 1, - 1, - 1, - 1, - 1, - 1, - 1, - 1, - 1,
     - 2, - 1, - 1, - 1, - 1, - 1, - 1, - 1, - 1, - 1, - 1, 62, - 1, - 1, - 1, 63,
     52, 53, 54, 55, 56, 57, 58, 59, 60, 61, - 1, - 1, - 1, - 1, - 1, - 1,
     - 1, 0, 1, 2, 3, 4, 5, 6, 7, 8, 9, 10, 11, 12, 13, 14,
     15, 16, 17, 18, 19, 20, 21, 22, 23, 24, 25, - 1, - 1, - 1, - 1, - 1,
     - 1, 26, 27, 28, 29, 30, 31, 32, 33, 34, 35, 36, 37, 38, 39, 40,
     41, 42, 43, 44, 45, 46, 47, 48, 49, 50, 51, - 1, - 1, - 1, - 1, - 1,
     - 1, - 1, - 1, - 1, - 1, - 1, - 1, - 1, - 1, - 1, - 1, - 1, - 1, - 1, - 1, - 1,
     - 1, - 1, - 1, - 1, - 1, - 1, - 1, - 1, - 1, - 1, - 1, - 1, - 1, - 1, - 1, - 1,
     - 2, - 1, - 1, - 1, - 1, - 1, - 1, - 1, - 1, - 1, - 1, - 1, - 1, - 1, - 1, - 1,
     - 1, - 1, - 1, - 1, - 1, - 1, - 1, - 1, - 1, - 1, - 1, - 1, - 1, - 1, - 1, - 1,
     - 1, - 1, - 1, - 1, - 1, - 1, - 1, - 1, - 1, - 1, - 1, - 1, - 1, - 1, - 1, - 1,
     - 1, - 1, - 1, - 1, - 1, - 1, - 1, - 1, - 1, - 1, - 1, - 1, - 1, - 1, - 1, - 1,
     - 1, - 1, - 1, - 1, - 1, - 1, - 1, - 1, - 1, - 1, - 1, - 1, - 1, - 1, - 1, - 1,
     - 1, - 1, - 1, - 1, - 1, - 1, - 1, - 1, - 1, - 1, - 1, - 1, - 1, - 1, - 1, - 1]"

definition from_base64 :: "byte \<Rightarrow> int" where
  "from_base64 ch = from_base64_table ! unat ch"

function skip_loop :: "byte list \<Rightarrow> nat \<Rightarrow> nat" where
  "skip_loop buf p = (if p < length buf \<and> from_base64 (buf ! p) = - 2 then skip_loop buf (Suc p) else p)"
  by pat_completeness auto
termination by (relation "measure (\<lambda>(buf, p). length buf - p)") auto

declare skip_loop.simps [simp del]

definition my_base64_decoder_skip_spaces :: "byte list \<Rightarrow> MY_BASE64_DECODER \<Rightarrow> MY_BASE64_DECODER \<times> bool" where
  "my_base64_decoder_skip_spaces buf d =
     (let d = d\<lparr>d_src := skip_loop buf (d_src d)\<rparr> in
      if d_src d < length buf then (d, False)
      else (if 0 < d_state d then d\<lparr>d_error := True\<rparr> else d, True))"

definition my_base64_add :: "byte list \<Rightarrow> MY_BASE64_DECODER \<Rightarrow> MY_BASE64_DECODER \<times> bool" where
  "my_base64_add buf d =
     (let res = from_base64 (buf ! d_src d);
          d = d\<lparr>d_c := (d_c d * 2 ^ 6) mod 2 ^ 32, d_src := d_src d + 1\<rparr> in
      if res < 0 then (d\<lparr>d_error := True\<rparr>, True)
      else (d\<lparr>d_c := (d_c d + nat res) mod 2 ^ 32\<rparr>, False))"

definition my_base64_decoder_getch :: "byte list \<Rightarrow> MY_BASE64_DECODER \<Rightarrow> MY_BASE64_DECODER \<times> bool" where
  "my_base64_decoder_getch buf d =
     (case my_base64_decoder_skip_spaces buf d of
        (d, True) \<Rightarrow> (d, True)
      | (d, False) \<Rightarrow>
          (case my_base64_add buf d of
             (d, False) \<Rightarrow>
               if d_mark d \<noteq> 0 then (d\<lparr>d_error := True, d_src := d_src d - 1\<rparr>, True)
               else (d\<lparr>d_state := d_state d + 1\<rparr>, False)
           | (d, True) \<Rightarrow>
               if d_state d \<le> 1 then (d\<lparr>d_src := d_src d - 1\<rparr>, True)
               else if d_state d \<le> 3 then
                 (if buf ! (d_src d - 1) = pad_char
                  then (d\<lparr>d_error := False, d_mark := d_mark d + 1, d_state := d_state d + 1\<rparr>, False)
                  else (d\<lparr>d_src := d_src d - 1\<rparr>, True))
               else (d, True)))"

text \<open>The four characters of a group, up to the first that stops the loop.\<close>

fun getch_times :: "nat \<Rightarrow> byte list \<Rightarrow> MY_BASE64_DECODER \<Rightarrow> MY_BASE64_DECODER \<times> bool" where
  "getch_times 0 buf d = (d, False)"
| "getch_times (Suc n) buf d =
     (case my_base64_decoder_getch buf d of
        (d, True) \<Rightarrow> (d, True)
      | (d, False) \<Rightarrow> getch_times n buf d)"

definition out_bytes :: "nat \<Rightarrow> byte list" where
  "out_bytes c = [word_of_nat (c div 2 ^ 16 mod 256), word_of_nat (c div 2 ^ 8 mod 256), word_of_nat (c mod 256)]"

section \<open>Progress of the decoder\<close>

definition nonspace :: "byte \<Rightarrow> bool" where
  "nonspace ch \<longleftrightarrow> from_base64 ch \<noteq> - 2"

definition unread :: "byte list \<Rightarrow> nat \<Rightarrow> byte list" where
  "unread buf p = filter nonspace (drop p buf)"

lemma skip_loop_bounds: "p \<le> length buf \<Longrightarrow> p \<le> skip_loop buf p \<and> skip_loop buf p \<le> length buf"
proof (induction buf p rule: skip_loop.induct)
  case (1 buf p)
  then show ?case using skip_loop.simps [of buf p] by auto
qed

lemma unread_skip_loop: "unread buf (skip_loop buf p) = unread buf p"
proof (induction buf p rule: skip_loop.induct)
  case (1 buf p)
  then show ?case
    using skip_loop.simps [of buf p] by (auto simp: unread_def nonspace_def Cons_nth_drop_Suc [symmetric])
qed

lemma skip_loop_stop: "skip_loop buf p < length buf \<Longrightarrow> nonspace (buf ! skip_loop buf p)"
proof (induction buf p rule: skip_loop.induct)
  case (1 buf p)
  then show ?case using skip_loop.simps [of buf p] by (auto simp: nonspace_def split: if_splits)
qed

lemma unread_at:
  assumes "p < length buf" "nonspace (buf ! p)"
  shows "unread buf p = buf ! p # unread buf (Suc p)"
  using assms by (simp add: unread_def Cons_nth_drop_Suc [symmetric])

lemma skip_loop_cases:
  assumes "p \<le> length buf"
  obtains "unread buf p = []" "skip_loop buf p = length buf"
  | ch q where "skip_loop buf p = q" "p \<le> q" "q < length buf" "buf ! q = ch" "nonspace ch"
      "unread buf p = ch # unread buf (Suc q)" "unread buf q = ch # unread buf (Suc q)"
proof (cases "skip_loop buf p < length buf")
  case True
  then show thesis
    using that(2) skip_loop_bounds [OF assms] skip_loop_stop [OF True] unread_at [OF True skip_loop_stop [OF True]]
      unread_skip_loop [of buf p] by metis
next
  case False
  then have "skip_loop buf p = length buf" using skip_loop_bounds [OF assms] by simp
  moreover from this have "unread buf p = []" using unread_skip_loop [of buf p] by (simp add: unread_def)
  ultimately show thesis using that(1) by blast
qed

text \<open>What reading a character does, in terms of the next character that is not a space.\<close>

lemma getch_end:
  assumes "d_src d \<le> length buf" "unread buf (d_src d) = []"
  shows "my_base64_decoder_getch buf d =
    (d\<lparr>d_src := length buf, d_error := (0 < d_state d \<or> d_error d)\<rparr>, True)"
  using assms(1) by (rule skip_loop_cases)
    (use assms(2) in \<open>auto simp: my_base64_decoder_getch_def my_base64_decoder_skip_spaces_def Let_def\<close>)

definition getch_result :: "MY_BASE64_DECODER \<Rightarrow> nat \<Rightarrow> byte \<Rightarrow> MY_BASE64_DECODER \<times> bool" where
  "getch_result d q ch =
     (if 0 \<le> from_base64 ch then
        (let d' = d\<lparr>d_c := ((d_c d * 64) mod 2 ^ 32 + nat (from_base64 ch)) mod 2 ^ 32\<rparr> in
         if d_mark d \<noteq> 0 then (d'\<lparr>d_src := q, d_error := True\<rparr>, True)
         else (d'\<lparr>d_src := Suc q, d_state := d_state d + 1\<rparr>, False))
      else if 2 \<le> d_state d \<and> d_state d \<le> 3 \<and> ch = pad_char
      then (d\<lparr>d_c := (d_c d * 64) mod 2 ^ 32, d_src := Suc q, d_error := False, d_mark := d_mark d + 1,
             d_state := d_state d + 1\<rparr>, False)
      else (d\<lparr>d_c := (d_c d * 64) mod 2 ^ 32, d_src := (if d_state d \<le> 3 then q else Suc q), d_error := True\<rparr>, True))"

lemma getch_char:
  assumes "d_src d \<le> length buf" "unread buf (d_src d) = ch # r"
  obtains q where "d_src d \<le> q" "q < length buf" "unread buf q = ch # r" "unread buf (Suc q) = r"
    "my_base64_decoder_getch buf d = getch_result d q ch"
  using assms(1)
proof (rule skip_loop_cases)
  fix ch' q
  assume "skip_loop buf (d_src d) = q" "d_src d \<le> q" "q < length buf" "buf ! q = ch'" "nonspace ch'"
    "unread buf (d_src d) = ch' # unread buf (Suc q)" "unread buf q = ch' # unread buf (Suc q)"
  then show thesis
    using assms(2)
    by (intro that [of q]) (simp_all add: getch_result_def my_base64_decoder_getch_def my_base64_decoder_skip_spaces_def
        my_base64_add_def Let_def)
qed (use assms(2) in simp)

lemma getch_progress:
  assumes "my_base64_decoder_getch buf d = (d', False)"
  shows "d_src d < d_src d' \<and> d_src d' \<le> length buf"
proof (cases "d_src d \<le> length buf")
  case True
  show ?thesis
  proof (cases "unread buf (d_src d)")
    case Nil
    with assms True show ?thesis by (simp add: getch_end)
  next
    case (Cons ch r)
    with True show ?thesis by (rule getch_char) (use assms in \<open>auto simp: getch_result_def Let_def split: if_splits\<close>)
  qed
next
  case False
  then have "skip_loop buf (d_src d) = d_src d" by (simp add: skip_loop.simps)
  with False assms show ?thesis
    by (simp add: my_base64_decoder_getch_def my_base64_decoder_skip_spaces_def Let_def)
qed

lemma getch_times_progress:
  "getch_times n buf d = (d', False) \<Longrightarrow> 0 < n \<Longrightarrow> d_src d < d_src d' \<and> d_src d' \<le> length buf"
proof (induction n arbitrary: d)
  case (Suc n)
  then obtain d1 where d1: "my_base64_decoder_getch buf d = (d1, False)" "getch_times n buf d1 = (d', False)"
    by (auto split: prod.splits bool.splits)
  show ?case
  proof (cases n)
    case 0
    then show ?thesis using getch_progress [OF d1(1)] d1(2) by simp
  next
    case (Suc k)
    then show ?thesis using getch_progress [OF d1(1)] Suc.IH [OF d1(2)] by simp
  qed
qed simp

section \<open>The decoding loop\<close>

function base64_decode_loop ::
  "nat \<Rightarrow> bool \<Rightarrow> byte list \<Rightarrow> MY_BASE64_DECODER \<Rightarrow> byte list \<Rightarrow> (MY_BASE64_DECODER \<times> byte list) option" where
  "base64_decode_loop cap multi buf d out =
     (case getch_times 4 buf (d\<lparr>d_c := 0, d_state := 0\<rparr>) of
        (d, True) \<Rightarrow> Some (d, out)
      | (d, False) \<Rightarrow>
          if cap < length out + 3 then None
          else let out = out @ out_bytes (d_c d) in
            if d_mark d \<noteq> 0 then
              let out = take (length out - d_mark d) out in
              if \<not> multi then Some (d, out)
              else base64_decode_loop cap multi buf (d\<lparr>d_mark := 0\<rparr>) out
            else base64_decode_loop cap multi buf d out)"
  by pat_completeness auto
termination
proof (relation "measure (\<lambda>(cap, multi, buf, d, out). length buf - d_src d)")
qed (auto dest: getch_times_progress [OF sym])

declare base64_decode_loop.simps [simp del]

text \<open>The result and the end position of the call, with the bytes that it left at the destination.\<close>

definition base64_decode :: "nat \<Rightarrow> byte list \<Rightarrow> bool \<Rightarrow> (int \<times> nat \<times> byte list) option" where
  "base64_decode cap buf multi =
     (case base64_decode_loop cap multi buf \<lparr>d_src = 0, d_c = 0, d_error = False, d_state = 0, d_mark = 0\<rparr> [] of
        None \<Rightarrow> None
      | Some (d, out) \<Rightarrow>
          (case my_base64_decoder_skip_spaces buf (d\<lparr>d_state := 0\<rparr>) of (d, eof) \<Rightarrow>
             let d = (if \<not> eof then d\<lparr>d_error := True\<rparr> else d) in
             Some (if d_error d then - 1 else as_int32 (int (length out)), d_src d, out)))"

section \<open>The meaning of a text\<close>

text \<open>A group of four characters, the spaces left out: its bits and its number of padding marks.\<close>

definition valid_char :: "byte \<Rightarrow> bool" where
  "valid_char ch \<longleftrightarrow> 0 \<le> from_base64 ch"

definition char_val :: "byte \<Rightarrow> nat" where
  "char_val ch = nat (from_base64 ch)"

fun group4 :: "byte list \<Rightarrow> (nat \<times> nat \<times> byte list) option" where
  "group4 (a # b # x # y # r) =
     (if \<not> valid_char a \<or> \<not> valid_char b then None
      else if valid_char x \<and> valid_char y
      then Some (((char_val a * 64 + char_val b) * 64 + char_val x) * 64 + char_val y, 0, r)
      else if valid_char x \<and> y = pad_char
      then Some (((char_val a * 64 + char_val b) * 64 + char_val x) * 64, 1, r)
      else if x = pad_char \<and> y = pad_char
      then Some (((char_val a * 64 + char_val b) * 64) * 64, 2, r)
      else None)"
| "group4 _ = None"

lemma group4_shorter: "group4 u = Some (v, k, r) \<Longrightarrow> length r < length u"
  by (induction u rule: group4.induct) (auto split: if_splits)

function text_value :: "bool \<Rightarrow> byte list \<Rightarrow> byte list option" where
  "text_value multi u =
     (if u = [] then Some []
      else case group4 u of
        None \<Rightarrow> None
      | Some (v, k, r) \<Rightarrow>
          if k \<noteq> 0 \<and> \<not> multi then (if r = [] then Some (take (3 - k) (out_bytes v)) else None)
          else map_option ((@) (take (3 - k) (out_bytes v))) (text_value multi r))"
  by pat_completeness auto
termination by (relation "measure (\<lambda>(multi, u). length u)") (auto dest: group4_shorter)

declare text_value.simps [simp del]

section \<open>The decoder computes the meaning\<close>

lemma from_base64_bound: "from_base64 ch < 64"
proof -
  have "list_all (\<lambda>v. v < 64) from_base64_table" "length from_base64_table = 256" by (simp_all add: from_base64_table_def)
  moreover have "unat ch < 256" using unsigned_less [of ch] by simp
  ultimately show ?thesis by (simp add: from_base64_def list_all_length)
qed

lemma char_val_bound: "char_val ch < 64"
  using from_base64_bound [of ch] by (simp add: char_val_def)

lemma pad_invalid [simp]: "\<not> valid_char pad_char"
  by (simp add: valid_char_def from_base64_def pad_char_def from_base64_table_def)

text \<open>Reading characters, abstractly: the text left, the bits, the position in the group, the marks.\<close>

fun read_chars :: "nat \<Rightarrow> byte list \<Rightarrow> nat \<Rightarrow> nat \<Rightarrow> nat \<Rightarrow> (nat \<times> nat \<times> byte list) option" where
  "read_chars 0 u v st k = Some (v, k, u)"
| "read_chars (Suc n) [] v st k = None"
| "read_chars (Suc n) (ch # r) v st k =
     (if valid_char ch then (if k \<noteq> 0 then None else read_chars n r (v * 64 + char_val ch) (Suc st) k)
      else if 2 \<le> st \<and> st \<le> 3 \<and> ch = pad_char then read_chars n r (v * 64) (Suc st) (Suc k)
      else None)"

lemma read_chars_group4: "read_chars 4 u 0 0 0 = group4 u"
proof -
  have "read_chars (Suc (Suc (Suc (Suc 0)))) u 0 0 0 = group4 u"
    by (cases u rule: group4.cases) simp_all
  then show ?thesis by (simp only: eval_nat_numeral BitM.simps One_nat_def)
qed

lemma getch_times_read:
  assumes "d_src d \<le> length buf" "\<not> d_error d" "(d_c d + 1) * 64 ^ n \<le> 2 ^ 32"
  shows "case read_chars n (unread buf (d_src d)) (d_c d) (d_state d) (d_mark d) of
      Some (v, k, r) \<Rightarrow> (\<exists>d'. getch_times n buf d = (d', False) \<and> d_c d' = v \<and> d_mark d' = k \<and>
        unread buf (d_src d') = r \<and> d_src d' \<le> length buf \<and> \<not> d_error d')
    | None \<Rightarrow> (\<exists>d'. getch_times n buf d = (d', True) \<and> d_src d' \<le> length buf \<and>
        (d_error d' \<longleftrightarrow> \<not> (unread buf (d_src d) = [] \<and> d_state d = 0)) \<and>
        (unread buf (d_src d) = [] \<longrightarrow> unread buf (d_src d') = []))"
  using assms
proof (induction n arbitrary: d)
  case (Suc n)
  show ?case
  proof (cases "unread buf (d_src d)")
    case Nil
    then show ?thesis using Suc.prems by (auto simp: getch_end unread_def)
  next
    case (Cons ch r)
    have val: "nat (from_base64 ch) = char_val ch" by (simp add: char_val_def)
    have "(d_c d * 64 + char_val ch + 1) * 64 ^ n \<le> (d_c d + 1) * 64 * 64 ^ n"
      using char_val_bound [of ch] by (intro mult_right_mono) simp_all
    also have "\<dots> \<le> 2 ^ 32" using Suc.prems(3) by (simp add: algebra_simps)
    finally have b: "(d_c d * 64 + char_val ch + 1) * 64 ^ n \<le> 2 ^ 32" .
    moreover have "(d_c d * 64 + char_val ch + 1) * 1 \<le> (d_c d * 64 + char_val ch + 1) * 64 ^ n"
      by (intro mult_left_mono) simp_all
    ultimately have c: "d_c d * 64 + char_val ch < 2 ^ 32" by simp
    have b0: "(d_c d * 64 + 1) * 64 ^ n \<le> 2 ^ 32"
      by (rule order_trans [OF _ b]) (intro mult_right_mono, simp_all)
    from Suc.prems(1) Cons show ?thesis
    proof (rule getch_char)
      fix q
      assume q: "d_src d \<le> q" "q < length buf" "unread buf q = ch # r" "unread buf (Suc q) = r"
        and g: "my_base64_decoder_getch buf d = getch_result d q ch"
      have m: "(d_c d * 64) mod 2 ^ 32 = d_c d * 64" "(d_c d * 64 + char_val ch) mod 2 ^ 32 = d_c d * 64 + char_val ch"
        using c by simp_all
      consider "valid_char ch" "d_mark d = 0" | "\<not> valid_char ch" "2 \<le> d_state d \<and> d_state d \<le> 3 \<and> ch = pad_char"
        | "valid_char ch" "d_mark d \<noteq> 0" | "\<not> valid_char ch" "\<not> (2 \<le> d_state d \<and> d_state d \<le> 3 \<and> ch = pad_char)"
        by blast
      then show ?thesis
      proof cases
        case 1
        let ?d = "d\<lparr>d_c := d_c d * 64 + char_val ch, d_src := Suc q, d_state := d_state d + 1\<rparr>"
        have "my_base64_decoder_getch buf d = (?d, False)"
          using 1 unfolding g getch_result_def Let_def val m valid_char_def by simp
        then show ?thesis using Suc.IH [of ?d] Suc.prems(2) b q 1 Cons by (auto split: option.splits)
      next
        case 2
        let ?d = "d\<lparr>d_c := d_c d * 64, d_src := Suc q, d_error := False, d_mark := d_mark d + 1, d_state := d_state d + 1\<rparr>"
        have "my_base64_decoder_getch buf d = (?d, False)"
          using 2 unfolding g getch_result_def Let_def val m valid_char_def by simp
        then show ?thesis using Suc.IH [of ?d] Suc.prems(2) b0 q 2 Cons by (auto split: option.splits)
      next
        case 3
        have "\<exists>d'. my_base64_decoder_getch buf d = (d', True) \<and> d_error d' \<and> d_src d' \<le> length buf"
          using 3 q unfolding g getch_result_def valid_char_def Let_def by auto
        then show ?thesis using 3 Cons by auto
      next
        case 4
        have "\<exists>d'. my_base64_decoder_getch buf d = (d', True) \<and> d_error d' \<and> d_src d' \<le> length buf"
          using 4 q unfolding g getch_result_def valid_char_def Let_def by auto
        moreover have "read_chars (Suc n) (ch # r) (d_c d) (d_state d) (d_mark d) = None" using 4 by auto
        ultimately show ?thesis using Cons by auto
      qed
    qed
  qed
qed simp

lemma group4_length: "group4 u = Some (v, k, r) \<Longrightarrow> length u = length r + 4 \<and> k \<le> 2"
  by (induction u rule: group4.induct) (auto split: if_splits)

lemma length_out_bytes [simp]: "length (out_bytes v) = 3"
  by (simp add: out_bytes_def)

lemma base64_decode_loop_value:
  assumes "d_src d \<le> length buf" "\<not> d_error d" "d_mark d = 0" "unread buf (d_src d) = u"
    and "length out + 3 * (length u div 4) \<le> cap"
  shows "case text_value multi u of
      Some w \<Rightarrow> (\<exists>d'. base64_decode_loop cap multi buf d out = Some (d', out @ w) \<and> \<not> d_error d' \<and>
        unread buf (d_src d') = [] \<and> d_src d' \<le> length buf)
    | None \<Rightarrow> (\<exists>d' out'. base64_decode_loop cap multi buf d out = Some (d', out') \<and> d_src d' \<le> length buf \<and>
        (d_error d' \<or> unread buf (d_src d') \<noteq> []))"
  using assms
proof (induction multi u arbitrary: d out rule: text_value.induct)
  case (1 multi u)
  let ?d = "d\<lparr>d_c := 0, d_state := 0\<rparr>"
  have read: "case group4 u of
      Some (v, k, r) \<Rightarrow> (\<exists>d'. getch_times 4 buf ?d = (d', False) \<and> d_c d' = v \<and> d_mark d' = k \<and>
        unread buf (d_src d') = r \<and> d_src d' \<le> length buf \<and> \<not> d_error d')
    | None \<Rightarrow> (\<exists>d'. getch_times 4 buf ?d = (d', True) \<and> d_src d' \<le> length buf \<and>
        (d_error d' \<longleftrightarrow> u \<noteq> []) \<and> (u = [] \<longrightarrow> unread buf (d_src d') = []))"
    using getch_times_read [of ?d buf 4] 1(2-5) by (simp add: read_chars_group4 cong: option.case_cong)
  show ?case
  proof (cases "group4 u")
    case None
    then obtain d' where "getch_times 4 buf ?d = (d', True)" "d_src d' \<le> length buf"
        "d_error d' \<longleftrightarrow> u \<noteq> []" "u = [] \<longrightarrow> unread buf (d_src d') = []"
      using read by auto
    then show ?thesis
      using None by (simp add: base64_decode_loop.simps [of cap multi buf d] text_value.simps [of multi u])
  next
    case (Some g)
    then obtain v k r where g: "group4 u = Some (v, k, r)" by (cases g) auto
    then obtain d' where d': "getch_times 4 buf ?d = (d', False)" "d_c d' = v" "d_mark d' = k"
        "unread buf (d_src d') = r" "d_src d' \<le> length buf" "\<not> d_error d'"
      using read by auto
    have u: "u \<noteq> []" "length u = length r + 4" "k \<le> 2" using group4_length [OF g] by auto
    define out' where "out' = out @ take (3 - k) (out_bytes v)"
    have cap: "\<not> cap < length out + 3" "length out' + 3 * (length r div 4) \<le> cap"
      using 1(6) u div_add_self2 [of 4 "length r"] by (simp_all add: out'_def)
    have same: "d'\<lparr>d_mark := 0\<rparr> = d'" if "k = 0" using d'(3) that by (cases d') simp
    have loop: "base64_decode_loop cap multi buf d out =
        (if k \<noteq> 0 \<and> \<not> multi then Some (d', out')
         else base64_decode_loop cap multi buf (d'\<lparr>d_mark := 0\<rparr>) out')"
      using d' cap(1) u by (cases "k = 0") (simp_all add: base64_decode_loop.simps [of cap multi buf d] out'_def Let_def same)
    have val: "text_value multi u =
        (if k \<noteq> 0 \<and> \<not> multi then (if r = [] then Some (take (3 - k) (out_bytes v)) else None)
         else map_option ((@) (take (3 - k) (out_bytes v))) (text_value multi r))"
      using u g by (simp add: text_value.simps [of multi u])
    show ?thesis
    proof (cases "k \<noteq> 0 \<and> \<not> multi")
      case True
      then show ?thesis unfolding loop val using d' by (auto simp: out'_def)
    next
      case False
      then show ?thesis
        unfolding loop val using 1(1) [OF u(1) g refl refl False, of "d'\<lparr>d_mark := 0\<rparr>" out'] d' cap(2)
        by (auto simp: out'_def split: option.splits)
    qed
  qed
qed

end
