(* ===== verification/Base64_Codec.thy ===== *)
theory Base64_Codec
  imports Base64
begin

text \<open>
  What \<open>mysys/base64.c\<close> promises: the decoder computes the meaning of a text with the spaces left
  out and stays within its buffer, the encoder's text decodes to what was encoded, and the
  lengths computed for the buffers are large enough, up to the stated limits.
\<close>

section \<open>Lengths without overflow\<close>

lemma as_int32_id: "- (2 ^ 31) \<le> n \<Longrightarrow> n < 2 ^ 31 \<Longrightarrow> as_int32 n = n"
  by (simp add: as_int32_def)

lemma c_div_nonneg: "0 \<le> a \<Longrightarrow> 0 < b \<Longrightarrow> c_div a b = a div b"
  by (auto simp: c_div_def sgn_if)

lemma needed_decoded_length:
  assumes "int n + 3 < 2 ^ 31"
  shows "base64_needed_decoded_length (int n) = 3 * int ((n + 3) div 4)"
proof -
  have "(int n + 3) div 4 * 3 \<le> int n + 3" by simp
  then have "as_int32 ((int n + 3) div 4 * 3) = (int n + 3) div 4 * 3"
    using assms by (intro as_int32_id) simp_all
  moreover have "int ((n + 3) div 4) = (int n + 3) div 4" by (simp add: zdiv_int)
  ultimately show ?thesis using assms
    by (simp add: base64_needed_decoded_length_def as_int32_id c_div_nonneg)
qed

lemma needed_encoded_length:
  assumes "int n \<le> base64_encode_max_arg_length" "0 < n"
  shows "base64_needed_encoded_length (int n) =
    int (4 * ((n + 2) div 3) + (4 * ((n + 2) div 3) - 1) div 76 + 1)"
proof -
  define q where "q = (int n + 2) div 3"
  have n: "int n \<le> 1589695686" using assms(1) by (simp add: base64_encode_max_arg_length_def)
  have q: "1 \<le> q" "q \<le> 529898562" using n assms(2) by (simp_all add: q_def)
  have r: "0 \<le> (q * 4 - 1) div 76" "(q * 4 - 1) div 76 \<le> 27889397" using q by (simp_all)
  have "base64_needed_encoded_length (int n) = q * 4 + (q * 4 - 1) div 76 + 1"
    using n q r by (simp add: base64_needed_encoded_length_def as_int32_id c_div_nonneg q_def [symmetric] Let_def)
  moreover have "int ((n + 2) div 3) = q" by (simp add: q_def zdiv_int)
  moreover have "int ((4 * ((n + 2) div 3) - 1) div 76) = (q * 4 - 1) div 76"
    using q(1) \<open>int ((n + 2) div 3) = q\<close> by (simp add: zdiv_int of_nat_diff)
  ultimately show ?thesis by simp
qed

lemma needed_encoded_length_values:
  "base64_needed_encoded_length 0 = 1" "base64_needed_encoded_length 1589695687 = - 2147483645"
proof -
  have c: "c_div 2 3 = 0" "c_div (- 1) 76 = 0" "c_div 1589695689 3 = 529898563" "c_div 2119594251 76 = 27889398"
    by (simp_all add: c_div_def)
  have "as_int32 2147483650 = - 2147483646" by (simp add: as_int32_def)
  then show "base64_needed_encoded_length 0 = 1" "base64_needed_encoded_length 1589695687 = - 2147483645"
    by (simp_all add: base64_needed_encoded_length_def as_int32_id c)
qed

section \<open>The decoder\<close>

lemma unread_length: "length (unread buf p) \<le> length buf"
  by (simp add: unread_def le_trans [OF length_filter_le])

lemma base64_decode_value:
  assumes "3 * (length buf div 4) \<le> cap"
  shows "case text_value multi (filter nonspace buf) of
      Some w \<Rightarrow> base64_decode cap buf multi = Some (as_int32 (int (length w)), length buf, w)
    | None \<Rightarrow> (\<exists>p out. base64_decode cap buf multi = Some (- 1, p, out))"
proof -
  let ?d = "\<lparr>d_src = 0, d_c = 0, d_error = False, d_state = 0, d_mark = 0\<rparr>"
  have u: "unread buf 0 = filter nonspace buf" by (simp add: unread_def)
  have "3 * (length (filter nonspace buf) div 4) \<le> cap"
    using assms div_le_mono [OF length_filter_le [of nonspace buf], of 4] by simp
  then have loop: "case text_value multi (filter nonspace buf) of
      Some w \<Rightarrow> (\<exists>d'. base64_decode_loop cap multi buf ?d [] = Some (d', w) \<and> \<not> d_error d' \<and>
        unread buf (d_src d') = [] \<and> d_src d' \<le> length buf)
    | None \<Rightarrow> (\<exists>d' out'. base64_decode_loop cap multi buf ?d [] = Some (d', out') \<and> d_src d' \<le> length buf \<and>
        (d_error d' \<or> unread buf (d_src d') \<noteq> []))"
    using base64_decode_loop_value [of ?d buf "filter nonspace buf" "[]" cap multi] u by (simp cong: option.case_cong)
  have skip: "my_base64_decoder_skip_spaces buf (d\<lparr>d_state := 0\<rparr>) =
      (d\<lparr>d_state := 0, d_src := skip_loop buf (d_src d)\<rparr>, unread buf (d_src d) = [])"
    "unread buf (d_src d) = [] \<Longrightarrow> skip_loop buf (d_src d) = length buf"
    if "d_src d \<le> length buf" for d
    using that by (rule skip_loop_cases; simp add: my_base64_decoder_skip_spaces_def Let_def)+
  show ?thesis
    using loop by (auto simp: base64_decode_def skip Let_def split: option.splits)
qed

section \<open>The encoder\<close>

text \<open>The text of a list, three bytes at a time, without the line separators.\<close>

definition enc_char :: "nat \<Rightarrow> nat \<Rightarrow> byte" where
  "enc_char v k = base64_table ! (v div 64 ^ k mod 64)"

fun text_of :: "byte list \<Rightarrow> byte list" where
  "text_of [] = []"
| "text_of [x] = (let v = unat x * 2 ^ 16 in [enc_char v 3, enc_char v 2, pad_char, pad_char])"
| "text_of [x, y] = (let v = unat x * 2 ^ 16 + unat y * 2 ^ 8 in [enc_char v 3, enc_char v 2, enc_char v 1, pad_char])"
| "text_of (x # y # z # r) =
     (let v = unat x * 2 ^ 16 + unat y * 2 ^ 8 + unat z in
      [enc_char v 3, enc_char v 2, enc_char v 1, enc_char v 0] @ text_of r)"

lemma table_chars:
  "list_all (\<lambda>v. from_base64 (base64_table ! v) = int v) [0..<64]"
  by code_simp

lemma from_base64_table_char: "v < 64 \<Longrightarrow> from_base64 (base64_table ! v) = int v"
  using table_chars by (simp add: list_all_iff)

lemma enc_char_valid:
  "valid_char (enc_char v k)" "char_val (enc_char v k) = v div 64 ^ k mod 64" "nonspace (enc_char v k)"
  by (simp_all add: enc_char_def valid_char_def char_val_def nonspace_def from_base64_table_char)

lemma pad_nonspace: "nonspace pad_char" and newline_space: "\<not> nonspace newline"
  by (simp_all add: nonspace_def from_base64_def pad_char_def newline_def from_base64_table_def)

lemma digits64:
  fixes v :: nat
  assumes "v < 64 ^ 4"
  shows "((v div 64 ^ 3 mod 64 * 64 + v div 64 ^ 2 mod 64) * 64 + v div 64 ^ 1 mod 64) * 64 + v div 64 ^ 0 mod 64 = v"
proof -
  have step: "v div 64 ^ Suc k * 64 + v div 64 ^ k mod 64 = v div 64 ^ k" for k
    using div_mult2_eq [of v "64 ^ k" 64] by (simp add: mult.commute)
  have "v div 64 ^ 3 mod 64 = v div 64 ^ 3" using assms by (simp add: less_mult_imp_div_less)
  then show ?thesis using step [of 2] step [of 1] step [of 0] by (simp add: numeral_2_eq_2 numeral_3_eq_3)
qed

lemma byte_bound: "unat (x :: byte) < 256"
  using unsigned_less [of x] by simp

lemma out_bytes_collect: "out_bytes (unat x * 2 ^ 16 + unat y * 2 ^ 8 + unat z) = [x, y, z]" for x y z :: byte
proof -
  define a b c where "a = unat x" "b = unat y" "c = unat z"
  have lt: "a < 256" "b < 256" "c < 256" by (simp_all add: a_b_c_def byte_bound)
  define w where "w = a * 2 ^ 16 + b * 2 ^ 8 + c"
  have w: "w = (a * 256 + b) * 256 + c" by (simp add: w_def)
  have "(k * 256 + c) mod 256 = c" "(k * 256 + c) div 256 = k" for k using lt by simp_all
  then have m: "w mod 256 = c" and d: "w div 256 = a * 256 + b" unfolding w by blast+
  have d2: "w div 2 ^ 16 = a" using lt d div_mult2_eq [of w 256 256] by simp
  have "out_bytes w = [word_of_nat a, word_of_nat b, word_of_nat c]"
    using lt m d d2 by (simp add: out_bytes_def)
  then show ?thesis by (simp add: w_def a_b_c_def)
qed

lemma group4_text:
  assumes "v < 64 ^ 4"
  shows "group4 (enc_char v 3 # enc_char v 2 # enc_char v 1 # enc_char v 0 # r) = Some (v, 0, r)"
    "v mod 64 = 0 \<Longrightarrow> group4 (enc_char v 3 # enc_char v 2 # enc_char v 1 # pad_char # r) = Some (v, 1, r)"
    "v mod 64 = 0 \<Longrightarrow> v div 64 mod 64 = 0 \<Longrightarrow>
      group4 (enc_char v 3 # enc_char v 2 # pad_char # pad_char # r) = Some (v, 2, r)"
  using digits64 [OF assms] assms by (simp_all add: enc_char_valid less_mult_imp_div_less)

lemma collect_bound: "unat (x :: byte) * 2 ^ 16 + unat (y :: byte) * 2 ^ 8 + unat (z :: byte) < 64 ^ 4"
  using byte_bound [of x] byte_bound [of y] byte_bound [of z] by simp

lemma text_value_text_of: "text_value multi (text_of xs) = Some xs"
proof (induction xs rule: text_of.induct)
  case 1
  then show ?case by (simp add: text_value.simps)
next
  case (2 x)
  let ?v = "unat x * 2 ^ 16"
  have "group4 (text_of [x]) = Some (?v, 2, [])"
    using group4_text(3) [of ?v "[]"] collect_bound [of x 0 0] by (simp add: Let_def)
  then show ?case using out_bytes_collect [of x 0 0] by (subst text_value.simps) (simp add: Let_def text_value.simps)
next
  case (3 x y)
  let ?v = "unat x * 2 ^ 16 + unat y * 2 ^ 8"
  have "group4 (text_of [x, y]) = Some (?v, 1, [])"
    using group4_text(2) [of ?v "[]"] collect_bound [of x y 0] by (simp add: Let_def mod_add_eq)
  then show ?case using out_bytes_collect [of x y 0] by (subst text_value.simps) (simp add: Let_def text_value.simps)
next
  case (4 x y z r)
  let ?v = "unat x * 2 ^ 16 + unat y * 2 ^ 8 + unat z"
  have "group4 (text_of (x # y # z # r)) = Some (?v, 0, text_of r)"
    using group4_text(1) [of ?v "text_of r"] collect_bound [of x y z] by (simp add: Let_def)
  then show ?case using out_bytes_collect [of x y z] 4 by (subst text_value.simps) (simp add: Let_def)
qed

text \<open>One round of the encoder: the separator and the text of the next three bytes.\<close>

lemma encode_loop_step:
  assumes "i < length s"
  shows "base64_encode_loop s i len =
    (if len = 76 then [newline] else []) @ text_of (take 3 (drop i s)) @
    base64_encode_loop s (i + 3) ((if len = 76 then 0 else len) + 4)"
proof -
  obtain x t where t: "drop i s = x # t" using assms by (cases "drop i s") auto
  have nth: "s ! (i + j) = (x # t) ! j" for j using t assms nth_drop [of i s j] by simp
  have len: "length s = i + 1 + length t" using arg_cong [OF t, of length] assms by simp
  consider "t = []" | y where "t = [y]" | y z r where "t = y # z # r"
    by (cases t rule: list.exhaust; cases "tl t") auto
  then show ?thesis
  proof cases
    case 1
    then show ?thesis using nth [of 0] len t by (simp add: base64_encode_loop.simps [of s i] enc_collect_def enc_char_def Let_def)
  next
    case 2
    then show ?thesis using nth [of 0] nth [of 1] len t
      by (simp add: base64_encode_loop.simps [of s i] enc_collect_def enc_char_def Let_def distrib_right ac_simps)
  next
    case 3
    then show ?thesis using nth [of 0] nth [of 1] nth [of 2] len t
      by (simp add: base64_encode_loop.simps [of s i] enc_collect_def enc_char_def Let_def distrib_right ac_simps numeral_3_eq_3)
  qed
qed

lemma text_of_nonspace: "filter nonspace (text_of xs) = text_of xs"
  by (induction xs rule: text_of.induct) (simp_all add: Let_def enc_char_valid pad_nonspace)

lemma text_of_take3: "text_of (take 3 xs) @ text_of (drop 3 xs) = text_of xs"
  by (cases xs rule: text_of.cases) (simp_all add: numeral_3_eq_3 Let_def)

lemma length_text_of: "length (text_of xs) = 4 * ((length xs + 2) div 3)"
proof (induction xs rule: text_of.induct)
  case (4 x y z r)
  have "(length r + 2 + 3) div 3 = Suc ((length r + 2) div 3)" by simp
  then show ?case using 4 by (simp add: Let_def)
qed (simp_all add: Let_def)

lemma encode_loop_text: "filter nonspace (base64_encode_loop s i len) = text_of (drop i s)"
proof (induction s i len rule: base64_encode_loop.induct)
  case (1 s i len)
  show ?case
  proof (cases "i < length s")
    case True
    then show ?thesis
      using 1 [OF True refl refl refl refl] text_of_take3 [of "drop i s"]
      by (simp add: encode_loop_step text_of_nonspace newline_space add.commute)
  next
    case False
    then show ?thesis by (simp add: base64_encode_loop.simps [of s i])
  qed
qed

lemma one_group: "0 < k \<Longrightarrow> k \<le> 3 \<Longrightarrow> (k + 2) div 3 = (1 :: nat)"
  by (rule div_nat_eqI) simp_all

text \<open>The separators: one for every 76 characters that another character follows.\<close>

lemma encode_loop_length:
  assumes "len \<le> 76" "len mod 4 = 0" "i < length s"
  shows "length (base64_encode_loop s i len) =
    (let g = (length s - i + 2) div 3 in 4 * g + (len + 4 * g - 1) div 76)"
  using assms
proof (induction s i len rule: base64_encode_loop.induct)
  case (1 s i len)
  define g where "g = (length s - i + 2) div 3"
  define len' where "len' = (if len = 76 then 0 else len) + 4"
  have len': "len' \<le> 76" "len' mod 4 = 0"
  proof -
    have "len \<noteq> 76 \<Longrightarrow> len \<le> 72" using 1(2,3) by presburger
    then show "len' \<le> 76" "len' mod 4 = 0" using 1(2,3) by (auto simp: len'_def mod_add_eq)
  qed
  have take: "length (text_of (take 3 (drop i s))) = 4" 
    using 1(4) one_group [of "min (length s - i) 3"] by (simp add: length_text_of)
  have step: "length (base64_encode_loop s i len) =
      (if len = 76 then 1 else 0) + 4 + length (base64_encode_loop s (i + 3) len')"
    using 1(4) take by (simp add: encode_loop_step len'_def)
  show ?case
  proof (cases "i + 3 < length s")
    case True
    define g' where "g' = (length s - (i + 3) + 2) div 3"
    have e: "length s - i + 2 = length s - (i + 3) + 2 + 3" using True by simp
    have g: "g = Suc g'" unfolding g_def g'_def e by (simp del: One_nat_def)
    have "length (base64_encode_loop s (i + 3) len') = 4 * g' + (len' + 4 * g' - 1) div 76"
      using 1(1) [OF 1(4) refl refl refl refl] len' True by (simp add: g'_def len'_def Let_def)
    moreover have "(3 + 4 * g' + 76) div 76 = (3 + 4 * g') div 76 + 1" by (rule div_add_self2) simp
    ultimately show ?thesis unfolding Let_def g_def [symmetric] g using step by (simp add: len'_def split: if_splits)
  next
    case False
    then have "g = 1" using 1(4) unfolding g_def by (intro one_group) simp_all
    moreover have "length (base64_encode_loop s (i + 3) len') = 0"
      using False by (simp add: base64_encode_loop.simps [of s "i + 3"])
    ultimately show ?thesis
      unfolding Let_def g_def [symmetric] using step 1(2) len'(1) by (simp add: len'_def split: if_splits)
  qed
qed

section \<open>What the encoder and the decoder promise\<close>

lemma decoded_capacity:
  assumes "int (length buf) + 3 < 2 ^ 31"
  shows "3 * (length buf div 4) \<le> nat (base64_needed_decoded_length (int (length buf)))"
proof -
  have "length buf div 4 \<le> (length buf + 3) div 4" by (intro div_le_mono) simp
  then show ?thesis by (simp add: needed_decoded_length [OF assms] nat_mult_distrib)
qed

text \<open>C23: With a buffer of the length that \<open>base64_needed_decoded_length\<close> gives, the decoder never writes
  behind the end of its buffer.  It accepts exactly the texts that have a meaning, whatever spaces
  they contain, and then delivers that meaning and stops at the end; otherwise it returns -1.\<close>

theorem base64_decode_correct:
  assumes "int (length buf) + 3 < 2 ^ 31"
    and "cap = nat (base64_needed_decoded_length (int (length buf)))"
  shows "case text_value multi (filter nonspace buf) of
      Some w \<Rightarrow> base64_decode cap buf multi = Some (as_int32 (int (length w)), length buf, w)
    | None \<Rightarrow> (\<exists>p out. base64_decode cap buf multi = Some (- 1, p, out))"
  using base64_decode_value decoded_capacity [OF assms(1)] unfolding assms(2) by blast

theorem base64_decode_correct_witness:
  "\<exists>p out. base64_decode (nat (base64_needed_decoded_length 3)) (replicate 3 pad_char) True = Some (- 1, p, out)"
proof -
  have "text_value True (filter nonspace (replicate 3 pad_char)) = None"
    by (simp add: pad_nonspace text_value.simps numeral_3_eq_3)
  then show ?thesis
    using base64_decode_correct [of "replicate 3 pad_char" _ True, OF _ refl] by simp
qed

text \<open>C22: Decoding the text that the encoder makes, line separators included, gives back the bytes that were
  encoded, in either mode of the decoder.\<close>

theorem base64_roundtrip:
  assumes "int (length (base64_encode xs)) + 3 < 2 ^ 31"
  shows "base64_decode (nat (base64_needed_decoded_length (int (length (base64_encode xs))))) (base64_encode xs) multi =
    Some (int (length xs), length (base64_encode xs), xs)"
proof -
  have tx: "filter nonspace (base64_encode xs) = text_of xs"
    using encode_loop_text [of xs 0 0] by (simp add: base64_encode_def)
  have "length xs \<le> length (text_of xs)" by (simp add: length_text_of)
  also have "\<dots> \<le> length (base64_encode xs)" unfolding tx [symmetric] by (rule length_filter_le)
  finally have "as_int32 (int (length xs)) = int (length xs)" using assms by (intro as_int32_id) simp_all
  then show ?thesis
    using base64_decode_value [OF decoded_capacity [OF assms], of multi] by (simp add: tx text_value_text_of)
qed

theorem base64_roundtrip_witness:
  "base64_decode (nat (base64_needed_decoded_length (int (length (base64_encode [7, 255]))))) (base64_encode [7, 255]) False =
    Some (2, length (base64_encode [7, 255]), [7, 255])"
  using base64_roundtrip [of "[7, 255]" False] encode_loop_length [of 0 0 "[7, 255]"] by (simp add: base64_encode_def)

text \<open>C24: The length computed for the encoder's buffer is exactly what the encoder writes, the terminating
  zero included, for every length up to the stated maximum; the next length overflows.\<close>

theorem base64_encode_length:
  "(int (length xs) \<le> base64_encode_max_arg_length \<longrightarrow>
     int (length (base64_encode xs) + 1) = base64_needed_encoded_length (int (length xs))) \<and>
   base64_needed_encoded_length (base64_encode_max_arg_length + 1) < 0"
proof (intro conjI impI)
  assume le: "int (length xs) \<le> base64_encode_max_arg_length"
  show "int (length (base64_encode xs) + 1) = base64_needed_encoded_length (int (length xs))"
  proof (cases "xs = []")
    case True
    then show ?thesis
      by (simp add: base64_encode_def base64_encode_loop.simps [of "[]"] needed_encoded_length_values)
  next
    case False
    then show ?thesis
      using encode_loop_length [of 0 0 xs] needed_encoded_length [OF le] by (simp add: base64_encode_def Let_def)
  qed
qed (simp add: base64_encode_max_arg_length_def needed_encoded_length_values)

theorem base64_encode_length_witness:
  "int (length ([7, 255] :: byte list)) \<le> base64_encode_max_arg_length \<and>
   int (length (base64_encode [7, 255]) + 1) = base64_needed_encoded_length 2"
  using base64_encode_length [of "[7, 255]"] by (simp add: base64_encode_max_arg_length_def)


end
