(* ===== verification/Hash_Table.thy ===== *)
theory Hash_Table
  imports Prelude
begin

unbundle bit_operations_syntax

text \<open>
  The hash tables of \<open>mysys/hash.c\<close> and \<open>include/hash.h\<close>: all records lie in one array without gaps,
  the records of one bucket are linked by their positions, the first of them lies at the
  position that is the bucket's number, and the number of buckets is the number of records, so
  that every insertion splits one bucket and every deletion merges two.
  Records are pointers.  The functions that the code calls through pointers are fields of the
  table: the key of a record (\<open>my_hash_key\<close>: the callback, or a part of the record), the hash function
  (\<open>my_hash_sort\<close> of the character set, if none is given), the comparison of the character set.  The
  array may hold what was there before in an element that \<open>alloc_dynamic\<close> adds.  The loops that
  follow links are partial: \<open>None\<close> stands for a loop that does not end.
\<close>

section \<open>The table\<close>

definition NO_RECORD :: nat where
  "NO_RECORD = 2 ^ 32 - 1"

record HASH_LINK =
  lnext :: nat
  ldata :: ptr

record HASH =
  h_key_length :: nat
  h_blength :: nat
  h_records :: nat
  h_unique :: bool
  h_array :: "HASH_LINK list"
  h_get_key :: "ptr \<Rightarrow> byte list"
  h_hash_function :: "byte list \<Rightarrow> nat"
  h_coll_eq :: "byte list \<Rightarrow> byte list \<Rightarrow> bool"
  h_free :: bool

definition my_hash_init2 ::
  "nat \<Rightarrow> (ptr \<Rightarrow> byte list) \<Rightarrow> (byte list \<Rightarrow> nat) \<Rightarrow> (byte list \<Rightarrow> byte list \<Rightarrow> bool) \<Rightarrow> bool \<Rightarrow> bool \<Rightarrow> HASH" where
  "my_hash_init2 key_length get_key hash_function coll_eq free_element unique =
     \<lparr>h_key_length = key_length, h_blength = 1, h_records = 0, h_unique = unique, h_array = [],
      h_get_key = get_key, h_hash_function = hash_function, h_coll_eq = coll_eq, h_free = free_element\<rparr>"

definition my_hash_inited :: "HASH \<Rightarrow> bool" where
  "my_hash_inited h \<longleftrightarrow> h_blength h \<noteq> 0"

text \<open>The elements given to the free function, and the table without records.\<close>

definition my_hash_free_elements :: "HASH \<Rightarrow> HASH \<times> ptr list" where
  "my_hash_free_elements h =
     (h\<lparr>h_records := 0\<rparr>, if h_free h then map ldata (take (h_records h) (h_array h)) else [])"

definition my_hash_reset :: "HASH \<Rightarrow> HASH \<times> ptr list" where
  "my_hash_reset h = (case my_hash_free_elements h of (h, freed) \<Rightarrow> (h\<lparr>h_array := [], h_blength := 1\<rparr>, freed))"

definition my_hash_free :: "HASH \<Rightarrow> HASH \<times> ptr list" where
  "my_hash_free h =
     (case my_hash_free_elements h of (h, freed) \<Rightarrow> (h\<lparr>h_free := False, h_array := [], h_blength := 0\<rparr>, freed))"

section \<open>Positions\<close>

text \<open>Subtraction of 1 from a \<open>size_t\<close>.\<close>

definition size_dec :: "nat \<Rightarrow> nat" where
  "size_dec n = (n + 2 ^ 64 - 1) mod 2 ^ 64"

definition my_hash_mask :: "nat \<Rightarrow> nat \<Rightarrow> nat \<Rightarrow> nat" where
  "my_hash_mask hashnr buffmax maxlength =
     (if hashnr AND size_dec buffmax < maxlength then (hashnr AND size_dec buffmax) mod 2 ^ 32
      else (hashnr AND size_dec (drop_bit 1 buffmax)) mod 2 ^ 32)"

definition rec_hashnr :: "HASH \<Rightarrow> ptr \<Rightarrow> nat" where
  "rec_hashnr h record = h_hash_function h (h_get_key h record)"

definition my_hash_rec_mask :: "HASH \<Rightarrow> HASH_LINK \<Rightarrow> nat \<Rightarrow> nat \<Rightarrow> nat" where
  "my_hash_rec_mask h pos buffmax maxlength = my_hash_mask (rec_hashnr h (ldata pos)) buffmax maxlength"

section \<open>Searching\<close>

text \<open>True when the keys differ.  The key lies in memory; \<open>len\<close> bytes of it count, if \<open>len\<close> is not 0.\<close>

definition hashcmp :: "HASH \<Rightarrow> HASH_LINK \<Rightarrow> byte list \<Rightarrow> nat \<Rightarrow> bool" where
  "hashcmp h pos key len =
     (let rec_key = h_get_key h (ldata pos); rec_keylength = length rec_key in
      (len \<noteq> 0 \<and> len \<noteq> rec_keylength) \<or> \<not> h_coll_eq h rec_key (take rec_keylength key))"

partial_function (option) first_loop :: "HASH \<Rightarrow> byte list \<Rightarrow> nat \<Rightarrow> nat \<Rightarrow> bool \<Rightarrow> nat option option" where
  "first_loop h key len idx flag =
     (let pos = h_array h ! idx in
      if \<not> hashcmp h pos key len then Some (Some idx)
      else if flag \<and> my_hash_rec_mask h pos (h_blength h) (h_records h) \<noteq> idx then Some None
      else if lnext pos = NO_RECORD then Some None
      else first_loop h key len (lnext pos) False)"

text \<open>The position of the record found is the state of the search.\<close>

definition my_hash_first_from_hash_value :: "HASH \<Rightarrow> nat \<Rightarrow> byte list \<Rightarrow> nat \<Rightarrow> nat option option" where
  "my_hash_first_from_hash_value h hash_value key len =
     (if h_records h \<noteq> 0
      then first_loop h key len (my_hash_mask hash_value (h_blength h) (h_records h)) True
      else Some None)"

definition my_hash_first :: "HASH \<Rightarrow> byte list \<Rightarrow> nat \<Rightarrow> nat option option" where
  "my_hash_first h key len =
     (if my_hash_inited h
      then my_hash_first_from_hash_value h
             (h_hash_function h (take (if len \<noteq> 0 then len else h_key_length h) key)) key len
      else Some None)"

definition my_hash_search :: "HASH \<Rightarrow> byte list \<Rightarrow> nat \<Rightarrow> ptr option option" where
  "my_hash_search h key len = map_option (map_option (\<lambda>i. ldata (h_array h ! i))) (my_hash_first h key len)"

definition my_hash_search_using_hash_value :: "HASH \<Rightarrow> nat \<Rightarrow> byte list \<Rightarrow> nat \<Rightarrow> ptr option option" where
  "my_hash_search_using_hash_value h hash_value key len =
     map_option (map_option (\<lambda>i. ldata (h_array h ! i))) (my_hash_first_from_hash_value h hash_value key len)"

partial_function (option) next_loop :: "HASH \<Rightarrow> byte list \<Rightarrow> nat \<Rightarrow> nat \<Rightarrow> nat option option" where
  "next_loop h key len idx =
     (if idx = NO_RECORD then Some None
      else let pos = h_array h ! idx in
        if \<not> hashcmp h pos key len then Some (Some idx)
        else next_loop h key len (lnext pos))"

definition my_hash_next :: "HASH \<Rightarrow> byte list \<Rightarrow> nat \<Rightarrow> nat option \<Rightarrow> nat option option" where
  "my_hash_next h key len current_record =
     (case current_record of None \<Rightarrow> Some None
      | Some i \<Rightarrow> next_loop h key len (lnext (h_array h ! i)))"

definition my_hash_element :: "HASH \<Rightarrow> nat \<Rightarrow> ptr option" where
  "my_hash_element h idx = (if idx < h_records h then Some (ldata (h_array h ! idx)) else None)"

definition my_hash_replace :: "HASH \<Rightarrow> nat option \<Rightarrow> ptr \<Rightarrow> HASH" where
  "my_hash_replace h current_record new_row =
     (case current_record of None \<Rightarrow> h
      | Some i \<Rightarrow> h\<lparr>h_array := (h_array h)[i := (h_array h ! i)\<lparr>ldata := new_row\<rparr>]\<rparr>)"

section \<open>Links\<close>

partial_function (option) movelink :: "HASH_LINK list \<Rightarrow> nat \<Rightarrow> nat \<Rightarrow> nat \<Rightarrow> HASH_LINK list option" where
  "movelink array find_link next_link newlink =
     (let old_link = array ! next_link in
      if lnext old_link \<noteq> find_link then movelink array find_link (lnext old_link) newlink
      else Some (array[next_link := old_link\<lparr>lnext := newlink\<rparr>]))"

section \<open>Insertion\<close>

datatype ins_flag = LOWFIND | LOWUSED | HIGHFIND | HIGHUSED

record ins_state =
  i_array :: "HASH_LINK list"
  i_flag :: "ins_flag set"
  i_gpos :: nat
  i_gpos2 :: nat
  i_rec :: ptr
  i_rec2 :: ptr
  i_empty :: nat

text \<open>A record whose key does not move, and one that moves to the new bucket.\<close>

definition insert_low :: "nat \<Rightarrow> ins_state \<Rightarrow> ins_state" where
  "insert_low pos s =
     (let d = ldata (i_array s ! pos) in
      if LOWFIND \<notin> i_flag s then
        (if HIGHFIND \<in> i_flag s
         then s\<lparr>i_flag := {LOWFIND, HIGHFIND}, i_gpos := i_empty s, i_rec := d, i_empty := pos\<rparr>
         else s\<lparr>i_flag := {LOWFIND, LOWUSED}, i_gpos := pos, i_rec := d\<rparr>)
      else
        let s = (if LOWUSED \<notin> i_flag s
                 then s\<lparr>i_array := (i_array s)[i_gpos s := \<lparr>lnext = pos, ldata = i_rec s\<rparr>],
                        i_flag := (i_flag s \<inter> {HIGHFIND}) \<union> {LOWFIND, LOWUSED}\<rparr>
                 else s) in
        s\<lparr>i_gpos := pos, i_rec := d\<rparr>)"

definition insert_high :: "nat \<Rightarrow> ins_state \<Rightarrow> ins_state" where
  "insert_high pos s =
     (let d = ldata (i_array s ! pos) in
      if HIGHFIND \<notin> i_flag s
      then s\<lparr>i_flag := (i_flag s \<inter> {LOWFIND}) \<union> {HIGHFIND}, i_gpos2 := i_empty s, i_empty := pos, i_rec2 := d\<rparr>
      else
        let s = (if HIGHUSED \<notin> i_flag s
                 then s\<lparr>i_array := (i_array s)[i_gpos2 s := \<lparr>lnext = pos, ldata = i_rec2 s\<rparr>],
                        i_flag := (i_flag s \<inter> {LOWFIND}) \<union> {HIGHFIND, HIGHUSED}\<rparr>
                 else s) in
        s\<lparr>i_gpos2 := pos, i_rec2 := d\<rparr>)"

partial_function (option) insert_loop :: "HASH \<Rightarrow> nat \<Rightarrow> nat \<Rightarrow> nat \<Rightarrow> ins_state \<Rightarrow> ins_state option" where
  "insert_loop h halfbuff first_index idx s =
     (let pos = i_array s ! idx; hash_nr = rec_hashnr h (ldata pos) in
      if i_flag s = {} \<and> my_hash_mask hash_nr (h_blength h) (h_records h) \<noteq> first_index then Some s
      else
        let s = (if hash_nr AND halfbuff = 0 then insert_low idx s else insert_high idx s);
            idx = lnext (i_array s ! idx) in
        if idx = NO_RECORD then Some s else insert_loop h halfbuff first_index idx s)"

definition insert_finish :: "ins_state \<Rightarrow> ins_state" where
  "insert_finish s =
     (let s = (if i_flag s \<inter> {LOWFIND, LOWUSED} = {LOWFIND}
               then s\<lparr>i_array := (i_array s)[i_gpos s := \<lparr>lnext = NO_RECORD, ldata = i_rec s\<rparr>]\<rparr> else s) in
      if i_flag s \<inter> {HIGHFIND, HIGHUSED} = {HIGHFIND}
      then s\<lparr>i_array := (i_array s)[i_gpos2 s := \<lparr>lnext = NO_RECORD, ldata = i_rec2 s\<rparr>]\<rparr> else s)"

text \<open>The splitting of the bucket \<open>records - halfbuff\<close>: the array and the position that is free.\<close>

definition insert_split :: "HASH \<Rightarrow> HASH_LINK list \<Rightarrow> (HASH_LINK list \<times> nat) option" where
  "insert_split h array =
     (let halfbuff = drop_bit 1 (h_blength h); first_index = h_records h - halfbuff;
          s = \<lparr>i_array = array, i_flag = {}, i_gpos = 0, i_gpos2 = 0, i_rec = 0, i_rec2 = 0, i_empty = h_records h\<rparr> in
      if first_index \<noteq> h_records h
      then map_option (\<lambda>s. (i_array (insert_finish s), i_empty (insert_finish s))) (insert_loop h halfbuff first_index first_index s)
      else Some (array, h_records h))"

text \<open>The placing of the new record.\<close>

definition insert_place :: "HASH \<Rightarrow> HASH_LINK list \<Rightarrow> nat \<Rightarrow> ptr \<Rightarrow> HASH_LINK list option" where
  "insert_place h array hole record =
     (let idx = my_hash_mask (rec_hashnr h record) (h_blength h) (h_records h + 1) in
      if idx = hole then Some (array[idx := \<lparr>lnext = NO_RECORD, ldata = record\<rparr>])
      else
        let gpos = my_hash_rec_mask h (array ! idx) (h_blength h) (h_records h + 1);
            array = array[hole := array ! idx] in
        if idx = gpos then Some (array[idx := \<lparr>lnext = hole, ldata = record\<rparr>])
        else movelink (array[idx := \<lparr>lnext = NO_RECORD, ldata = record\<rparr>]) idx gpos hole)"

text \<open>\<open>alloc\<close> is what \<open>alloc_dynamic\<close> yields: the element as it was found, or nothing.\<close>

definition my_hash_insert :: "HASH_LINK option \<Rightarrow> HASH \<Rightarrow> ptr \<Rightarrow> (HASH \<times> bool) option" where
  "my_hash_insert alloc h record =
     (case (if h_unique h then my_hash_search h (h_get_key h record) (length (h_get_key h record)) else Some None) of
        None \<Rightarrow> None
      | Some (Some _) \<Rightarrow> Some (h, True)
      | Some None \<Rightarrow>
          (case alloc of None \<Rightarrow> Some (h, True)
           | Some garbage \<Rightarrow>
               (case insert_split h (h_array h @ [garbage]) of None \<Rightarrow> None
                | Some (array, hole) \<Rightarrow>
                    (case insert_place h array hole record of None \<Rightarrow> None
                     | Some array \<Rightarrow>
                         let h = h\<lparr>h_array := array, h_records := h_records h + 1\<rparr> in
                         Some (if h_records h = h_blength h then h\<lparr>h_blength := h_blength h + h_blength h\<rparr> else h,
                               False)))))"

section \<open>Deletion\<close>

text \<open>The position of the record and of the one linked before it.\<close>

partial_function (option) delete_search :: "HASH_LINK list \<Rightarrow> ptr \<Rightarrow> nat \<Rightarrow> nat option \<Rightarrow> (nat \<times> nat option) option option" where
  "delete_search data record pos gpos =
     (if ldata (data ! pos) = record then Some (Some (pos, gpos))
      else if lnext (data ! pos) = NO_RECORD then Some None
      else delete_search data record (lnext (data ! pos)) (Some pos))"

definition delete_unlink :: "HASH_LINK list \<Rightarrow> nat \<Rightarrow> nat option \<Rightarrow> HASH_LINK list \<times> nat" where
  "delete_unlink data pos gpos =
     (case gpos of
        Some g \<Rightarrow> (data[g := (data ! g)\<lparr>lnext := lnext (data ! pos)\<rparr>], pos)
      | None \<Rightarrow>
          if lnext (data ! pos) \<noteq> NO_RECORD
          then (data[pos := data ! lnext (data ! pos)], lnext (data ! pos))
          else (data, pos))"

text \<open>Moving the last record into the gap; \<open>h\<close> has the new sizes, \<open>blength\<close> is the old one.\<close>

definition delete_move_last :: "HASH \<Rightarrow> nat \<Rightarrow> HASH_LINK list \<Rightarrow> nat \<Rightarrow> HASH_LINK list option" where
  "delete_move_last h blength data hole =
     (let lastpos = h_records h in
      if hole = lastpos then Some data
      else
        let lastpos_hashnr = rec_hashnr h (ldata (data ! lastpos));
            pos = my_hash_mask lastpos_hashnr (h_blength h) (h_records h) in
        if pos = hole then Some (data[hole := data ! lastpos])
        else
          let pos_hashnr = rec_hashnr h (ldata (data ! pos));
              pos3 = my_hash_mask pos_hashnr (h_blength h) (h_records h) in
          if pos \<noteq> pos3
          then movelink (data[hole := data ! pos, pos := data ! lastpos]) pos pos3 hole
          else
            let pos2 = my_hash_mask lastpos_hashnr blength (h_records h + 1);
                same = pos2 = my_hash_mask pos_hashnr blength (h_records h + 1) in
            if same \<and> pos2 \<noteq> h_records h
            then movelink (data[hole := data ! lastpos]) lastpos pos hole
            else
              let idx = (if same then pos else NO_RECORD); data = data[hole := data ! lastpos] in
              map_option (\<lambda>data. data[pos := (data ! pos)\<lparr>lnext := hole\<rparr>])
                (movelink data idx hole (lnext (data ! pos))))"

definition my_hash_delete :: "HASH \<Rightarrow> ptr \<Rightarrow> (HASH \<times> bool \<times> ptr list) option" where
  "my_hash_delete h record =
     (if h_records h = 0 then Some (h, True, [])
      else
        let blength = h_blength h; data = h_array h in
        case delete_search data record (my_hash_mask (rec_hashnr h record) blength (h_records h)) None of
          None \<Rightarrow> None
        | Some None \<Rightarrow> Some (h, True, [])
        | Some (Some (pos, gpos)) \<Rightarrow>
            let h = h\<lparr>h_records := h_records h - 1\<rparr>;
                h = (if h_records h < drop_bit 1 (h_blength h) then h\<lparr>h_blength := drop_bit 1 (h_blength h)\<rparr> else h) in
            (case delete_unlink data pos gpos of (data, hole) \<Rightarrow>
               (case delete_move_last h blength data hole of None \<Rightarrow> None
                | Some data \<Rightarrow> Some (h\<lparr>h_array := butlast data\<rparr>, False, if h_free h then [record] else []))))"

section \<open>Change of a key\<close>

text \<open>Another record with the key, found by the search and its continuation.\<close>

partial_function (option) other_with_key :: "HASH \<Rightarrow> byte list \<Rightarrow> ptr \<Rightarrow> nat option \<Rightarrow> bool option" where
  "other_with_key h key record state =
     (if state = None then Some False
      else if ldata (h_array h ! the state) \<noteq> record then Some True
      else Option.bind (my_hash_next h key (length key) state) (\<lambda>state. other_with_key h key record state))"

definition update_move :: "HASH \<Rightarrow> HASH_LINK list \<Rightarrow> nat \<Rightarrow> nat option \<Rightarrow> nat \<Rightarrow> HASH_LINK list option" where
  "update_move h data idx previous new_index =
     (let org_link = data ! idx;
          (data, hole) =
            (case previous of
               None \<Rightarrow> if lnext (data ! idx) \<noteq> NO_RECORD
                        then (data[idx := data ! lnext (data ! idx)], lnext (data ! idx))
                        else (data, idx)
             | Some p \<Rightarrow> (data[p := (data ! p)\<lparr>lnext := lnext (data ! idx)\<rparr>], idx)) in
      if new_index = hole then
        let data = (if hole \<noteq> idx then data[hole := org_link] else data) in
        Some (data[hole := (data ! hole)\<lparr>lnext := NO_RECORD\<rparr>])
      else
        let new_pos_index = my_hash_rec_mask h (data ! new_index) (h_blength h) (h_records h) in
        if new_index \<noteq> new_pos_index then
          map_option (\<lambda>data. data[new_index := org_link\<lparr>lnext := NO_RECORD\<rparr>])
            (movelink (data[hole := data ! new_index]) new_index new_pos_index hole)
        else
          let org_link = org_link\<lparr>lnext := lnext (data ! new_index)\<rparr>; data = data[hole := org_link] in
          Some (data[new_index := (data ! new_index)\<lparr>lnext := hole\<rparr>]))"

definition my_hash_update :: "HASH \<Rightarrow> ptr \<Rightarrow> byte list \<Rightarrow> nat \<Rightarrow> (HASH \<times> bool) option" where
  "my_hash_update h record old_key old_key_length =
     (let new_key = h_get_key h record in
      case (if h_unique h
            then Option.bind (my_hash_first h new_key (length new_key)) (other_with_key h new_key record)
            else Some False) of
        None \<Rightarrow> None
      | Some True \<Rightarrow> Some (h, True)
      | Some False \<Rightarrow>
          let data = h_array h; blength = h_blength h; records = h_records h;
              idx = my_hash_mask (h_hash_function h
                      (take (if old_key_length \<noteq> 0 then old_key_length else h_key_length h) old_key)) blength records;
              new_index = my_hash_mask (rec_hashnr h record) blength records in
          if idx = new_index then Some (h, False)
          else (case delete_search data record idx None of
                  None \<Rightarrow> None
                | Some None \<Rightarrow> Some (h, True)
                | Some (Some (pos, previous)) \<Rightarrow>
                    map_option (\<lambda>data. (h\<lparr>h_array := data\<rparr>, False)) (update_move h data pos previous new_index)))"

section \<open>Walking\<close>

definition my_hash_iterate :: "HASH \<Rightarrow> (ptr \<Rightarrow> 's \<Rightarrow> 's \<times> bool) \<Rightarrow> 's \<Rightarrow> 's \<times> bool" where
  "my_hash_iterate h action s =
     fold (\<lambda>l (s, stop). if stop then (s, stop) else action (ldata l) s) (take (h_records h) (h_array h)) (s, False)"

text \<open>The check of the debug build: the number found and whether an error was seen.\<close>

partial_function (option) check_links :: "HASH \<Rightarrow> nat \<Rightarrow> nat \<Rightarrow> nat \<Rightarrow> bool \<Rightarrow> (nat \<times> bool) option" where
  "check_links h i idx found err =
     (if idx = NO_RECORD \<or> \<not> found < h_records h + 1 then Some (found, err)
      else
        let err = (err \<or> h_records h \<le> idx);
            right = my_hash_rec_mask h (h_array h ! idx) (h_blength h) (h_records h) = i in
        check_links h i (lnext (h_array h ! idx)) (if right then found + 1 else found) (err \<or> \<not> right))"

fun check_from :: "HASH \<Rightarrow> nat list \<Rightarrow> nat \<Rightarrow> bool \<Rightarrow> (nat \<times> bool) option" where
  "check_from h [] found err = Some (found, err)"
| "check_from h (i # js) found err =
     (if my_hash_rec_mask h (h_array h ! i) (h_blength h) (h_records h) = i
      then Option.bind (check_links h i (lnext (h_array h ! i)) (found + 1) err) (\<lambda>(found, err). check_from h js found err)
      else check_from h js found err)"

definition my_hash_check :: "HASH \<Rightarrow> bool option" where
  "my_hash_check h =
     map_option (\<lambda>(found, err). err \<or> found \<noteq> h_records h) (check_from h [0..<h_records h] 0 False)"

end
