(* ===== verification/Hash_Chains.thy ===== *)
theory Hash_Chains
  imports Hash_Table
begin

unbundle bit_operations_syntax

text \<open>
  Buckets as lists of positions: what the links of the array say, what \<open>movelink\<close> does to them, and
  how a table with one changed bucket, or with a bucket split or two buckets merged, looks.
  A bucket is determined by a function \<open>home\<close> from records to positions, so that the lemmas do not
  depend on how that function is computed.
\<close>

section \<open>Linked positions\<close>

fun path :: "HASH_LINK list \<Rightarrow> nat list \<Rightarrow> nat \<Rightarrow> bool" where
  "path a [] e = True"
| "path a [x] e = (lnext (a ! x) = e)"
| "path a (x # y # r) e = (lnext (a ! x) = y \<and> path a (y # r) e)"

lemma path_Cons: "path a (x # r) e \<longleftrightarrow> lnext (a ! x) = (if r = [] then e else hd r) \<and> path a r e"
  by (cases r) simp_all

lemma path_append: "path a (xs @ ys) e \<longleftrightarrow> path a xs (if ys = [] then e else hd ys) \<and> path a ys e"
  by (induction xs) (auto simp: path_Cons)

lemma path_cong: "(\<And>x. x \<in> set xs \<Longrightarrow> a ! x = b ! x) \<Longrightarrow> path a xs e = path b xs e"
  by (induction xs) (auto simp: path_Cons)

lemma path_update [simp]: "i \<notin> set xs \<Longrightarrow> path (a[i := l]) xs e = path a xs e"
  by (rule path_cong) (metis nth_list_update_neq)

lemma movelink_path:
  assumes "path a zs f" "zs \<noteq> []" "f \<notin> set (tl zs)"
  shows "movelink a f (hd zs) new = Some (a[last zs := (a ! last zs)\<lparr>lnext := new\<rparr>])"
  using assms
proof (induction zs)
  case (Cons z zs)
  then show ?case by (subst movelink.simps) (cases zs; auto simp: path_Cons Let_def)
qed simp

section \<open>Buckets\<close>

definition bucket :: "(ptr \<Rightarrow> nat) \<Rightarrow> HASH_LINK list \<Rightarrow> nat \<Rightarrow> nat list \<Rightarrow> bool" where
  "bucket home a b xs \<longleftrightarrow> distinct xs \<and> path a xs NO_RECORD \<and> (\<forall>i\<in>set xs. home (ldata (a ! i)) = b)"

text \<open>The occupied positions \<open>S\<close> are divided into the buckets \<open>C b\<close>.\<close>

definition buckets :: "(ptr \<Rightarrow> nat) \<Rightarrow> nat set \<Rightarrow> HASH_LINK list \<Rightarrow> (nat \<Rightarrow> nat list) \<Rightarrow> bool" where
  "buckets home S a C \<longleftrightarrow> S \<subseteq> {..<length a} \<and> (\<forall>b. bucket home a b (C b)) \<and> (\<Union>b. set (C b)) = S"

text \<open>A bucket starts at the position of its own number.\<close>

definition heads :: "(nat \<Rightarrow> nat list) \<Rightarrow> bool" where
  "heads C \<longleftrightarrow> (\<forall>b. C b \<noteq> [] \<longrightarrow> hd (C b) = b)"

lemma bucket_cong:
  assumes "bucket home a b xs" "\<And>i. i \<in> set xs \<Longrightarrow> a' ! i = a ! i" "\<And>i. i \<in> set xs \<Longrightarrow> home' (ldata (a ! i)) = b"
  shows "bucket home' a' b xs"
  using assms path_cong [of xs a' a NO_RECORD] by (simp add: bucket_def)

lemma bucket_Nil [simp]: "bucket home a b []"
  by (simp add: bucket_def)

lemma buckets_mem:
  assumes "buckets home S a C" "i \<in> S"
  shows "i \<in> set (C (home (ldata (a ! i))))"
  using assms by (auto simp: buckets_def bucket_def)

lemma buckets_home:
  assumes "buckets home S a C" "i \<in> set (C b)"
  shows "home (ldata (a ! i)) = b" "i \<in> S" "i < length a"
  using assms by (auto simp: buckets_def bucket_def)

lemma bucketsD: "buckets home S a C \<Longrightarrow> bucket home a b (C b)"
  by (simp add: buckets_def)

lemma buckets_finite: "buckets home S a C \<Longrightarrow> finite S"
  by (auto simp: buckets_def intro: finite_subset)

lemma buckets_lt: "buckets home S a C \<Longrightarrow> i \<in> S \<Longrightarrow> i < length a"
  by (auto simp: buckets_def)

lemma buckets_disjoint:
  "buckets home S a C \<Longrightarrow> i \<in> set (C b) \<Longrightarrow> i \<in> set (C b') \<Longrightarrow> b = b'"
  using buckets_home(1) [of home S a C i b] buckets_home(1) [of home S a C i b'] by simp

text \<open>The position of a bucket's number is occupied by a record of the bucket, if there is any.\<close>

lemma head_occupied:
  assumes "buckets home S a C" "heads C" "C b \<noteq> []"
  shows "b \<in> set (C b)" "b \<in> S" "home (ldata (a ! b)) = b" "C b = b # tl (C b)"
proof -
  have "hd (C b) = b" using assms by (simp add: heads_def)
  then show "C b = b # tl (C b)" using assms(3) by (cases "C b") simp_all
  then show b: "b \<in> set (C b)" by (metis list.set_intros(1))
  show "b \<in> S" "home (ldata (a ! b)) = b" using buckets_home [OF assms(1) b] by auto
qed

lemma bucket_empty:
  assumes "buckets home S a C" "heads C" "b \<notin> S \<or> home (ldata (a ! b)) \<noteq> b"
  shows "C b = []"
  using head_occupied [OF assms(1,2), of b] assms(3) by blast

text \<open>One bucket changes.\<close>

lemma buckets_upd:
  assumes C: "buckets home S a C" and len: "length a' = length a"
    and rest: "\<And>i. i \<in> S - set (C b) \<Longrightarrow> a' ! i = a ! i"
    and xs: "bucket home a' b xs" "set xs \<subseteq> {..<length a}"
  shows "buckets home (S - set (C b) \<union> set xs) a' (C(b := xs))"
proof -
  have "(\<Union>x. set ((C(b := xs)) x)) = S - set (C b) \<union> set xs"
    using C buckets_disjoint [OF C] by (auto simp: buckets_def split: if_splits)
  moreover have "bucket home a' c (C c)" if "c \<noteq> b" for c
  proof (rule bucket_cong)
    show "bucket home a c (C c)" using C by (simp add: buckets_def)
    show "a' ! i = a ! i" if "i \<in> set (C c)" for i
      using rest [of i] that \<open>c \<noteq> b\<close> buckets_home(2) [OF C that] buckets_disjoint [OF C that] by blast
  qed (rule buckets_home(1) [OF C])
  ultimately show ?thesis using C xs len by (auto simp: buckets_def)
qed

text \<open>Two buckets become one, because the records of bucket \<open>lst\<close> now belong to bucket \<open>t\<close>.\<close>

lemma buckets_merge:
  assumes C: "buckets home S a C" and len: "length a' = length a"
    and home': "\<And>r. home' r = (if home r = lst then t else home r)" and "t \<noteq> lst"
    and rest: "\<And>i. i \<in> S - set (C lst) - set (C t) \<Longrightarrow> a' ! i = a ! i"
    and xs: "bucket home' a' t xs" "set xs \<subseteq> {..<length a}"
  shows "buckets home' (S - set (C lst) - set (C t) \<union> set xs) a' (C(lst := [], t := xs))"
proof -
  have "(\<Union>x. set ((C(lst := [], t := xs)) x)) = S - set (C lst) - set (C t) \<union> set xs"
    using C buckets_disjoint [OF C] by (auto simp: buckets_def split: if_splits)
  moreover have "bucket home' a' c (C c)" if "c \<noteq> lst" "c \<noteq> t" for c
  proof (rule bucket_cong)
    show "bucket home a c (C c)" using C by (simp add: buckets_def)
    show "a' ! i = a ! i" if "i \<in> set (C c)" for i
      using rest [of i] that \<open>c \<noteq> lst\<close> \<open>c \<noteq> t\<close> buckets_home(2) [OF C that] buckets_disjoint [OF C that] by blast
    show "home' (ldata (a ! i)) = c" if "i \<in> set (C c)" for i
      using buckets_home(1) [OF C that] \<open>c \<noteq> lst\<close> by (simp add: home')
  qed
  ultimately show ?thesis using C xs len by (auto simp: buckets_def)
qed

text \<open>A bucket is split: some of the records of bucket \<open>t\<close> now belong to bucket \<open>new\<close>.\<close>

lemma buckets_split:
  assumes C: "buckets home S a C" and len: "length a' = length a"
    and home: "\<And>r. home r = (if home' r = new then t else home' r)" and "t \<noteq> new" "C new = []"
    and rest: "\<And>i. i \<in> S - set (C t) \<Longrightarrow> a' ! i = a ! i"
    and xs: "bucket home' a' t xs" "set xs \<subseteq> {..<length a}"
    and ys: "bucket home' a' new ys" "set ys \<subseteq> {..<length a}"
  shows "buckets home' (S - set (C t) \<union> set xs \<union> set ys) a' (C(t := xs, new := ys))"
proof -
  have "(\<Union>x. set ((C(t := xs, new := ys)) x)) = S - set (C t) \<union> set xs \<union> set ys"
  proof -
    let ?D = "C(t := xs, new := ys)"
    have D: "?D t = xs" "?D new = ys" "\<And>x. x \<noteq> t \<Longrightarrow> x \<noteq> new \<Longrightarrow> ?D x = C x" using assms(4) by auto
    have "i \<in> S - set (C t) \<union> set xs \<union> set ys" if "i \<in> set (?D x)" for i x
      using that D buckets_home(2) [OF C, of i x] buckets_disjoint [OF C, of i x t]
      by (cases "x = t"; cases "x = new") auto
    moreover have "\<exists>x. i \<in> set (?D x)" if "i \<in> S - set (C t) \<union> set xs \<union> set ys" for i
    proof (cases "i \<in> set xs \<union> set ys")
      case True
      then show ?thesis using D by (metis UnE)
    next
      case False
      then have i: "i \<in> set (C (home (ldata (a ! i))))" "i \<notin> set (C t)" using that buckets_mem [OF C] by auto
      then have "home (ldata (a ! i)) \<noteq> t" "home (ldata (a ! i)) \<noteq> new" using assms(5) by auto
      then show ?thesis using D(3) i(1) by metis
    qed
    ultimately have "i \<in> (\<Union>x. set (?D x)) \<longleftrightarrow> i \<in> S - set (C t) \<union> set xs \<union> set ys" for i
      unfolding UN_iff by (meson UNIV_I)
    then show ?thesis by (rule set_eqI)
  qed
  moreover have "bucket home' a' c (C c)" if "c \<noteq> new" "c \<noteq> t" for c
  proof (rule bucket_cong)
    show "bucket home a c (C c)" using C by (simp add: buckets_def)
    show "a' ! i = a ! i" if "i \<in> set (C c)" for i
      using rest [of i] that \<open>c \<noteq> t\<close> buckets_home(2) [OF C that] buckets_disjoint [OF C that] by blast
    show "home' (ldata (a ! i)) = c" if "i \<in> set (C c)" for i
      using buckets_home(1) [OF C that] \<open>c \<noteq> t\<close> home [of "ldata (a ! i)"] by (simp split: if_splits)
  qed
  ultimately show ?thesis using C xs ys len by (auto simp: buckets_def)
qed

section \<open>The records of a table\<close>

definition contents :: "nat set \<Rightarrow> HASH_LINK list \<Rightarrow> ptr multiset" where
  "contents S a = image_mset (\<lambda>i. ldata (a ! i)) (mset_set S)"

lemma contents_cong: "(\<And>i. i \<in> S \<Longrightarrow> ldata (a ! i) = ldata (b ! i)) \<Longrightarrow> contents S a = contents S b"
  unfolding contents_def by (cases "finite S") (auto intro: image_mset_cong)

lemma contents_insert: "finite S \<Longrightarrow> i \<notin> S \<Longrightarrow> contents (insert i S) a = add_mset (ldata (a ! i)) (contents S a)"
  by (simp add: contents_def)

lemma contents_all: "contents {..<length a} a = mset (map ldata a)"
proof -
  have "mset (map ldata a) = mset (map (\<lambda>i. ldata (a ! i)) [0..<length a])"
    by (rule arg_cong [of _ _ mset]) (rule nth_equalityI, simp_all)
  then show ?thesis by (simp add: contents_def atLeast0LessThan)
qed

lemma contents_distinct: "distinct xs \<Longrightarrow> contents (set xs) a = mset (map (\<lambda>i. ldata (a ! i)) xs)"
  by (simp add: contents_def mset_set_set)

lemma contents_Un: "finite S \<Longrightarrow> finite T \<Longrightarrow> S \<inter> T = {} \<Longrightarrow> contents (S \<union> T) a = contents S a + contents T a"
  by (simp add: contents_def mset_set_Union)

text \<open>A record moves from position \<open>p\<close> to position \<open>e\<close>.\<close>

lemma contents_move:
  assumes "finite S" "p \<in> S" "e \<notin> S" "ldata (a' ! e) = ldata (a ! p)"
    and "\<And>i. i \<in> S - {p} \<Longrightarrow> ldata (a' ! i) = ldata (a ! i)"
  shows "contents (insert e (S - {p})) a' = contents S a"
proof -
  have "contents (insert e (S - {p})) a' = add_mset (ldata (a ! p)) (contents (S - {p}) a)"
    using assms contents_cong [of "S - {p}" a' a] by (simp add: contents_insert)
  also have "\<dots> = contents (insert p (S - {p})) a"
    using assms(1) contents_insert [of "S - {p}" p a] by simp
  finally show ?thesis using assms(2) by (simp add: insert_absorb)
qed

section \<open>Moving, adding and removing one record\<close>

lemma path_split:
  assumes "path a (xs @ p # ys) NO_RECORD" "xs \<noteq> []"
  shows "path a xs p" "lnext (a ! last xs) = p" "path a ys NO_RECORD" "lnext (a ! p) = (if ys = [] then NO_RECORD else hd ys)"
proof -
  show "path a xs p" "path a ys NO_RECORD" "lnext (a ! p) = (if ys = [] then NO_RECORD else hd ys)"
    using assms by (auto simp: path_append path_Cons)
  then show "lnext (a ! last xs) = p"
    using assms(2) path_append [of a "butlast xs" "[last xs]" p] by simp
qed

lemma path_redirect:
  assumes "path a xs p" "xs \<noteq> []" "distinct xs" "last xs < length a"
  shows "path (a[last xs := (a ! last xs)\<lparr>lnext := e\<rparr>]) xs e"
proof -
  have "last xs \<notin> set (butlast xs)" using assms(2,3) by (metis append_butlast_last_id distinct_butlast not_distinct_conv_prefix)
  then show ?thesis
    using assms path_append [of a "butlast xs" "[last xs]" p] path_append [of "a[last xs := (a ! last xs)\<lparr>lnext := e\<rparr>]" "butlast xs" "[last xs]" e]
    by simp
qed

text \<open>
  The record at \<open>p\<close>, not the first of its bucket, is copied to the free position \<open>e\<close>, and its predecessor
  is linked to the copy; what is written at \<open>p\<close> meanwhile does not matter.
\<close>

lemma relocate:
  assumes C: "buckets home S a C" and e: "e \<notin> S" "e < length a" and p: "C g = xs @ p # ys" "xs \<noteq> []"
    and a1: "a1 = a[e := a ! p, last xs := (a ! last xs)\<lparr>lnext := e\<rparr>]"
  shows "movelink (a[e := a ! p, p := X]) p (hd xs) e = Some (a1[p := X])"
    "buckets home (insert e (S - {p})) a1 (C(g := xs @ e # ys))"
    "contents (insert e (S - {p})) a1 = contents S a"
proof -
  have inS: "set (C g) \<subseteq> S" using buckets_home(2) [OF C] by auto
  have bk: "distinct (xs @ p # ys)" "path a (xs @ p # ys) NO_RECORD" "\<And>i. i \<in> set (C g) \<Longrightarrow> home (ldata (a ! i)) = g"
    using bucketsD [OF C, of g] p(1) buckets_home(1) [OF C] by (simp_all add: bucket_def)
  have ne: "p \<noteq> e" "e \<notin> set xs" "e \<notin> set ys" "p \<notin> set xs" "p \<notin> set ys" using inS e bk(1) p by auto
  have lt: "i < length a" if "i \<in> set xs \<or> i \<in> set ys" for i
    using buckets_home(3) [OF C, of i g] p(1) that by auto
  have lx: "last xs \<in> set xs" using p(2) by simp
  have q: "last xs < length a" "last xs \<noteq> e" "last xs \<noteq> p" "last xs \<notin> set ys"
    using lx ne bk(1) buckets_home(3) [OF C, of "last xs" g] p(1) by (auto dest: IntI [OF lx])
  have S: "finite S" "p \<in> S" using buckets_finite [OF C] p inS by auto
  let ?b = "a[e := a ! p, p := X]"
  have "path ?b xs p" using path_split(1) [OF bk(2) p(2)] ne by simp
  moreover have "p \<notin> set (tl xs)" using ne by (auto dest: list.set_sel(2) [OF p(2)])
  ultimately show "movelink ?b p (hd xs) e = Some (a1[p := X])"
    using q by (simp add: movelink_path p(2) a1 list_update_swap)
  have "path a1 (xs @ e # ys) NO_RECORD"
  proof -
    have "path a1 xs e"
      using path_redirect [of "a[e := a ! p]" xs p e] path_split(1) [OF bk(2) p(2)] ne q bk(1) p(2) by (simp add: a1)
    moreover have "path a1 ys NO_RECORD" using path_split(3) [OF bk(2) p(2)] ne q by (simp add: a1)
    moreover have "lnext (a1 ! e) = (if ys = [] then NO_RECORD else hd ys)"
      using path_split(4) [OF bk(2) p(2)] q e by (simp add: a1)
    ultimately show ?thesis by (simp add: path_append path_Cons)
  qed
  moreover have data: "ldata (a1 ! i) = (if i = e then ldata (a ! p) else ldata (a ! i))" if "i < length a" for i
    using that e q by (auto simp: a1 nth_list_update)
  ultimately have "bucket home a1 g (xs @ e # ys)"
    using bk ne p lt e by (auto simp: bucket_def)
  moreover have "S - set (C g) \<union> set (xs @ e # ys) = insert e (S - {p})" using inS p bk(1) by auto
  moreover have "a1 ! i = a ! i" if "i \<in> S - set (C g)" for i
    using that q lx p e by (auto simp: a1 nth_list_update)
  moreover have "set (xs @ e # ys) \<subseteq> {..<length a}" using buckets_home(3) [OF C, of _ g] p e by auto
  ultimately show "buckets home (insert e (S - {p})) a1 (C(g := xs @ e # ys))"
    using buckets_upd [OF C, of a1 g "xs @ e # ys"] by (simp add: a1)
  show "contents (insert e (S - {p})) a1 = contents S a"
  proof (rule contents_move [OF S e(1)])
    show "ldata (a1 ! i) = ldata (a ! i)" if "i \<in> S - {p}" for i
      using that data [of i] e buckets_lt [OF C] by auto
  qed (use data [of e] e in simp)
qed

lemma put_alone:
  assumes C: "buckets home S a C" and p: "p \<notin> S" "p < length a" "C p = []" "home r = p"
  shows "buckets home (insert p S) (a[p := \<lparr>lnext = NO_RECORD, ldata = r\<rparr>]) (C(p := [p]))"
    "contents (insert p S) (a[p := \<lparr>lnext = NO_RECORD, ldata = r\<rparr>]) = add_mset r (contents S a)"
proof -
  let ?a = "a[p := \<lparr>lnext = NO_RECORD, ldata = r\<rparr>]"
  have "buckets home (S - set (C p) \<union> set [p]) ?a (C(p := [p]))"
    by (rule buckets_upd [OF C]) (use p in \<open>auto simp: bucket_def nth_list_update\<close>)
  then show "buckets home (insert p S) ?a (C(p := [p]))" using p(3) by simp
  have "finite S" by (rule buckets_finite [OF C])
  then have "contents (insert p S) ?a = add_mset r (contents S ?a)" using p by (simp add: contents_insert)
  also have "contents S ?a = contents S a" using p by (intro contents_cong) (auto simp: nth_list_update)
  finally show "contents (insert p S) ?a = add_mset r (contents S a)" .
qed

lemma heads_upd: "heads C \<Longrightarrow> xs = [] \<or> hd xs = b \<Longrightarrow> heads (C(b := xs))"
  by (auto simp: heads_def)

section \<open>Placing a record into a gap\<close>

definition table_ok :: "(ptr \<Rightarrow> nat) \<Rightarrow> nat set \<Rightarrow> HASH_LINK list \<Rightarrow> bool" where
  "table_ok home S a \<longleftrightarrow> (\<exists>C. buckets home S a C \<and> heads C)"

text \<open>The record that occupies the position where another belongs is in the middle of its bucket.\<close>

lemma intruder:
  assumes C: "buckets home S a C" and hd: "heads C" and b: "b \<in> S" "home (ldata (a ! b)) = g" "g \<noteq> b"
  obtains xs ys where "C g = xs @ b # ys" "xs \<noteq> []" "hd xs = g" "C b = []"
proof -
  have "b \<in> set (C g)" using buckets_mem [OF C b(1)] b(2) by simp
  then obtain xs ys where xs: "C g = xs @ b # ys" by (meson split_list)
  moreover have "hd (C g) = g" using hd xs unfolding heads_def by (metis append_is_Nil_conv list.distinct(1))
  ultimately have "xs \<noteq> []" "hd xs = g" using b(3) by (cases xs; auto)+
  moreover have "C b = []" using bucket_empty [OF C hd, of b] b(2,3) by simp
  ultimately show thesis using that xs by blast
qed

text \<open>A record is linked behind the first of its bucket, which moves to the gap.\<close>

lemma push_front:
  assumes C: "buckets home S a C" and hd: "heads C" and e: "e \<notin> S" "e < length a"
    and b: "b \<in> S" "home (ldata (a ! b)) = b" "home r = b"
    and a': "a' = a[e := \<lparr>lnext = lnext (a ! b), ldata = re\<rparr>, b := \<lparr>lnext = e, ldata = rb\<rparr>]"
    and r: "(re, rb) = (ldata (a ! b), r) \<or> (re, rb) = (r, ldata (a ! b))"
  shows "table_ok home (insert e S) a' \<and> contents (insert e S) a' = add_mset r (contents S a)"
proof -
  have "C b \<noteq> []" using buckets_mem [OF C b(1)] b(2) by auto
  note ho = head_occupied [OF C hd this]
  obtain xs where xs: "C b = b # xs" using ho(4) by blast
  have bk: "bucket home a b (b # xs)" using bucketsD [OF C, of b] xs by simp
  have ne: "b \<noteq> e" "e \<notin> set xs" "b \<notin> set xs" "b < length a"
    using e(1) b(1) buckets_home(2) [OF C, of e b] xs bk buckets_lt [OF C] by (auto simp: bucket_def)
  have lt: "i < length a" "i \<in> S" if "i \<in> set xs" for i using buckets_home(2,3) [OF C, of i b] xs that by auto
  have bk': "bucket home a' b (b # e # xs)"
    using bk ne e b r by (auto simp: bucket_def a' path_Cons nth_list_update)
  have "buckets home (S - set (C b) \<union> set (b # e # xs)) a' (C(b := b # e # xs))"
    by (rule buckets_upd [OF C _ _ bk']) (use xs ne e lt in \<open>auto simp: a' nth_list_update\<close>)
  moreover have "S - set (C b) \<union> set (b # e # xs) = insert e S" using xs lt b by auto
  ultimately have "table_ok home (insert e S) a'"
    unfolding table_ok_def using heads_upd [OF hd, of "b # e # xs" b] by auto
  moreover have "contents (insert e S) a' = add_mset r (contents S a)"
  proof -
    have fin: "finite (S - {b})" using buckets_finite [OF C] by simp
    have "ldata (a' ! e) = re" "ldata (a' ! b) = rb" using ne e by (simp_all add: a')
    then have "contents (insert e S) a' = add_mset re (add_mset rb (contents (S - {b}) a'))"
      using contents_insert [OF fin, of b a'] contents_insert [of S e a'] buckets_finite [OF C] e b(1)
      by (simp add: insert_absorb)
    also have "contents (S - {b}) a' = contents (S - {b}) a" using e by (intro contents_cong) (auto simp: a' nth_list_update)
    also have "add_mset re (add_mset rb (contents (S - {b}) a)) = add_mset r (contents (insert b (S - {b})) a)"
      using r fin contents_insert [OF fin, of b a] by auto
    finally show ?thesis using b(1) by (simp add: insert_absorb)
  qed
  ultimately show ?thesis by blast
qed

text \<open>The intruder moves to the gap and the record takes the position.\<close>

lemma displace:
  assumes C: "buckets home S a C" and hd: "heads C" and e: "e \<notin> S" "e < length a"
    and b: "b \<in> S" "home (ldata (a ! b)) = g" "g \<noteq> b" "home r = b"
  shows "\<exists>a1. (\<forall>X. movelink (a[e := a ! b, b := X]) b g e = Some (a1[b := X])) \<and> length a1 = length a \<and>
    table_ok home (insert e S) (a1[b := \<lparr>lnext = NO_RECORD, ldata = r\<rparr>]) \<and>
    contents (insert e S) (a1[b := \<lparr>lnext = NO_RECORD, ldata = r\<rparr>]) = add_mset r (contents S a)"
proof -
  obtain xs ys where xs: "C g = xs @ b # ys" "xs \<noteq> []" "hd xs = g" and Cb: "C b = []"
    by (rule intruder [OF C hd b(1-3)])
  define a1 where "a1 = a[e := a ! b, last xs := (a ! last xs)\<lparr>lnext := e\<rparr>]"
  note rel = relocate [OF C e xs(1,2) a1_def]
  have "insert b (insert e (S - {b})) = insert e S" using b(1) by auto
  moreover have "b \<notin> insert e (S - {b})" "b < length a1" using e b(1) buckets_lt [OF C] by (auto simp: a1_def)
  moreover have "(C(g := xs @ e # ys)) b = []" using b(3) Cb by simp
  moreover have "heads (C(g := xs @ e # ys, b := [b]))"
    using heads_upd [OF heads_upd [OF hd, of "xs @ e # ys" g], of "[b]" b] xs by simp
  ultimately have "table_ok home (insert e S) (a1[b := \<lparr>lnext = NO_RECORD, ldata = r\<rparr>])"
    "contents (insert e S) (a1[b := \<lparr>lnext = NO_RECORD, ldata = r\<rparr>]) = add_mset r (contents S a)"
    using put_alone [OF rel(2), of b r] rel(3) b(4) unfolding table_ok_def by auto
  moreover have "movelink (a[e := a ! b, b := X]) b g e = Some (a1[b := X])" for X
    using rel(1) [of X] xs(3) by simp
  moreover have "length a1 = length a" by (simp add: a1_def)
  ultimately show ?thesis by blast
qed

lemma link_eta: "\<lparr>lnext = lnext l, ldata = ldata l\<rparr> = (l :: HASH_LINK)"
  by simp

end
