(* ===== verification/Hash_Search.thy ===== *)
theory Hash_Search
  imports Hash_Chains
begin

unbundle bit_operations_syntax

text \<open>
  The positions of the records (\<open>my_hash_mask\<close>), the invariant of a table and the search.
\<close>

section \<open>Positions\<close>

lemma size_dec_power: "k \<le> 32 \<Longrightarrow> size_dec (2 ^ k) = mask k"
proof -
  assume "k \<le> 32"
  then have "(2 :: nat) ^ k \<le> 2 ^ 32" by (intro power_increasing) simp_all
  then show ?thesis by (simp add: size_dec_def mask_eq_exp_minus_1 le_mod_geq)
qed

lemma my_hash_mask_eq:
  assumes "k \<le> 32" "0 < n"
  shows "my_hash_mask x (2 ^ k) n = (if x mod 2 ^ k < n then x mod 2 ^ k else x mod 2 ^ (k - 1))"
proof -
  have small: "x mod 2 ^ j mod 2 ^ 32 = x mod 2 ^ j" if "j \<le> 32" for j
  proof -
    have "x mod 2 ^ j < 2 ^ j" by simp
    also have "(2 :: nat) ^ j \<le> 2 ^ 32" using that by (intro power_increasing) simp_all
    finally show ?thesis by simp
  qed
  show ?thesis
  proof (cases k)
    case 0
    then show ?thesis using assms by (simp add: my_hash_mask_def size_dec_def)
  next
    case (Suc j)
    then have half: "drop_bit 1 (2 ^ k :: nat) = 2 ^ j" by (simp add: drop_bit_eq_div)
    have le: "k \<le> 32" "j \<le> 32" using assms(1) Suc by simp_all
    have and_mod: "x AND mask i = x mod 2 ^ i" for i by (metis take_bit_eq_mask take_bit_eq_mod)
    have "k - 1 = j" using Suc by simp
    then show ?thesis
      unfolding my_hash_mask_def half size_dec_power [OF le(1)] size_dec_power [OF le(2)] and_mod
        small [OF le(1)] small [OF le(2)] by simp
  qed
qed

text \<open>The number of buckets and the power of two above it.\<close>

definition sizes_ok :: "nat \<Rightarrow> nat \<Rightarrow> bool" where
  "sizes_ok b n \<longleftrightarrow> (\<exists>k\<le>32. b = 2 ^ k) \<and> b div 2 \<le> n \<and> n < b"

lemma sizes_okE:
  assumes "sizes_ok b n" "0 < n"
  obtains k where "k < 32" "b = 2 ^ Suc k" "2 ^ k \<le> n" "n < 2 ^ Suc k"
proof -
  obtain k where k: "k \<le> 32" "b = 2 ^ k" "b div 2 \<le> n" "n < b" using assms(1) by (auto simp: sizes_ok_def)
  with assms(2) obtain j where "k = Suc j" by (cases k) auto
  with k that [of j] show thesis by simp
qed

lemma my_hash_mask_less:
  assumes "sizes_ok b n" "0 < n"
  shows "my_hash_mask x b n < n"
proof -
  obtain k where k: "k < 32" "b = 2 ^ Suc k" "2 ^ k \<le> n" using sizes_okE [OF assms] by metis
  have "x mod 2 ^ k < n" using k(3) by (meson less_le_trans mod_less_divisor zero_less_numeral zero_less_power)
  then show ?thesis using k assms(2) by (simp add: my_hash_mask_eq [of "Suc k", simplified])
qed

text \<open>One more record: the records of the bucket \<open>n - 2 ^ k\<close> whose bit \<open>k\<close> is set move to the bucket \<open>n\<close>.\<close>

lemma my_hash_mask_grow:
  assumes "k < 32" "2 ^ k \<le> n" "n < 2 ^ Suc k"
  shows "my_hash_mask x (2 ^ Suc k) n =
      (if my_hash_mask x (2 ^ Suc k) (n + 1) = n then n - 2 ^ k else my_hash_mask x (2 ^ Suc k) (n + 1))"
    and "my_hash_mask x (2 ^ Suc k) n = n - 2 ^ k \<Longrightarrow> x AND 2 ^ k = 0 \<longleftrightarrow> my_hash_mask x (2 ^ Suc k) (n + 1) \<noteq> n"
proof -
  define y z where "y = x mod 2 ^ Suc k" "z = x mod 2 ^ k"
  have pos: "0 < n" using assms(2) by (metis gr0I leD zero_less_numeral zero_less_power)
  have z: "z < 2 ^ k" by (simp add: y_z_def)
  have yz: "y = (if bit x k then z + 2 ^ k else z)"
    using take_bit_Suc_from_most [of k x] by (simp add: y_z_def take_bit_eq_mod)
  have m: "my_hash_mask x (2 ^ Suc k) n = (if y < n then y else z)"
    "my_hash_mask x (2 ^ Suc k) (n + 1) = (if y \<le> n then y else z)"
    using my_hash_mask_eq [of "Suc k" n x] my_hash_mask_eq [of "Suc k" "n + 1" x] assms(1) pos
    by (simp_all add: y_z_def less_Suc_eq_le)
  show "my_hash_mask x (2 ^ Suc k) n =
      (if my_hash_mask x (2 ^ Suc k) (n + 1) = n then n - 2 ^ k else my_hash_mask x (2 ^ Suc k) (n + 1))"
    unfolding m using yz z assms(2,3) by (auto split: if_splits)
  have "x AND 2 ^ k = 0 \<longleftrightarrow> \<not> bit x k"
    by (simp add: and_exp_eq_0_iff_not_bit)
  then show "x AND 2 ^ k = 0 \<longleftrightarrow> my_hash_mask x (2 ^ Suc k) (n + 1) \<noteq> n"
    if "my_hash_mask x (2 ^ Suc k) n = n - 2 ^ k"
    using that unfolding m using yz z assms(2,3) by (auto split: if_splits)
qed

lemma my_hash_mask_double:
  assumes "k < 32"
  shows "my_hash_mask x (2 ^ Suc k) (2 ^ k) = my_hash_mask x (2 ^ k) (2 ^ k)"
proof -
  have "x mod 2 ^ Suc k = x mod 2 ^ k" if "x mod 2 ^ Suc k < 2 ^ k"
    using that by (metis mod_less mod_mod_cancel le_imp_power_dvd lessI less_imp_le_nat)
  then show ?thesis
    using my_hash_mask_eq [of "Suc k" "2 ^ k" x] my_hash_mask_eq [of k "2 ^ k" x] assms by simp
qed

section \<open>The invariant\<close>

definition home_of :: "HASH \<Rightarrow> ptr \<Rightarrow> nat" where
  "home_of h r = my_hash_mask (rec_hashnr h r) (h_blength h) (h_records h)"

definition wf_hash :: "HASH \<Rightarrow> bool" where
  "wf_hash h \<longleftrightarrow> length (h_array h) = h_records h \<and> h_records h \<le> NO_RECORD \<and>
     sizes_ok (h_blength h) (h_records h) \<and> table_ok (home_of h) {..<h_records h} (h_array h)"

definition hash_rows :: "HASH \<Rightarrow> ptr multiset" where
  "hash_rows h = mset (map ldata (h_array h))"

lemma hash_rows_contents: "wf_hash h \<Longrightarrow> hash_rows h = contents {..<h_records h} (h_array h)"
  using contents_all [of "h_array h"] by (simp add: hash_rows_def wf_hash_def)

lemma rec_mask_home: "my_hash_rec_mask h l (h_blength h) (h_records h) = home_of h (ldata l)"
  by (simp add: my_hash_rec_mask_def home_of_def)

lemma wf_hashE:
  assumes "wf_hash h"
  obtains C where "buckets (home_of h) {..<h_records h} (h_array h) C" "heads C"
    "length (h_array h) = h_records h" "h_records h \<le> NO_RECORD" "sizes_ok (h_blength h) (h_records h)"
  using assms unfolding wf_hash_def table_ok_def by blast

lemma my_hash_init2_wf: "wf_hash (my_hash_init2 kl gk hf ce fr u) \<and> hash_rows (my_hash_init2 kl gk hf ce fr u) = {#}"
proof -
  have "buckets home {} [] (\<lambda>_. [])" "heads (\<lambda>_. [])" for home
    by (simp_all add: buckets_def heads_def)
  moreover have "sizes_ok 1 0" by (auto simp: sizes_ok_def intro!: exI [of _ 0])
  ultimately show ?thesis
    unfolding wf_hash_def table_ok_def by (auto simp: my_hash_init2_def hash_rows_def)
qed

lemma no_record_path: "buckets home S a C \<Longrightarrow> length a \<le> NO_RECORD \<Longrightarrow> NO_RECORD \<notin> set (C b)"
  using buckets_home(3) by fastforce

section \<open>Following a bucket\<close>

text \<open>From a position in a bucket the loops see the positions up to its end.\<close>

lemma next_loop_path:
  assumes "path (h_array h) zs NO_RECORD" "NO_RECORD \<notin> set zs"
  shows "next_loop h key len (if zs = [] then NO_RECORD else hd zs) =
    Some (find (\<lambda>i. \<not> hashcmp h (h_array h ! i) key len) zs)"
  using assms
proof (induction zs)
  case Nil
  then show ?case by (simp add: next_loop.simps)
next
  case (Cons z zs)
  then have IH: "next_loop h key len (if zs = [] then NO_RECORD else hd zs) =
      Some (find (\<lambda>i. \<not> hashcmp h (h_array h ! i) key len) zs)" by (simp add: path_Cons)
  have "next_loop h key len z = (if \<not> hashcmp h (h_array h ! z) key len then Some (Some z)
      else next_loop h key len (lnext (h_array h ! z)))"
    using Cons.prems(2) by (subst next_loop.simps) (simp add: Let_def)
  then show ?case using IH Cons.prems(1) by (simp add: path_Cons)
qed

lemma first_loop_next:
  assumes "idx \<noteq> NO_RECORD"
  shows "first_loop h key len idx flag =
    (if \<not> hashcmp h (h_array h ! idx) key len then Some (Some idx)
     else if flag \<and> home_of h (ldata (h_array h ! idx)) \<noteq> idx then Some None
     else if lnext (h_array h ! idx) = NO_RECORD then Some None
     else first_loop h key len (lnext (h_array h ! idx)) False)"
  by (subst first_loop.simps) (simp add: Let_def rec_mask_home)

lemma first_loop_path:
  assumes "path (h_array h) zs NO_RECORD" "NO_RECORD \<notin> set zs" "zs \<noteq> []"
    and "flag \<Longrightarrow> home_of h (ldata (h_array h ! hd zs)) = hd zs"
  shows "first_loop h key len (hd zs) flag = Some (find (\<lambda>i. \<not> hashcmp h (h_array h ! i) key len) zs)"
  using assms
proof (induction zs arbitrary: flag)
  case (Cons z zs)
  have z: "z \<noteq> NO_RECORD" using Cons.prems(2) by simp
  show ?case
  proof (cases zs)
    case Nil
    then show ?thesis using Cons.prems first_loop_next [OF z, of h key len flag] by auto
  next
    case (Cons y ys)
    have "first_loop h key len (hd zs) False = Some (find (\<lambda>i. \<not> hashcmp h (h_array h ! i) key len) zs)"
      using Cons.prems Cons by (intro Cons.IH) (simp_all add: path_Cons)
    then show ?thesis using Cons.prems Cons first_loop_next [OF z, of h key len flag] by (auto simp: path_Cons)
  qed
qed simp

lemma delete_search_path:
  assumes "path a zs NO_RECORD" "NO_RECORD \<notin> set zs" "zs \<noteq> []"
  shows "delete_search a r (hd zs) g =
    (if r \<in> (\<lambda>i. ldata (a ! i)) ` set zs
     then Some (Some (hd (dropWhile (\<lambda>i. ldata (a ! i) \<noteq> r) zs),
       (let xs = takeWhile (\<lambda>i. ldata (a ! i) \<noteq> r) zs in if xs = [] then g else Some (last xs))))
     else Some None)"
  using assms
proof (induction zs arbitrary: g)
  case (Cons z zs)
  show ?case
  proof (cases "ldata (a ! z) = r \<or> zs = []")
    case True
    then show ?thesis using Cons.prems by (subst delete_search.simps) auto
  next
    case False
    then have "hd zs \<in> set zs" by simp
    then have n: "lnext (a ! z) = hd zs" "hd zs \<noteq> NO_RECORD"
      using False Cons.prems by (auto simp: path_Cons simp del: hd_in_set)
    have "delete_search a r (hd (z # zs)) g = delete_search a r (hd zs) (Some z)"
      using False n by (subst delete_search.simps) simp
    also have "\<dots> = (if r \<in> (\<lambda>i. ldata (a ! i)) ` set zs
       then Some (Some (hd (dropWhile (\<lambda>i. ldata (a ! i) \<noteq> r) zs),
         (let xs = takeWhile (\<lambda>i. ldata (a ! i) \<noteq> r) zs in if xs = [] then Some z else Some (last xs))))
       else Some None)"
      using False Cons.prems by (intro Cons.IH) (auto simp: path_Cons)
    finally show ?thesis using False by (auto simp: Let_def)
  qed
qed simp

section \<open>The search\<close>

text \<open>The record has the key that is looked for.\<close>

definition key_matches :: "HASH \<Rightarrow> byte list \<Rightarrow> nat \<Rightarrow> ptr \<Rightarrow> bool" where
  "key_matches h key len r \<longleftrightarrow> \<not> hashcmp h \<lparr>lnext = 0, ldata = r\<rparr> key len"

lemma hashcmp_matches: "hashcmp h l key len \<longleftrightarrow> \<not> key_matches h key len (ldata l)"
  by (simp add: key_matches_def hashcmp_def Let_def)

text \<open>
  What the hash function and the character set promise: keys that compare as equal have the same
  hash value.  A search without a length is made on keys of constant length.
\<close>

definition search_compatible :: "HASH \<Rightarrow> nat \<Rightarrow> bool" where
  "search_compatible h len \<longleftrightarrow> (\<forall>x y. h_coll_eq h x y \<longrightarrow> h_hash_function h x = h_hash_function h y) \<and>
     (len = 0 \<longrightarrow> (\<forall>r \<in># hash_rows h. length (h_get_key h r) = h_key_length h))"

definition key_home :: "HASH \<Rightarrow> byte list \<Rightarrow> nat \<Rightarrow> nat" where
  "key_home h key len =
     my_hash_mask (h_hash_function h (take (if len \<noteq> 0 then len else h_key_length h) key)) (h_blength h) (h_records h)"

lemma matches_home:
  assumes "search_compatible h len" "key_matches h key len r" "r \<in># hash_rows h"
  shows "home_of h r = key_home h key len"
proof -
  let ?n = "length (h_get_key h r)"
  have m: "len = 0 \<or> len = ?n" "h_coll_eq h (h_get_key h r) (take ?n key)"
    using assms(2) by (auto simp: key_matches_def hashcmp_def Let_def)
  moreover have "(if len \<noteq> 0 then len else h_key_length h) = ?n"
    using m(1) assms(1,3) by (auto simp: search_compatible_def)
  ultimately show ?thesis using assms(1)
    by (auto simp: search_compatible_def home_of_def key_home_def rec_hashnr_def)
qed

text \<open>Every search is a search through the positions of one bucket.\<close>

lemma my_hash_first_bucket:
  assumes wf: "wf_hash h" and compat: "search_compatible h len"
    and C: "buckets (home_of h) {..<h_records h} (h_array h) C" "heads C"
  shows "my_hash_first h key len =
    Some (find (\<lambda>i. key_matches h key len (ldata (h_array h ! i))) (C (key_home h key len)))"
proof (cases "h_records h = 0")
  case True
  then have "C b = []" for b using buckets_home(2) [OF C(1)] by (metis empty_iff lessThan_0 list.set_sel(1))
  then show ?thesis using True by (simp add: my_hash_first_def my_hash_first_from_hash_value_def)
next
  case False
  have len: "length (h_array h) = h_records h" "h_records h \<le> NO_RECORD" and sz: "sizes_ok (h_blength h) (h_records h)"
    using wf by (auto simp: wf_hash_def)
  let ?b = "key_home h key len"
  have b: "?b < h_records h" using my_hash_mask_less [OF sz] False by (simp add: key_home_def)
  have "my_hash_inited h" using sz by (auto simp: my_hash_inited_def sizes_ok_def)
  then have code: "my_hash_first h key len = first_loop h key len ?b True"
    using False by (simp add: my_hash_first_def my_hash_first_from_hash_value_def key_home_def)
  show ?thesis
  proof (cases "C ?b = []")
    case True
    let ?r = "ldata (h_array h ! ?b)"
    have "home_of h ?r \<noteq> ?b" using buckets_mem [OF C(1), of ?b] b True by auto
    moreover have "?r \<in># hash_rows h" using b len by (simp add: hash_rows_def)
    ultimately have "\<not> key_matches h key len ?r" using matches_home [OF compat] by metis
    then show ?thesis using True \<open>home_of h ?r \<noteq> ?b\<close> b len
      by (simp add: code first_loop_next hashcmp_matches)
  next
    case False
    note ho = head_occupied [OF C False]
    have "path (h_array h) (C ?b) NO_RECORD" using bucketsD [OF C(1), of ?b] by (simp add: bucket_def)
    moreover have "NO_RECORD \<notin> set (C ?b)" using no_record_path [OF C(1)] len by simp
    moreover have "hd (C ?b) = ?b" using ho(4) by (metis list.sel(1))
    ultimately show ?thesis
      using first_loop_path [of h "C ?b" True key len] False ho(3) by (simp add: code hashcmp_matches)
  qed
qed

lemma find_filter: "find P xs = (if filter P xs = [] then None else Some (hd (filter P xs)))"
  by (induction xs) auto

lemma my_hash_search_rows:
  assumes wf: "wf_hash h" and compat: "search_compatible h len"
  shows "\<exists>x. my_hash_search h key len = Some x \<and>
    (case x of Some r \<Rightarrow> r \<in># hash_rows h \<and> key_matches h key len r | None \<Rightarrow> \<forall>r \<in># hash_rows h. \<not> key_matches h key len r)"
proof -
  obtain C where C: "buckets (home_of h) {..<h_records h} (h_array h) C" "heads C"
      and len: "length (h_array h) = h_records h" using wf_hashE [OF wf] by metis
  let ?P = "\<lambda>i. key_matches h key len (ldata (h_array h ! i))" and ?xs = "C (key_home h key len)"
  have code: "my_hash_search h key len = Some (map_option (\<lambda>i. ldata (h_array h ! i)) (find ?P ?xs))"
    using my_hash_first_bucket [OF assms C, of key] by (simp add: my_hash_search_def)
  show ?thesis
  proof (cases "find ?P ?xs")
    case None
    have "\<not> key_matches h key len r" if r: "r \<in># hash_rows h" for r
    proof
      assume m: "key_matches h key len r"
      obtain i where i: "i < h_records h" "r = ldata (h_array h ! i)" using r len by (auto simp: hash_rows_def in_set_conv_nth)
      then have "i \<in> set ?xs" using buckets_mem [OF C(1), of i] matches_home [OF compat m r] by auto
      then show False using None i m by (auto simp: find_None_iff)
    qed
    then show ?thesis using code None by simp
  next
    case (Some i)
    then have "?P i" "i \<in> set ?xs" by (auto simp: find_Some_iff)
    then have "?P i" "i < length (h_array h)" using buckets_home(3) [OF C(1)] by auto
    then show ?thesis using code Some by (simp add: hash_rows_def)
  qed
qed

end
