(* ===== verification/Hash_Split.thy ===== *)
theory Hash_Split
  imports Hash_Search
begin

unbundle bit_operations_syntax

text \<open>
  The loop of \<open>my_hash_insert\<close> that splits a bucket in place, with one free position.
\<close>

section \<open>A bucket under construction\<close>

text \<open>
  The positions \<open>xs\<close> with the records \<open>ds\<close> are linked up to the last one, \<open>pos\<close>, whose record is \<open>rc\<close>.
  When \<open>used\<close>, that one is in place as well and linked to \<open>nx\<close>; otherwise it is still to be written.
\<close>

definition part :: "HASH_LINK list \<Rightarrow> bool \<Rightarrow> nat \<Rightarrow> ptr \<Rightarrow> nat \<Rightarrow> nat list \<Rightarrow> ptr list \<Rightarrow> bool" where
  "part a used pos rc nx xs ds \<longleftrightarrow> length xs = length ds \<and>
     (xs \<noteq> [] \<longrightarrow> pos = last xs \<and> rc = last ds \<and> path a (butlast xs) (last xs) \<and>
        map (\<lambda>i. ldata (a ! i)) (butlast xs) = butlast ds \<and> (used \<longrightarrow> a ! pos = \<lparr>lnext = nx, ldata = rc\<rparr>))"

lemma part_Nil [simp]: "part a u pos rc nx [] []"
  by (simp add: part_def)

lemma part_single: "(u \<longrightarrow> a ! p = \<lparr>lnext = nx, ldata = d\<rparr>) \<Longrightarrow> part a u p d nx [p] [d]"
  by (simp add: part_def)

lemma part_linked:
  assumes "part a True pos rc nx xs ds" "xs \<noteq> []"
  shows "path a xs nx" "map (\<lambda>i. ldata (a ! i)) xs = ds"
proof -
  have P: "pos = last xs" "rc = last ds" "path a (butlast xs) (last xs)" "ds \<noteq> []"
    "map (\<lambda>i. ldata (a ! i)) (butlast xs) = butlast ds" "a ! last xs = \<lparr>lnext = nx, ldata = last ds\<rparr>"
    using assms by (auto simp: part_def)
  show "path a xs nx" using P(3,6) assms(2) path_append [of a "butlast xs" "[last xs]" nx] by simp
  have "map (\<lambda>i. ldata (a ! i)) (butlast xs @ [last xs]) = butlast ds @ [last ds]" using P(5,6) by simp
  then show "map (\<lambda>i. ldata (a ! i)) xs = ds" using assms(2) P(4) by simp
qed

lemma part_extend:
  assumes "part a True pos rc p xs ds" "xs \<noteq> []" "u \<longrightarrow> a ! p = \<lparr>lnext = nx, ldata = d\<rparr>"
  shows "part a u p d nx (xs @ [p]) (ds @ [d])"
  using assms part_linked [OF assms(1,2)] by (simp add: part_def)

lemma part_write:
  assumes "part a u pos rc nx xs ds" "xs \<noteq> []" "distinct xs" "last xs < length a"
  shows "part (a[pos := \<lparr>lnext = p, ldata = rc\<rparr>]) True pos rc p xs ds"
proof -
  have "last xs \<notin> set (butlast xs)" using assms(2,3) by (metis append_butlast_last_id distinct_butlast not_distinct_conv_prefix)
  then have m: "map (\<lambda>i. ldata (a[last xs := l] ! i)) (butlast xs) = map (\<lambda>i. ldata (a ! i)) (butlast xs)" for l
    by (intro map_cong refl) (metis nth_list_update_neq)
  have "pos = last xs" using assms by (simp add: part_def)
  then show ?thesis using assms \<open>last xs \<notin> set (butlast xs)\<close> by (simp add: part_def m)
qed

lemma part_frame:
  assumes "part a u pos rc nx xs ds" "\<And>i. i \<in> set xs \<Longrightarrow> a' ! i = a ! i"
  shows "part a' False pos rc nx' xs ds" "part a' u pos rc nx xs ds"
proof -
  have eq: "path a' (butlast xs) (last xs) = path a (butlast xs) (last xs)"
    "map (\<lambda>i. ldata (a' ! i)) (butlast xs) = map (\<lambda>i. ldata (a ! i)) (butlast xs)"
    using assms(2) by (auto intro!: path_cong dest: in_set_butlastD)
  show "part a' False pos rc nx' xs ds" "part a' u pos rc nx xs ds"
    using assms by (auto simp: part_def eq)
qed

section \<open>Splitting a bucket\<close>

text \<open>The records at the positions \<open>ps\<close> that satisfy a test.\<close>

definition rows :: "(ptr \<Rightarrow> bool) \<Rightarrow> HASH_LINK list \<Rightarrow> nat list \<Rightarrow> ptr list" where
  "rows P a ps = filter P (map (\<lambda>i. ldata (a ! i)) ps)"

lemma rows_Nil [simp]: "rows P a [] = []"
  by (simp add: rows_def)

lemma rows_snoc [simp]: "rows P a (ps @ [p]) = rows P a ps @ (if P (ldata (a ! p)) then [ldata (a ! p)] else [])"
  by (simp add: rows_def)

lemma rows_both_Nil: "rows P a ps = [] \<Longrightarrow> rows (\<lambda>d. \<not> P d) a ps = [] \<Longrightarrow> ps = []"
  by (cases ps) (auto simp: rows_def split: if_splits)

text \<open>
  After the positions \<open>ps\<close> of the old bucket, with the next one \<open>nx\<close>: the positions \<open>L\<close> of the records that stay
  and the positions \<open>G\<close> of those that move, and one free position.
\<close>

definition split_inv ::
  "(ptr \<Rightarrow> bool) \<Rightarrow> HASH_LINK list \<Rightarrow> nat \<Rightarrow> nat \<Rightarrow> nat list \<Rightarrow> nat \<Rightarrow> nat list \<Rightarrow> nat list \<Rightarrow> ins_state \<Rightarrow> bool" where
  "split_inv low a0 n first ps nx L G s \<longleftrightarrow>
     length (i_array s) = length a0 \<and>
     (LOWFIND \<in> i_flag s \<longleftrightarrow> L \<noteq> []) \<and> (HIGHFIND \<in> i_flag s \<longleftrightarrow> G \<noteq> []) \<and>
     (LOWUSED \<in> i_flag s \<longrightarrow> L \<noteq> [] \<and> HIGHUSED \<notin> i_flag s) \<and> (HIGHUSED \<in> i_flag s \<longrightarrow> G \<noteq> []) \<and>
     part (i_array s) (LOWUSED \<in> i_flag s) (i_gpos s) (i_rec s) nx L (rows low a0 ps) \<and>
     part (i_array s) (HIGHUSED \<in> i_flag s) (i_gpos2 s) (i_rec2 s) nx G (rows (\<lambda>d. \<not> low d) a0 ps) \<and>
     distinct (L @ G @ [i_empty s]) \<and> set (L @ G @ [i_empty s]) = insert n (set ps) \<and>
     (\<forall>i. i \<notin> insert n (set ps) \<longrightarrow> i_array s ! i = a0 ! i) \<and>
     (L \<noteq> [] \<longrightarrow> hd L = first) \<and> (G \<noteq> [] \<longrightarrow> hd G = n) \<and>
     (L = [] \<and> ps \<noteq> [] \<longrightarrow> i_empty s = first) \<and> (G = [] \<longrightarrow> i_empty s = n)"

lemma part_length: "part a u pos rc nx xs ds \<Longrightarrow> length xs = length ds"
  by (simp add: part_def)

lemma split_invD:
  assumes "split_inv low a0 n first ps nx L G s"
  shows "length (i_array s) = length a0" "LOWFIND \<in> i_flag s \<longleftrightarrow> L \<noteq> []" "HIGHFIND \<in> i_flag s \<longleftrightarrow> G \<noteq> []"
    "LOWUSED \<in> i_flag s \<Longrightarrow> L \<noteq> []" "LOWUSED \<in> i_flag s \<Longrightarrow> HIGHUSED \<notin> i_flag s" "HIGHUSED \<in> i_flag s \<Longrightarrow> G \<noteq> []"
    "part (i_array s) (LOWUSED \<in> i_flag s) (i_gpos s) (i_rec s) nx L (rows low a0 ps)"
    "part (i_array s) (HIGHUSED \<in> i_flag s) (i_gpos2 s) (i_rec2 s) nx G (rows (\<lambda>d. \<not> low d) a0 ps)"
    "distinct (L @ G @ [i_empty s])" "set (L @ G @ [i_empty s]) = insert n (set ps)"
    "\<And>i. i \<notin> insert n (set ps) \<Longrightarrow> i_array s ! i = a0 ! i"
    "L \<noteq> [] \<Longrightarrow> hd L = first" "G \<noteq> [] \<Longrightarrow> hd G = n"
    "L = [] \<Longrightarrow> ps \<noteq> [] \<Longrightarrow> i_empty s = first" "G = [] \<Longrightarrow> i_empty s = n"
  using assms unfolding split_inv_def by (blast, blast, blast, blast, blast, blast, blast, blast, blast, blast, blast, blast, blast, blast, blast)

lemma split_inv_Nil:
  assumes "split_inv low a0 n first ps nx L G s"
  shows "L = [] \<Longrightarrow> G = [] \<Longrightarrow> ps = []" "L = [] \<longleftrightarrow> rows low a0 ps = []" "G = [] \<longleftrightarrow> rows (\<lambda>d. \<not> low d) a0 ps = []"
proof -
  show e: "L = [] \<longleftrightarrow> rows low a0 ps = []" "G = [] \<longleftrightarrow> rows (\<lambda>d. \<not> low d) a0 ps = []"
    using part_length [OF split_invD(7) [OF assms]] part_length [OF split_invD(8) [OF assms]] by auto
  then show "L = [] \<Longrightarrow> G = [] \<Longrightarrow> ps = []" using rows_both_Nil by blast
qed

text \<open>One more position, of a record that stays.\<close>

lemma split_low:
  assumes inv: "split_inv low a0 n first ps p L G s" and p: "p \<notin> insert n (set ps)" "low (ldata (a0 ! p))"
    and lt: "insert n (set ps) \<subseteq> {..<length a0}" and first: "ps = [] \<longrightarrow> p = first"
  shows "\<exists>L'. split_inv low a0 n first (ps @ [p]) (lnext (a0 ! p)) L' G (insert_low p s)"
proof -
  let ?a = "i_array s" and ?d = "ldata (a0 ! p)" and ?nx = "lnext (a0 ! p)"
  note D = split_invD [OF inv] and N = split_inv_Nil [OF inv]
  have ap: "?a ! p = a0 ! p" using D(11) p(1) by simp
  have LG: "p \<notin> set L" "p \<notin> set G" "p \<noteq> i_empty s" using D(10) p(1) by auto
  have G: "part ?a False (i_gpos2 s) (i_rec2 s) ?nx G (rows (\<lambda>d. \<not> low d) a0 (ps @ [p]))"
    using part_frame(1) [OF D(8)] p(2) by simp
  consider "L = []" "G = []" | "L = []" "G \<noteq> []" | "L \<noteq> []" "LOWUSED \<in> i_flag s" | "L \<noteq> []" "LOWUSED \<notin> i_flag s" by blast
  then show ?thesis
  proof cases
    case 1
    have "insert_low p s = s\<lparr>i_flag := {LOWFIND, LOWUSED}, i_gpos := p, i_rec := ?d\<rparr>"
      using 1 D(2,3) by (simp add: insert_low_def Let_def ap)
    moreover have "rows low a0 ps = []" using 1 N(2) by blast
    then have "part ?a True p ?d ?nx [p] (rows low a0 (ps @ [p]))" using p(2) by (simp add: part_single ap)
    moreover have "ps = []" using 1 N(1) by blast
    ultimately have "split_inv low a0 n first (ps @ [p]) ?nx [p] G (insert_low p s)"
      using 1 D(1,11,15) first p(1) G unfolding split_inv_def by (simp add: insert_commute)
    then show ?thesis by blast
  next
    case 2
    have "insert_low p s = s\<lparr>i_flag := {LOWFIND, HIGHFIND}, i_gpos := i_empty s, i_rec := ?d, i_empty := p\<rparr>"
      using 2 D(2,3) by (simp add: insert_low_def Let_def ap)
    moreover have "rows low a0 ps = []" using 2 N(2) by blast
    then have "part ?a False (i_empty s) ?d ?nx [i_empty s] (rows low a0 (ps @ [p]))" using p(2) by (simp add: part_single)
    moreover have "ps \<noteq> []" using 2(2) N(3) by (metis rows_Nil)
    ultimately have "split_inv low a0 n first (ps @ [p]) ?nx [i_empty s] G (insert_low p s)"
      using 2 D(1,9,10,11,13,14) LG G p(1) unfolding split_inv_def by auto
    then show ?thesis by blast
  next
    case 3
    have "insert_low p s = s\<lparr>i_gpos := p, i_rec := ?d\<rparr>"
      using 3 D(2) by (simp add: insert_low_def Let_def ap)
    moreover have "part ?a True p ?d ?nx (L @ [p]) (rows low a0 (ps @ [p]))"
      using part_extend [of ?a _ _ p L] D(7) 3 ap p(2) by simp
    ultimately have "split_inv low a0 n first (ps @ [p]) ?nx (L @ [p]) G (insert_low p s)"
      using 3 D(1-6) D(9-13) D(15) LG G p(1) unfolding split_inv_def by auto
    then show ?thesis by blast
  next
    case 4
    let ?b = "?a[i_gpos s := \<lparr>lnext = p, ldata = i_rec s\<rparr>]"
    have g: "i_gpos s = last L" "last L \<in> set L" "last L < length ?a" using D(1,7,10) 4(1) lt by (auto simp: part_def)
    have "insert_low p s = s\<lparr>i_array := ?b, i_flag := (i_flag s \<inter> {HIGHFIND}) \<union> {LOWFIND, LOWUSED}, i_gpos := p, i_rec := ?d\<rparr>"
      using 4 D(2) by (simp add: insert_low_def Let_def ap)
    moreover have "part ?b True p ?d ?nx (L @ [p]) (rows low a0 (ps @ [p]))"
    proof -
      have "part ?b True (i_gpos s) (i_rec s) p L (rows low a0 ps)"
        using D(9) by (intro part_write [OF D(7) 4(1) _ g(3)]) simp
      moreover have "?b ! p = \<lparr>lnext = ?nx, ldata = ?d\<rparr>" using g LG ap by (metis link_eta nth_list_update_neq)
      ultimately show ?thesis using part_extend [of ?b _ _ p L _ True] 4(1) p(2) by simp
    qed
    moreover have "part ?b False (i_gpos2 s) (i_rec2 s) ?nx G (rows (\<lambda>d. \<not> low d) a0 (ps @ [p]))"
    proof -
      have "last L \<notin> set G" using D(9) g(2) by auto
      then have "?b ! i = ?a ! i" if "i \<in> set G" for i using that g(1) by (metis nth_list_update_neq)
      then show ?thesis using part_frame(1) [OF D(8), of ?b] p(2) by simp
    qed
    moreover have "?b ! i = a0 ! i" if "i \<notin> insert n (set ps)" for i
      using that g(1,2) D(10,11) by (metis UnI1 nth_list_update_neq set_append)
    ultimately have "split_inv low a0 n first (ps @ [p]) ?nx (L @ [p]) G (insert_low p s)"
      using 4 D(1-6) D(9,10) D(12,13) D(15) LG p(1) unfolding split_inv_def by auto
    then show ?thesis by blast
  qed
qed

text \<open>One more position, of a record that moves to the new bucket.\<close>

lemma split_high:
  assumes inv: "split_inv low a0 n first ps p L G s" and p: "p \<notin> insert n (set ps)" "\<not> low (ldata (a0 ! p))"
    and lt: "insert n (set ps) \<subseteq> {..<length a0}" and first: "ps = [] \<longrightarrow> p = first"
  shows "\<exists>G'. split_inv low a0 n first (ps @ [p]) (lnext (a0 ! p)) L G' (insert_high p s)"
proof -
  let ?a = "i_array s" and ?d = "ldata (a0 ! p)" and ?nx = "lnext (a0 ! p)" and ?high = "\<lambda>d. \<not> low d"
  note D = split_invD [OF inv] and N = split_inv_Nil [OF inv]
  have ap: "?a ! p = a0 ! p" using D(11) p(1) by simp
  have LG: "p \<notin> set L" "p \<notin> set G" "p \<noteq> i_empty s" using D(10) p(1) by auto
  have L: "part ?a False (i_gpos s) (i_rec s) ?nx L (rows low a0 (ps @ [p]))"
    using part_frame(1) [OF D(7)] p(2) by simp
  consider "G = []" | "G \<noteq> []" "HIGHUSED \<in> i_flag s" | "G \<noteq> []" "HIGHUSED \<notin> i_flag s" by blast
  then show ?thesis
  proof cases
    case 1
    have "insert_high p s = s\<lparr>i_flag := (i_flag s \<inter> {LOWFIND}) \<union> {HIGHFIND}, i_gpos2 := i_empty s, i_empty := p, i_rec2 := ?d\<rparr>"
      using 1 D(3) by (simp add: insert_high_def Let_def ap)
    moreover have "rows ?high a0 ps = []" using 1 N(3) by blast
    then have "part ?a False (i_empty s) ?d ?nx [i_empty s] (rows ?high a0 (ps @ [p]))" using p(2) by (simp add: part_single)
    moreover have "L = [] \<Longrightarrow> p = first" using 1 N(1) first by blast
    ultimately have "split_inv low a0 n first (ps @ [p]) ?nx L [i_empty s] (insert_high p s)"
      using 1 D(1,2) D(9-12) D(15) LG L p(1) unfolding split_inv_def by auto
    then show ?thesis by blast
  next
    case 2
    have "insert_high p s = s\<lparr>i_gpos2 := p, i_rec2 := ?d\<rparr>"
      using 2 D(3) by (simp add: insert_high_def Let_def ap)
    moreover have "part ?a True p ?d ?nx (G @ [p]) (rows ?high a0 (ps @ [p]))"
      using part_extend [of ?a _ _ p G] D(8) 2 ap p(2) by simp
    moreover have "L = [] \<Longrightarrow> i_empty s = first" using 2(1) N(3) D(14) by (metis rows_Nil)
    moreover have "LOWUSED \<notin> i_flag s" using 2(2) D(5) by blast
    ultimately have "split_inv low a0 n first (ps @ [p]) ?nx L (G @ [p]) (insert_high p s)"
      using 2 D(1-3) D(9-13) LG L p(1) unfolding split_inv_def by auto
    then show ?thesis by blast
  next
    case 3
    let ?b = "?a[i_gpos2 s := \<lparr>lnext = p, ldata = i_rec2 s\<rparr>]"
    have g: "i_gpos2 s = last G" "last G \<in> set G" "last G < length ?a" using D(1,8,10) 3(1) lt by (auto simp: part_def)
    have "insert_high p s = s\<lparr>i_array := ?b, i_flag := (i_flag s \<inter> {LOWFIND}) \<union> {HIGHFIND, HIGHUSED}, i_gpos2 := p, i_rec2 := ?d\<rparr>"
      using 3 D(3) by (simp add: insert_high_def Let_def ap)
    moreover have "part ?b True p ?d ?nx (G @ [p]) (rows ?high a0 (ps @ [p]))"
    proof -
      have "part ?b True (i_gpos2 s) (i_rec2 s) p G (rows ?high a0 ps)"
        using D(9) by (intro part_write [OF D(8) 3(1) _ g(3)]) simp
      moreover have "?b ! p = \<lparr>lnext = ?nx, ldata = ?d\<rparr>" using g LG ap by (metis link_eta nth_list_update_neq)
      ultimately show ?thesis using part_extend [of ?b _ _ p G _ True] 3(1) p(2) by simp
    qed
    moreover have "part ?b False (i_gpos s) (i_rec s) ?nx L (rows low a0 (ps @ [p]))"
    proof -
      have "last G \<notin> set L" using D(9) g(2) by auto
      then have "?b ! i = ?a ! i" if "i \<in> set L" for i using that g(1) by (metis nth_list_update_neq)
      then show ?thesis using part_frame(1) [OF D(7), of ?b] p(2) by simp
    qed
    moreover have "?b ! i = a0 ! i" if "i \<notin> insert n (set ps)" for i
      using that g(1,2) D(10,11) by (metis UnI1 UnI2 nth_list_update_neq set_append)
    moreover have "L = [] \<Longrightarrow> i_empty s = first" using 3(1) N(3) D(14) by (metis rows_Nil)
    ultimately have "split_inv low a0 n first (ps @ [p]) ?nx L (G @ [p]) (insert_high p s)"
      using 3 D(1-3) D(9,10) D(12,13) LG p(1) unfolding split_inv_def by auto
    then show ?thesis by blast
  qed
qed

lemma insert_low_nth: "(LOWFIND \<in> i_flag s \<Longrightarrow> i_gpos s \<noteq> z) \<Longrightarrow> i_array (insert_low z s) ! z = i_array s ! z"
  by (simp add: insert_low_def Let_def)

lemma insert_high_nth: "(HIGHFIND \<in> i_flag s \<Longrightarrow> i_gpos2 s \<noteq> z) \<Longrightarrow> i_array (insert_high z s) ! z = i_array s ! z"
  by (simp add: insert_high_def Let_def)

text \<open>The whole loop.\<close>

lemma insert_loop_split:
  assumes "split_inv low a0 n first ps (hd zs) L G s" "path a0 zs NO_RECORD" "zs \<noteq> []" "distinct (ps @ zs)"
    and "n \<notin> set (ps @ zs)" "insert n (set (ps @ zs)) \<subseteq> {..<length a0}" "NO_RECORD \<notin> set zs" "hd (ps @ zs) = first"
    and low: "\<And>d. low d \<longleftrightarrow> rec_hashnr h d AND half = 0"
    and home: "ps = [] \<Longrightarrow> my_hash_mask (rec_hashnr h (ldata (a0 ! hd zs))) (h_blength h) (h_records h) = first"
  shows "\<exists>L' G' s'. insert_loop h half first (hd zs) s = Some s' \<and> split_inv low a0 n first (ps @ zs) NO_RECORD L' G' s'"
  using assms(1-8) home
proof (induction zs arbitrary: ps L G s)
  case (Cons z zs)
  note D = split_invD [OF Cons.prems(1)]
  let ?s = "if low (ldata (a0 ! z)) then insert_low z s else insert_high z s" and ?nx = "lnext (a0 ! z)"
  have z: "z \<notin> insert n (set ps)" "i_array s ! z = a0 ! z" using Cons.prems(4,5) D(11) by auto
  have lt: "insert n (set ps) \<subseteq> {..<length a0}" "ps = [] \<longrightarrow> z = first" using Cons.prems(6,8) by auto
  have inv0: "split_inv low a0 n first ps z L G s" using Cons.prems(1) by simp
  have "\<exists>L' G'. split_inv low a0 n first (ps @ [z]) ?nx L' G' ?s"
  proof (cases "low (ldata (a0 ! z))")
    case True
    then show ?thesis using split_low [OF inv0 z(1) True lt] by (simp only: if_True) blast
  next
    case False
    then show ?thesis using split_high [OF inv0 z(1) False lt] by (simp only: if_False) blast
  qed
  then obtain L' G' where inv: "split_inv low a0 n first (ps @ [z]) ?nx L' G' ?s" by blast
  have nx: "lnext (i_array ?s ! z) = ?nx"
  proof -
    have "i_array ?s ! z = a0 ! z"
    proof -
      have zn: "z \<notin> set L" "z \<notin> set G" using D(10) z(1) by auto
      have "i_gpos s = last L" if "L \<noteq> []" using that D(7) by (simp add: part_def)
      then have "i_gpos s \<noteq> z" if "L \<noteq> []" using that zn(1) last_in_set by metis
      moreover have "i_gpos2 s = last G" if "G \<noteq> []" using that D(8) by (simp add: part_def)
      then have "i_gpos2 s \<noteq> z" if "G \<noteq> []" using that zn(2) last_in_set by metis
      ultimately show ?thesis using D(2,3) z(2) insert_low_nth [of s z] insert_high_nth [of s z] by presburger
    qed
    then show ?thesis by simp
  qed
  have first_ok: "\<not> (i_flag s = {} \<and> my_hash_mask (rec_hashnr h (ldata (i_array s ! z))) (h_blength h) (h_records h) \<noteq> first)"
    using Cons.prems(9) D(2,3) split_inv_Nil(1) [OF Cons.prems(1)] z(2) by auto
  have code: "insert_loop h half first z s = (if ?nx = NO_RECORD then Some ?s else insert_loop h half first ?nx ?s)"
    using first_ok nx z(2) low by (subst insert_loop.simps) (auto simp: Let_def)
  show ?case
  proof (cases "zs = []")
    case True
    then have "?nx = NO_RECORD" using Cons.prems(2) by simp
    then show ?thesis using code inv True by (intro exI [of _ L'] exI [of _ G'] exI [of _ ?s]) simp
  next
    case False
    then have hd: "?nx = hd zs" "hd zs \<in> set zs" using Cons.prems(2) by (simp_all add: path_Cons)
    then have "?nx \<noteq> NO_RECORD" using Cons.prems(7) by auto
    moreover have "\<exists>L' G' s'. insert_loop h half first (hd zs) ?s = Some s' \<and>
        split_inv low a0 n first ((ps @ [z]) @ zs) NO_RECORD L' G' s'"
      using inv hd False Cons.prems(2,4-8) by (intro Cons.IH) (auto simp: path_Cons)
    ultimately show ?thesis using code hd by simp
  qed
qed simp

end
