(* ===== verification/Hash_Insert.thy ===== *)
theory Hash_Insert
  imports Hash_Split
begin

unbundle bit_operations_syntax

text \<open>
  Insertion: the two halves of the split bucket, the placing of the new record and what the
  whole operation promises.
\<close>

section \<open>After the loop\<close>

lemma part_finish:
  assumes "part a u pos rc NO_RECORD xs ds" "distinct xs" "set xs \<subseteq> {..<length a}"
    and a': "a' = (if xs \<noteq> [] \<and> \<not> u then a[pos := \<lparr>lnext = NO_RECORD, ldata = rc\<rparr>] else a)"
  shows "path a' xs NO_RECORD \<and> map (\<lambda>i. ldata (a' ! i)) xs = ds \<and> length a' = length a \<and>
    (\<forall>i. i \<notin> set xs \<longrightarrow> a' ! i = a ! i)"
proof (cases "xs = []")
  case True
  then show ?thesis using assms(1) a' by (simp add: part_def)
next
  case False
  have pos: "pos = last xs" "last xs \<in> set xs" using assms(1) False by (simp_all add: part_def)
  have "part a' True pos rc NO_RECORD xs ds"
  proof (cases u)
    case False
    then have "a' = a[pos := \<lparr>lnext = NO_RECORD, ldata = rc\<rparr>]" using \<open>xs \<noteq> []\<close> a' by simp
    then show ?thesis using part_write [OF assms(1) \<open>xs \<noteq> []\<close> assms(2)] assms(3) pos(2) by auto
  qed (use assms(1) a' in simp)
  note L = part_linked [OF this False]
  have "a' ! i = a ! i" if "i \<notin> set xs" for i using that pos a' by (metis nth_list_update_neq)
  then show ?thesis using L a' by simp
qed

lemma insert_finish_split:
  assumes inv: "split_inv low a0 n first ps NO_RECORD L G s" and lt: "insert n (set ps) \<subseteq> {..<length a0}"
  shows "\<exists>a'. insert_finish s = s\<lparr>i_array := a'\<rparr> \<and> length a' = length a0 \<and> path a' L NO_RECORD \<and> path a' G NO_RECORD \<and>
    map (\<lambda>i. ldata (a' ! i)) L = rows low a0 ps \<and> map (\<lambda>i. ldata (a' ! i)) G = rows (\<lambda>d. \<not> low d) a0 ps \<and>
    (\<forall>i. i \<notin> insert n (set ps) \<longrightarrow> a' ! i = a0 ! i)"
proof -
  note D = split_invD [OF inv]
  have dL: "distinct L" "distinct G" "set L \<inter> set G = {}" using D(9) by auto
  have sub: "set L \<subseteq> insert n (set ps)" "set G \<subseteq> insert n (set ps)" using D(10) by auto
  have ltL: "set L \<subseteq> {..<length (i_array s)}" "set G \<subseteq> {..<length (i_array s)}" using sub lt D(1) by auto
  define a1 where "a1 = (if L \<noteq> [] \<and> \<not> LOWUSED \<in> i_flag s then (i_array s)[i_gpos s := \<lparr>lnext = NO_RECORD, ldata = i_rec s\<rparr>] else i_array s)"
  define a2 where "a2 = (if G \<noteq> [] \<and> \<not> HIGHUSED \<in> i_flag s then a1[i_gpos2 s := \<lparr>lnext = NO_RECORD, ldata = i_rec2 s\<rparr>] else a1)"
  note F1 = part_finish [OF D(7) dL(1) ltL(1) a1_def]
  have G1: "a1 ! i = i_array s ! i" if "i \<in> set G" for i using that F1 dL(3) by blast
  have "part a1 (HIGHUSED \<in> i_flag s) (i_gpos2 s) (i_rec2 s) NO_RECORD G (rows (\<lambda>d. \<not> low d) a0 ps)"
    using part_frame(2) [OF D(8) G1] .
  note F2 = part_finish [OF this dL(2) _ a2_def]
  have F2': "path a2 G NO_RECORD" "map (\<lambda>i. ldata (a2 ! i)) G = rows (\<lambda>d. \<not> low d) a0 ps" "length a2 = length a0"
    "\<And>i. i \<notin> set G \<Longrightarrow> a2 ! i = a1 ! i"
    using F2 F1 ltL(2) D(1) by auto
  have L2: "a2 ! i = a1 ! i" if "i \<in> set L" for i using that F2'(4) dL(3) by blast
  have flagL: "i_flag s \<inter> {LOWFIND, LOWUSED} = {LOWFIND} \<longleftrightarrow> L \<noteq> [] \<and> \<not> LOWUSED \<in> i_flag s" using D(2) by auto
  have flagG: "i_flag s \<inter> {HIGHFIND, HIGHUSED} = {HIGHFIND} \<longleftrightarrow> G \<noteq> [] \<and> \<not> HIGHUSED \<in> i_flag s" using D(3) by auto
  have "insert_finish s = s\<lparr>i_array := a2\<rparr>"
    unfolding insert_finish_def Let_def a2_def a1_def using flagL flagG by (cases s) simp
  moreover have "path a2 L NO_RECORD" using F1 path_cong [of L a2 a1, OF L2] by blast
  moreover have "map (\<lambda>i. ldata (a2 ! i)) L = rows low a0 ps" using F1 L2 by (metis (mono_tags, lifting) map_cong)
  moreover have "a2 ! i = a0 ! i" if "i \<notin> insert n (set ps)" for i using that sub F2'(4) F1 D(11) by (metis subsetD)
  ultimately show ?thesis using F2' by blast
qed

section \<open>The split\<close>

lemma buckets_array:
  assumes C: "buckets home S a C" and "\<And>i. i \<in> S \<Longrightarrow> a' ! i = a ! i" "S \<subseteq> {..<length a'}"
  shows "buckets home S a' C"
proof -
  have "bucket home a' b (C b)" for b
  proof (rule bucket_cong)
    show "bucket home a b (C b)" by (rule bucketsD [OF C])
    show "a' ! i = a ! i" if "i \<in> set (C b)" for i using assms(2) buckets_home(2) [OF C that] by simp
  qed (rule buckets_home(1) [OF C])
  then show ?thesis using C assms(3) unfolding buckets_def by auto
qed

lemma rows_partition: "mset (rows P a ps) + mset (rows (\<lambda>d. \<not> P d) a ps) = mset (map (\<lambda>i. ldata (a ! i)) ps)"
  by (simp add: rows_def flip: multiset_partition)

lemma split_buckets:
  assumes C: "buckets home0 {..<n} a C" "heads C" and lena: "length a = Suc n" and t: "t < n"
    and home: "\<And>r. home0 r = (if home1 r = n then t else home1 r)"
    and low: "\<And>r. home0 r = t \<Longrightarrow> low r \<longleftrightarrow> home1 r \<noteq> n"
    and inv: "split_inv low a n t (C t) NO_RECORD L G s" and ne: "C t \<noteq> []"
  shows "length (i_array (insert_finish s)) = Suc n \<and> i_empty (insert_finish s) \<le> n \<and>
    table_ok home1 ({..n} - {i_empty (insert_finish s)}) (i_array (insert_finish s)) \<and>
    contents ({..n} - {i_empty (insert_finish s)}) (i_array (insert_finish s)) = contents {..<n} a"
proof -
  note D = split_invD [OF inv]
  have zs: "set (C t) \<subseteq> {..<n}" using buckets_home(2) [OF C(1)] by auto
  obtain a' where a': "insert_finish s = s\<lparr>i_array := a'\<rparr>" "length a' = length a" "path a' L NO_RECORD" "path a' G NO_RECORD"
      "map (\<lambda>i. ldata (a' ! i)) L = rows low a (C t)" "map (\<lambda>i. ldata (a' ! i)) G = rows (\<lambda>d. \<not> low d) a (C t)"
      "\<And>i. i \<notin> insert n (set (C t)) \<Longrightarrow> a' ! i = a ! i"
    using insert_finish_split [OF inv] zs lena by fastforce
  have part: "set L \<union> set G \<union> {i_empty s} = insert n (set (C t))" "distinct L" "distinct G" "set L \<inter> set G = {}"
      "i_empty s \<notin> set L \<union> set G" using D(9,10) by auto
  have le: "insert n (set (C t)) \<subseteq> {..n}" using zs by auto
  then have "set L \<subseteq> {..n}" "set G \<subseteq> {..n}" "i_empty s \<in> {..n}" using part(1) by blast+
  then have lt: "set L \<subseteq> {..<length a}" "set G \<subseteq> {..<length a}" "i_empty s \<le> n" using lena by (auto simp: less_Suc_eq_le)
  have old: "home0 r = t \<and> P r" if "r \<in> set (rows P a (C t))" for r P using that buckets_home(1) [OF C(1)] by (auto simp: rows_def)
  have homeL: "home1 (ldata (a' ! i)) = t" if "i \<in> set L" for i
  proof -
    have "ldata (a' ! i) \<in> set (rows low a (C t))" using that a'(5) by (metis image_eqI list.set_map)
    then show ?thesis using old [of _ low] low home by metis
  qed
  have homeG: "home1 (ldata (a' ! i)) = n" if "i \<in> set G" for i
  proof -
    have "ldata (a' ! i) \<in> set (rows (\<lambda>d. \<not> low d) a (C t))" using that a'(6) by (metis image_eqI list.set_map)
    then show ?thesis using old [of _ "\<lambda>d. \<not> low d"] low by metis
  qed
  have "C n = []" using bucket_empty [OF C] by simp
  then have "buckets home1 ({..<n} - set (C t) \<union> set L \<union> set G) a' (C(t := L, n := G))"
    using t zs homeL homeG part(2,3) a'(2,3,4) lt
    by (intro buckets_split [OF C(1) a'(2) home]) (auto intro!: a'(7) simp: bucket_def)
  moreover have S: "{..<n} - set (C t) \<union> (set L \<union> set G) = {..n} - {i_empty s}"
  proof -
    have "{..n} = {..<n} - set (C t) \<union> insert n (set (C t))" using zs by auto
    also have "\<dots> = {..<n} - set (C t) \<union> (set L \<union> set G \<union> {i_empty s})" using part(1) by simp
    finally have "{..n} - {i_empty s} = ({..<n} - set (C t) - {i_empty s}) \<union> (set L \<union> set G)" using part(5) by blast
    moreover have "i_empty s \<in> insert n (set (C t))" using part(1) by blast
    then have "i_empty s \<notin> {..<n} - set (C t)" by auto
    ultimately show ?thesis by simp
  qed
  moreover have "heads (C(t := L, n := G))" using heads_upd [OF heads_upd [OF C(2)]] D(12,13) by blast
  ultimately have "table_ok home1 ({..n} - {i_empty s}) a'" unfolding table_ok_def by (metis Un_assoc)
  moreover have "contents ({..n} - {i_empty s}) a' = contents {..<n} a"
  proof -
    have disj: "({..<n} - set (C t)) \<inter> (set L \<union> set G) = {}" using part(1) by fastforce
    have "contents ({..n} - {i_empty s}) a' = contents ({..<n} - set (C t)) a' + (contents (set L) a' + contents (set G) a')"
      unfolding S [symmetric] using disj part(4) by (simp add: contents_Un)
    also have "contents (set L) a' + contents (set G) a' = contents (set (C t)) a"
      using part(2,3) a'(5,6) rows_partition [of low a "C t"] bucketsD [OF C(1), of t] by (simp add: contents_distinct bucket_def)
    also have "contents ({..<n} - set (C t)) a' = contents ({..<n} - set (C t)) a" using a'(7) by (intro contents_cong) auto
    also have "\<dots> + contents (set (C t)) a = contents ({..<n} - set (C t) \<union> set (C t)) a" by (subst contents_Un) auto
    finally show ?thesis using zs by (simp add: Un_absorb2)
  qed
  ultimately show ?thesis using a'(1,2) lena lt(3) by simp
qed

lemma sizes_ok_grow:
  assumes "sizes_ok b n" "n < NO_RECORD" and b': "b' = (if n + 1 = b then b + b else b)"
  shows "sizes_ok b' (n + 1)" "my_hash_mask x b' (n + 1) = my_hash_mask x b (n + 1)" "my_hash_mask x b (n + 1) < n + 1"
proof -
  obtain k where k: "k \<le> 32" "b = 2 ^ k" "b div 2 \<le> n" "n < b" using assms(1) by (auto simp: sizes_ok_def)
  have k': "k < 32" if "n + 1 = b"
  proof (rule ccontr)
    assume "\<not> k < 32"
    then have "b = 2 ^ 32" using k(1,2) by simp
    then show False using assms(2) that by (simp add: NO_RECORD_def)
  qed
  then show sz: "sizes_ok b' (n + 1)"
    using k b' unfolding sizes_ok_def by (cases "n + 1 = b") (auto intro: exI [of _ "Suc k"])
  show eq: "my_hash_mask x b' (n + 1) = my_hash_mask x b (n + 1)"
  proof (cases "n + 1 = b")
    case True
    then show ?thesis using b' k(2) my_hash_mask_double [OF k' [OF True], of x] by (simp add: mult_2)
  qed (use b' in simp)
  show "my_hash_mask x b (n + 1) < n + 1" using my_hash_mask_less [OF sz, of x] eq by simp
qed

lemma insert_split_ok:
  assumes wf: "wf_hash h" and n: "n = h_records h" "n < NO_RECORD"
    and home1: "\<And>r. home1 r = my_hash_mask (rec_hashnr h r) (h_blength h) (n + 1)"
  shows "\<exists>a e. insert_split h (h_array h @ [g]) = Some (a, e) \<and> e \<le> n \<and> length a = Suc n \<and>
    table_ok home1 ({..n} - {e}) a \<and> contents ({..n} - {e}) a = hash_rows h"
proof -
  obtain C where C0: "buckets (home_of h) {..<n} (h_array h) C" and hd: "heads C" and
      len: "length (h_array h) = n" and sz: "sizes_ok (h_blength h) n"
    using wf_hashE [OF wf] n(1) by metis
  let ?a = "h_array h @ [g]"
  have C: "buckets (home_of h) {..<n} ?a C" using len by (intro buckets_array [OF C0]) (auto simp: nth_append)
  have rows: "contents {..<n} ?a = hash_rows h"
    unfolding hash_rows_contents [OF wf] n(1) [symmetric] using len by (intro contents_cong) (simp add: nth_append)
  show ?thesis
  proof (cases "n = 0")
    case True
    then obtain k where "h_blength h = 2 ^ k" "(2 :: nat) ^ k div 2 = 0" using sz by (auto simp: sizes_ok_def)
    then have "h_blength h = 1" by (cases k) simp_all
    moreover have "buckets home1 {} ?a (\<lambda>_. [])" "heads (\<lambda>_. [])" by (auto simp: buckets_def heads_def)
    then have "table_ok home1 {} ?a" unfolding table_ok_def by blast
    ultimately show ?thesis using True n(1) len rows by (auto simp: insert_split_def)
  next
    case False
    then obtain k where k: "k < 32" "h_blength h = 2 ^ Suc k" "2 ^ k \<le> n" "n < 2 ^ Suc k" using sizes_okE [OF sz] by auto
    let ?t = "n - 2 ^ k" and ?low = "\<lambda>d. rec_hashnr h d AND 2 ^ k = 0"
    let ?s = "\<lparr>i_array = ?a, i_flag = {}, i_gpos = 0, i_gpos2 = 0, i_rec = 0, i_rec2 = 0, i_empty = n\<rparr>"
    have half: "drop_bit 1 (h_blength h) = 2 ^ k" using k(2) by (simp add: drop_bit_eq_div)
    have t: "?t < n" using False by simp
    have home0: "home_of h r = my_hash_mask (rec_hashnr h r) (2 ^ Suc k) n" for r using n(1) k(2) by (simp add: home_of_def)
    have home: "home_of h r = (if home1 r = n then ?t else home1 r)"
      and low: "home_of h r = ?t \<Longrightarrow> ?low r \<longleftrightarrow> home1 r \<noteq> n" for r
      using my_hash_mask_grow [OF k(1,3,4), of "rec_hashnr h r"] unfolding home0 home1 k(2) by simp_all
    have code: "insert_split h ?a = map_option (\<lambda>s. (i_array (insert_finish s), i_empty (insert_finish s))) (insert_loop h (2 ^ k) ?t ?t ?s)"
      unfolding insert_split_def Let_def half using t n(1) by simp
    show ?thesis
    proof (cases "C ?t = []")
      case True
      have "home_of h (ldata (?a ! ?t)) \<noteq> ?t" using buckets_mem [OF C, of ?t] t True by auto
      then have "insert_loop h (2 ^ k) ?t ?t ?s = Some ?s" using n(1) by (subst insert_loop.simps) (simp add: home_of_def Let_def)
      moreover have "insert_finish ?s = ?s" by (auto simp: insert_finish_def)
      moreover have "C n = []" using bucket_empty [OF C hd] by simp
      then have "buckets home1 ({..<n} - set (C ?t) \<union> set [] \<union> set []) ?a (C(?t := [], n := []))"
        using t by (intro buckets_split [OF C refl home]) auto
      moreover have "heads (C(?t := [], n := []))" using hd by (simp add: heads_def)
      ultimately have "insert_split h ?a = Some (?a, n) \<and> table_ok home1 {..<n} ?a" using code True unfolding table_ok_def by auto
      moreover have "{..n} - {n} = {..<n}" by auto
      ultimately show ?thesis using rows len by auto
    next
      case False
      have b: "bucket (home_of h) ?a ?t (C ?t)" using bucketsD [OF C] .
      have h1: "hd (C ?t) = ?t" "home_of h (ldata (?a ! ?t)) = ?t" using head_occupied [OF C hd False] hd False by (auto simp: heads_def)
      have lt: "set (C ?t) \<subseteq> {..<n}" using buckets_home(2) [OF C] by auto
      have "split_inv ?low ?a n ?t [] ?t [] [] ?s" by (simp add: split_inv_def)
      then have "\<exists>L' G' s'. insert_loop h (2 ^ k) ?t (hd (C ?t)) ?s = Some s' \<and> split_inv ?low ?a n ?t ([] @ C ?t) NO_RECORD L' G' s'"
        using b h1 lt False n len
        by (intro insert_loop_split [of _ _ _ _ _ _ "[]" "[]"]) (auto simp: bucket_def home_of_def)
      then obtain L G s where s: "insert_loop h (2 ^ k) ?t ?t ?s = Some s" "split_inv ?low ?a n ?t (C ?t) NO_RECORD L G s"
        using h1(1) by auto
      have "length ?a = Suc n" using len by simp
      then show ?thesis using split_buckets [OF C hd _ t home low s(2) False] code s(1) rows by auto
    qed
  qed
qed

section \<open>The new record\<close>

lemma insert_place_ok:
  assumes T: "table_ok home ({..n} - {e}) a" and a: "length a = Suc n" "e \<le> n" "home r \<le> n"
    and home: "\<And>r. home r = my_hash_mask (rec_hashnr h r) (h_blength h) (h_records h + 1)"
  shows "\<exists>a'. insert_place h a e r = Some a' \<and> length a' = Suc n \<and> table_ok home {..n} a' \<and>
    contents {..n} a' = add_mset r (contents ({..n} - {e}) a)"
proof -
  obtain C where C: "buckets home ({..n} - {e}) a C" "heads C" using T by (auto simp: table_ok_def)
  let ?b = "home r" and ?g = "home (ldata (a ! home r))"
  have S: "insert e ({..n} - {e}) = {..n}" using a(2) by auto
  have e: "e \<notin> {..n} - {e}" "e < length a" using a by auto
  have code: "insert_place h a e r =
      (if ?b = e then Some (a[e := \<lparr>lnext = NO_RECORD, ldata = r\<rparr>])
       else if ?b = ?g then Some (a[e := a ! ?b, ?b := \<lparr>lnext = e, ldata = r\<rparr>])
       else movelink (a[e := a ! ?b, ?b := \<lparr>lnext = NO_RECORD, ldata = r\<rparr>]) ?b ?g e)"
    by (simp add: insert_place_def my_hash_rec_mask_def Let_def home)
  consider "?b = e" | "?b \<noteq> e" "?b = ?g" | "?b \<noteq> e" "?b \<noteq> ?g" by blast
  then show ?thesis
  proof cases
    case 1
    have "C e = []" using bucket_empty [OF C] by simp
    then show ?thesis
      using put_alone [OF C(1) e _ 1] heads_upd [OF C(2), of "[e]" e] code 1 S a(1) unfolding table_ok_def by auto
  next
    case 2
    then have "?b \<in> {..n} - {e}" using a(3) by simp
    from push_front [OF C e this _ refl refl, of "ldata (a ! ?b)" r] show ?thesis
      using code 2 S a(1) by (simp add: link_eta)
  next
    case 3
    then have "?b \<in> {..n} - {e}" using a(3) by simp
    from displace [OF C e this refl _ refl] show ?thesis using code 3 S a(1) by auto
  qed
qed

text \<open>What is inserted, and when the insertion fails.\<close>

lemma my_hash_insert_ok:
  assumes wf: "wf_hash h" and full: "h_records h < NO_RECORD"
    and compat: "search_compatible h (length (h_get_key h r))"
  shows "if (h_unique h \<and> (\<exists>x \<in># hash_rows h. key_matches h (h_get_key h r) (length (h_get_key h r)) x)) \<or> alloc = None
    then my_hash_insert alloc h r = Some (h, True)
    else \<exists>h'. my_hash_insert alloc h r = Some (h', False) \<and> wf_hash h' \<and> hash_rows h' = add_mset r (hash_rows h) \<and>
      h' = h\<lparr>h_array := h_array h', h_records := h_records h + 1, h_blength := h_blength h'\<rparr>"
proof -
  let ?key = "h_get_key h r" and ?n = "h_records h"
  let ?m = "h_unique h \<and> (\<exists>x \<in># hash_rows h. key_matches h ?key (length ?key) x)"
  obtain x where x: "my_hash_search h ?key (length ?key) = Some x"
      "case x of Some r \<Rightarrow> r \<in># hash_rows h \<and> key_matches h ?key (length ?key) r
       | None \<Rightarrow> \<forall>r \<in># hash_rows h. \<not> key_matches h ?key (length ?key) r"
    using my_hash_search_rows [OF wf compat, of ?key] by blast
  show ?thesis
  proof (cases "?m \<or> alloc = None")
    case True
    then show ?thesis using x by (cases x; cases "h_unique h") (auto simp: my_hash_insert_def)
  next
    case False
    then obtain g where g: "alloc = Some g" by auto
    define home1 where "home1 = (\<lambda>r. my_hash_mask (rec_hashnr h r) (h_blength h) (?n + 1))"
    have sz: "sizes_ok (h_blength h) ?n" using wf by (simp add: wf_hash_def)
    obtain a e where a: "insert_split h (h_array h @ [g]) = Some (a, e)" "e \<le> ?n" "length a = Suc ?n"
        "table_ok home1 ({..?n} - {e}) a" "contents ({..?n} - {e}) a = hash_rows h"
      using insert_split_ok [OF wf refl full, of home1 g] by (auto simp: home1_def)
    have "home1 r \<le> ?n" using sizes_ok_grow(3) [OF sz full refl] by (simp add: home1_def less_Suc_eq_le)
    from insert_place_ok [OF a(4,3,2) this] obtain a' where a': "insert_place h a e r = Some a'" "length a' = Suc ?n"
        "table_ok home1 {..?n} a'" "contents {..?n} a' = add_mset r (hash_rows h)"
      using a(5) by (auto simp: home1_def)
    let ?b = "if ?n + 1 = h_blength h then h_blength h + h_blength h else h_blength h"
    let ?h = "h\<lparr>h_array := a', h_records := ?n + 1, h_blength := ?b\<rparr>"
    have S: "{..?n} = {..<Suc ?n}" by auto
    have "home_of ?h = home1"
      using sizes_ok_grow(2) [OF sz full refl] by (auto simp: home_of_def home1_def rec_hashnr_def fun_eq_iff)
    then have "wf_hash ?h" using a'(2,3) full sizes_ok_grow(1) [OF sz full refl] by (simp add: wf_hash_def S)
    moreover have "hash_rows ?h = add_mset r (hash_rows h)"
      using hash_rows_contents [OF \<open>wf_hash ?h\<close>] a'(4) by (simp add: S)
    moreover have "my_hash_insert alloc h r = Some (?h, False)"
      using x False a(1) a'(1) g by (cases x; cases "h_unique h") (auto simp: my_hash_insert_def Let_def)
    ultimately show ?thesis using False by auto
  qed
qed

end
