(* ===== verification/Hash_Delete.thy ===== *)
theory Hash_Delete
  imports Hash_Insert
begin

unbundle bit_operations_syntax

text \<open>
  Deletion: the record is unlinked, which leaves a gap, and the record at the last position moves so that
  the positions below it are occupied; the bucket of the last position is merged with another one.
\<close>

section \<open>Unlinking\<close>

text \<open>The bucket \<open>b\<close> is left with the positions \<open>zs\<close>, one less than before.\<close>

lemma bucket_shrinks:
  assumes C: "buckets home S a C" "heads C" and a': "length a' = length a" "\<And>i. i \<notin> set (C b) \<Longrightarrow> a' ! i = a ! i"
    and zs: "bucket home a' b zs" "zs = [] \<or> hd zs = b" "set zs = set (C b) - {e}" and e: "e \<in> set (C b)"
  shows "table_ok home (S - {e}) a'"
proof -
  have inS: "set (C b) \<subseteq> S" "set (C b) \<subseteq> {..<length a}" using buckets_home(2,3) [OF C(1), of _ b] by auto
  have "S - set (C b) \<union> set zs = S - {e}" using zs(3) e inS(1) by auto
  moreover have "buckets home (S - set (C b) \<union> set zs) a' (C(b := zs))"
    using a' zs inS by (intro buckets_upd [OF C(1)]) auto
  ultimately show ?thesis unfolding table_ok_def using heads_upd [OF C(2) zs(2)] by metis
qed

lemma contents_remove: "finite S \<Longrightarrow> p \<in> S \<Longrightarrow> contents S a = add_mset (ldata (a ! p)) (contents (S - {p}) a)"
  using contents_insert [of "S - {p}" p a] by (simp add: insert_absorb)

lemma unlink_later:
  assumes C: "buckets home S a C" "heads C" and xs: "C b = xs @ p # ys" "xs \<noteq> []"
    and a': "a' = a[last xs := (a ! last xs)\<lparr>lnext := lnext (a ! p)\<rparr>]"
  shows "table_ok home (S - {p}) a'" "contents S a = add_mset (ldata (a ! p)) (contents (S - {p}) a')"
proof -
  have bk: "distinct (xs @ p # ys)" "path a (xs @ p # ys) NO_RECORD" "\<And>i. i \<in> set (xs @ p # ys) \<Longrightarrow> home (ldata (a ! i)) = b"
    using bucketsD [OF C(1), of b] xs by (auto simp: bucket_def)
  have inS: "set (xs @ p # ys) \<subseteq> S" "set (xs @ p # ys) \<subseteq> {..<length a}" using buckets_home(2,3) [OF C(1), of _ b] xs by auto
  have "hd (C b) = b" using C(2) xs unfolding heads_def by (metis append_is_Nil_conv)
  then have hd: "hd (xs @ ys) = b" using xs by simp
  note P = path_split [OF bk(2) xs(2)]
  have lx: "last xs \<in> set xs" using xs(2) by simp
  then have l: "last xs < length a" "last xs \<notin> set ys" using inS(2) bk(1) by auto
  have data: "ldata (a' ! i) = ldata (a ! i)" for i using l(1) by (cases "i = last xs") (auto simp: a')
  have "path a' xs (if ys = [] then NO_RECORD else hd ys)" using path_redirect [OF P(1) xs(2) _ l(1)] bk(1) P(4) by (simp add: a')
  then have "path a' (xs @ ys) NO_RECORD" using P(3) l(2) by (simp add: path_append a')
  then have "bucket home a' b (xs @ ys)" using bk by (auto simp: bucket_def data)
  moreover have "set (xs @ ys) = set (C b) - {p}" using bk(1) xs(1) by auto
  moreover have "a' ! i = a ! i" if "i \<notin> set (C b)" for i using that lx xs(1) by (metis UnI1 a' nth_list_update_neq set_append)
  ultimately show "table_ok home (S - {p}) a'" using hd xs(1) by (intro bucket_shrinks [OF C, of a' b "xs @ ys"]) (simp_all add: a')
  have "contents (S - {p}) a' = contents (S - {p}) a" using data by (intro contents_cong) simp
  then show "contents S a = add_mset (ldata (a ! p)) (contents (S - {p}) a')"
    using contents_remove [OF buckets_finite [OF C(1)], of p a] inS(1) by simp
qed

lemma unlink_head:
  assumes C: "buckets home S a C" "heads C" and xs: "C b = p # y # ys" and a': "a' = a[p := a ! y]"
  shows "table_ok home (S - {y}) a'" "contents S a = add_mset (ldata (a ! p)) (contents (S - {y}) a')"
proof -
  have bk: "distinct (p # y # ys)" "path a (y # ys) NO_RECORD" "\<And>i. i \<in> set (p # y # ys) \<Longrightarrow> home (ldata (a ! i)) = b"
    using bucketsD [OF C(1), of b] xs by (auto simp: bucket_def path_Cons)
  have inS: "p \<in> S" "y \<in> S" "p < length a" using buckets_home(2,3) [OF C(1), of _ b] xs by auto
  have "path a' (p # ys) NO_RECORD" using bk inS by (simp add: path_Cons a')
  moreover have "home (ldata (a' ! i)) = b" if "i \<in> set (p # ys)" for i
    using that bk(1) bk(3) [of i] bk(3) [of y] inS(3) by (cases "i = p") (simp_all add: a')
  ultimately have "bucket home a' b (p # ys)" using bk(1) by (auto simp: bucket_def)
  moreover have "set (p # ys) = set (C b) - {y}" using xs bk(1) by auto
  moreover have "a' ! i = a ! i" if "i \<notin> set (C b)" for i using that xs by (metis a' list.set_intros(1) nth_list_update_neq)
  moreover have "hd (p # ys) = b" using C(2) xs unfolding heads_def by (metis list.distinct(1) list.sel(1))
  ultimately show "table_ok home (S - {y}) a'" using xs by (intro bucket_shrinks [OF C, of a' b "p # ys"]) (simp_all add: a')
  have "contents (insert p (S - {p} - {y})) a' = contents (S - {p}) a"
    using buckets_finite [OF C(1)] inS bk(1) by (intro contents_move) (auto simp: a' nth_list_update)
  moreover have "insert p (S - {p} - {y}) = S - {y}" using inS bk(1) by auto
  ultimately show "contents S a = add_mset (ldata (a ! p)) (contents (S - {y}) a')"
    using contents_remove [OF buckets_finite [OF C(1)] inS(1), of a] by simp
qed

lemma delete_unlink_ok:
  assumes C: "buckets home S a C" "heads C" and xs: "C b = xs @ p # ys"
    and no: "NO_RECORD \<notin> set (C b)" and g: "gpos = (if xs = [] then None else Some (last xs))"
  shows "\<exists>a' e. delete_unlink a p gpos = (a', e) \<and> e \<in> S \<and> length a' = length a \<and> table_ok home (S - {e}) a' \<and>
    contents S a = add_mset (ldata (a ! p)) (contents (S - {e}) a')"
proof -
  have path: "path a (xs @ p # ys) NO_RECORD" using bucketsD [OF C(1), of b] xs by (simp add: bucket_def)
  have inS: "set (xs @ p # ys) \<subseteq> S" using buckets_home(2) [OF C(1), of _ b] xs by auto
  consider "xs \<noteq> []" | y zs where "xs = []" "ys = y # zs" | "xs = []" "ys = []" by (meson neq_Nil_conv)
  then show ?thesis
  proof cases
    case 1
    then show ?thesis using unlink_later [OF C xs 1 refl] g inS by (simp add: delete_unlink_def)
  next
    case 2
    then have "lnext (a ! p) = y" "y \<noteq> NO_RECORD" "C b = p # y # zs" using path no xs by auto
    then show ?thesis using unlink_head [OF C _ refl, of b p y zs] 2 g inS by (simp add: delete_unlink_def)
  next
    case 3
    then have "table_ok home (S - {p}) a" using xs by (intro bucket_shrinks [OF C, of _ b "[]"]) auto
    moreover have "contents S a = add_mset (ldata (a ! p)) (contents (S - {p}) a)"
      using contents_remove [OF buckets_finite [OF C(1)]] inS by simp
    ultimately show ?thesis using 3 g inS path by (simp add: delete_unlink_def)
  qed
qed

section \<open>The last record moves\<close>

text \<open>When no record belongs to the bucket of the last position, no record changes its bucket.\<close>

lemma merge_nothing:
  assumes C: "buckets home0 S a C" "heads C" and n: "n \<notin> S"
    and home: "\<And>r. home1 r = (if home0 r = n then t else home0 r)"
  shows "table_ok home1 S a"
proof -
  have "C n = []" using bucket_empty [OF C] n by simp
  have "bucket home1 a b (C b)" for b
  proof (rule bucket_cong [OF bucketsD [OF C(1)]])
    show "home1 (ldata (a ! i)) = b" if "i \<in> set (C b)" for i
      using that buckets_home(1) [OF C(1) that] home \<open>C n = []\<close> by (cases "b = n") auto
  qed simp
  then show ?thesis unfolding table_ok_def using C by (auto simp: buckets_def)
qed

text \<open>The head of the bucket \<open>n\<close> moves to the free position \<open>t\<close>, which no bucket starts at.\<close>

lemma move_head:
  assumes C: "buckets home0 S a C" "heads C" and Cn: "C n = n # ys" and t: "t \<notin> S" "t < length a" "t \<noteq> n"
    and home: "\<And>r. home1 r = (if home0 r = n then t else home0 r)"
  shows "table_ok home1 (insert t (S - {n})) (a[t := a ! n])" "contents (insert t (S - {n})) (a[t := a ! n]) = contents S a"
proof -
  let ?a = "a[t := a ! n]"
  have bk: "distinct (n # ys)" "path a (n # ys) NO_RECORD" "\<And>i. i \<in> set (n # ys) \<Longrightarrow> home0 (ldata (a ! i)) = n"
    using bucketsD [OF C(1), of n] Cn by (auto simp: bucket_def)
  have inS: "set (n # ys) \<subseteq> S" "set (n # ys) \<subseteq> {..<length a}" using buckets_home(2,3) [OF C(1), of _ n] Cn by auto
  have Ct: "C t = []" using bucket_empty [OF C] t(1) by simp
  have ty: "t \<notin> set (n # ys)" using inS(1) t(1) by auto
  have "path ?a (t # ys) NO_RECORD" using bk(2) ty t(2) by (simp add: path_Cons)
  moreover have "home1 (ldata (?a ! i)) = t" if "i \<in> set (t # ys)" for i
    using that ty t(2) bk(3) [of i] bk(3) [of n] home by (cases "i = t") auto
  ultimately have "bucket home1 ?a t (t # ys)" using bk(1) ty by (auto simp: bucket_def)
  moreover have "?a ! i = a ! i" if "i \<in> S" for i using that t(1) by (metis nth_list_update_neq)
  ultimately have "buckets home1 (S - set (C n) - set (C t) \<union> set (t # ys)) ?a (C(n := [], t := t # ys))"
    using inS t by (intro buckets_merge [OF C(1) _ home]) auto
  moreover have "S - set (C n) - set (C t) \<union> set (t # ys) = insert t (S - {n})" using Cn Ct inS(1) bk(1) by auto
  moreover have "heads (C(n := [], t := t # ys))" by (intro heads_upd C(2)) simp_all
  ultimately show "table_ok home1 (insert t (S - {n})) ?a" unfolding table_ok_def by metis
  show "contents (insert t (S - {n})) ?a = contents S a"
    using buckets_finite [OF C(1)] inS(1) t by (intro contents_move) (auto simp: nth_list_update)
qed

text \<open>
  The record at \<open>n\<close>, followed by \<open>us\<close> up to the link \<open>f\<close>, is copied to \<open>e\<close> and linked between
  \<open>p\<close> and what follows \<open>p\<close>.
\<close>

lemma link_through:
  assumes path: "path a (n # us) f" "path a (p # vs) NO_RECORD" and dist: "distinct (n # e # p # us @ vs)"
    and lt: "set (e # p # us) \<subseteq> {..<length a}" and f: "f \<notin> set us"
  shows "\<exists>a'. map_option (\<lambda>data. data[p := (data ! p)\<lparr>lnext := e\<rparr>]) (movelink (a[e := a ! n]) f e (lnext (a[e := a ! n] ! p))) = Some a' \<and>
    length a' = length a \<and> path a' (p # e # us @ vs) NO_RECORD \<and> (\<forall>i. i \<notin> set (e # p # us) \<longrightarrow> a' ! i = a ! i) \<and>
    (\<forall>i. i \<noteq> e \<longrightarrow> ldata (a' ! i) = ldata (a ! i)) \<and> ldata (a' ! e) = ldata (a ! n)"
proof -
  let ?d = "a[e := a ! n]" and ?l = "last (e # us)" and ?nx = "if vs = [] then NO_RECORD else hd vs"
  let ?d2 = "?d[?l := (?d ! ?l)\<lparr>lnext := ?nx\<rparr>]"
  let ?a = "?d2[p := (?d2 ! p)\<lparr>lnext := e\<rparr>]"
  have ne: "e \<notin> set us" "e \<notin> set vs" "p \<notin> set us" "p \<notin> set vs" "p \<noteq> e" "e < length a" "p < length a" "set us \<inter> set vs = {}"
    using dist lt by auto
  have l: "?l \<in> set (e # us)" by (rule last_in_set) simp
  then have l': "?l < length a" "?l \<noteq> p" "?l \<notin> set vs" using lt ne by auto
  have pd: "path ?d (e # us) f" using path(1) ne by (simp add: path_Cons)
  have "distinct (e # us)" using dist by auto
  then have p2: "path ?d2 (e # us) ?nx" using path_redirect [OF pd] l'(1) by simp
  have "lnext (?d ! p) = ?nx" using path(2) ne by (simp add: path_Cons)
  then have "movelink ?d f e (lnext (?d ! p)) = Some ?d2" using movelink_path [OF pd] f by simp
  moreover have "path ?a (p # e # us @ vs) NO_RECORD"
  proof -
    have "path ?a (e # us) ?nx" using p2 ne by simp
    moreover have "path ?a vs NO_RECORD" using path(2) ne l'(3) by (simp add: path_Cons)
    moreover have "lnext (?a ! p) = e" using ne by simp
    ultimately show ?thesis using path_append [of ?a "e # us" vs NO_RECORD] by (simp add: path_Cons)
  qed
  moreover have "?a ! i = a ! i" if "i \<notin> set (e # p # us)" for i using that l by (metis insert_iff list.simps(15) nth_list_update_neq)
  moreover have data: "ldata (?a ! i) = ldata (?d ! i)" for i using l'(1) ne by (cases "i = p"; cases "i = ?l") simp_all
  then have "ldata (?a ! i) = ldata (a ! i)" if "i \<noteq> e" for i using that by simp
  moreover have "ldata (?a ! e) = ldata (a ! n)" using data [of e] ne by simp
  ultimately show ?thesis by (intro exI [of _ ?a]) simp
qed

lemma merge_through:
  assumes C: "buckets home0 S a C" "heads C" and e: "e \<notin> S" "e < length a" and tn: "t \<noteq> n"
    and home: "\<And>r. home1 r = (if home0 r = n then t else home0 r)"
    and path: "path a (n # us) f" "path a (t # vs) NO_RECORD" "f \<notin> set us" "distinct (n # t # us @ vs)"
    and sets: "set (C n) \<union> set (C t) = set (n # t # us @ vs)"
  shows "\<exists>a'. map_option (\<lambda>data. data[t := (data ! t)\<lparr>lnext := e\<rparr>]) (movelink (a[e := a ! n]) f e (lnext (a[e := a ! n] ! t))) = Some a' \<and>
    length a' = length a \<and> table_ok home1 (insert e (S - {n})) a' \<and> contents (insert e (S - {n})) a' = contents S a"
proof -
  have inS: "set (n # t # us @ vs) \<subseteq> S" "set (n # t # us @ vs) \<subseteq> {..<length a}"
    using buckets_home(2,3) [OF C(1)] sets by blast+
  have "distinct (n # e # t # us @ vs)" "set (e # t # us) \<subseteq> {..<length a}" using path(4) inS e by auto
  from link_through [OF path(1,2) this path(3)] obtain a' where
    code: "map_option (\<lambda>data. data[t := (data ! t)\<lparr>lnext := e\<rparr>]) (movelink (a[e := a ! n]) f e (lnext (a[e := a ! n] ! t))) = Some a'"
    and a': "length a' = length a" "path a' (t # e # us @ vs) NO_RECORD" "\<And>i. i \<notin> set (e # t # us) \<Longrightarrow> a' ! i = a ! i"
      "\<And>i. i \<noteq> e \<Longrightarrow> ldata (a' ! i) = ldata (a ! i)" "ldata (a' ! e) = ldata (a ! n)" by blast
  have hm: "home1 (ldata (a ! i)) = t" if "i \<in> set (n # t # us @ vs)" for i
    using that sets buckets_home(1) [OF C(1)] home tn by (metis UnE)
  have "home1 (ldata (a' ! i)) = t" if "i \<in> set (t # e # us @ vs)" for i
    using that hm [of i] hm [of n] a'(4) [of i] a'(5) by (cases "i = e") auto
  then have bk: "bucket home1 a' t (t # e # us @ vs)" using a'(2) \<open>distinct (n # e # t # us @ vs)\<close> by (auto simp: bucket_def)
  have rest: "a' ! i = a ! i" if "i \<in> S - set (C n) - set (C t)" for i
  proof (rule a'(3))
    have "i \<notin> set (C n) \<union> set (C t)" "i \<noteq> e" using that e(1) by auto
    then show "i \<notin> set (e # t # us)" unfolding sets by auto
  qed
  have "buckets home1 (S - set (C n) - set (C t) \<union> set (t # e # us @ vs)) a' (C(n := [], t := t # e # us @ vs))"
    using inS(2) e(2) by (intro buckets_merge [OF C(1) a'(1) home tn rest bk]) auto
  moreover have "S - set (C n) - set (C t) \<union> set (t # e # us @ vs) = insert e (S - {n})"
  proof -
    have "S - set (C n) - set (C t) = S - set (n # t # us @ vs)" using sets by blast
    then show ?thesis using inS(1) path(4) e(1) by auto
  qed
  moreover have "heads (C(n := [], t := t # e # us @ vs))" by (intro heads_upd C(2)) simp_all
  ultimately have "table_ok home1 (insert e (S - {n})) a'" unfolding table_ok_def by auto
  moreover have "contents (insert e (S - {n})) a' = contents S a"
  proof (rule contents_move [OF buckets_finite [OF C(1)] _ e(1) a'(5)])
    show "n \<in> S" using inS(1) by simp
    show "ldata (a' ! i) = ldata (a ! i)" if "i \<in> S - {n}" for i using that e(1) by (intro a'(4)) auto
  qed
  ultimately show ?thesis using code a'(1) by blast
qed

text \<open>
  The last record is the head of the bucket \<open>n\<close>; a record of another bucket occupies its new position
  and moves to the gap.
\<close>

lemma last_displaces:
  assumes C: "buckets home0 S a C" "heads C" and e: "e \<notin> S" "e < length a" "e \<noteq> n"
    and home: "\<And>r. home1 r = (if home0 r = n then t else home0 r)" and Cn: "C n \<noteq> []"
    and t: "t \<in> S" "t \<noteq> n" "home0 (ldata (a ! t)) = g" "g \<noteq> n" "g \<noteq> t"
  shows "\<exists>a'. movelink (a[e := a ! t, t := a ! n]) t g e = Some a' \<and> length a' = length a \<and>
    table_ok home1 (insert e (S - {n})) a' \<and> contents (insert e (S - {n})) a' = contents S a"
proof -
  obtain xs ys where xs: "C g = xs @ t # ys" "xs \<noteq> []" "hd xs = g" using intruder [OF C t(1,3,5)] by metis
  define a1 where "a1 = a[e := a ! t, last xs := (a ! last xs)\<lparr>lnext := e\<rparr>]"
  note rel = relocate [OF C(1) e(1,2) xs(1,2) a1_def] and ho = head_occupied [OF C Cn]
  have "last xs \<in> set (C g)" using xs(1,2) by simp
  then have "last xs \<noteq> n" using buckets_disjoint [OF C(1)] ho(1) t(4) by blast
  then have a1: "a1 ! n = a ! n" "length a1 = length a" using e(3) by (simp_all add: a1_def)
  have hd1: "heads (C(g := xs @ e # ys))" using xs by (intro heads_upd C(2)) simp
  have Cn1: "(C(g := xs @ e # ys)) n = n # tl (C n)" using ho(4) t(4) by simp
  have "t \<notin> insert e (S - {t})" "t < length a1" using e(1) t(1) buckets_lt [OF C(1)] a1(2) by auto
  note mv = move_head [OF rel(2) hd1 Cn1 this t(2) home]
  have "insert t (insert e (S - {t}) - {n}) = insert e (S - {n})" using t(1,2) e(3) by auto
  then show ?thesis using mv rel(1,3) xs(3) a1 by simp
qed

text \<open>The last record stays in its bucket and moves to the gap.\<close>

lemma last_relocates:
  assumes C: "buckets home0 S a C" "heads C" and e: "e \<notin> S" "e < length a" "e \<noteq> n"
    and home: "\<And>r. home1 r = (if home0 r = n then t else home0 r)" and n: "n \<in> S" "home0 (ldata (a ! n)) = p" "p \<noteq> n"
  shows "\<exists>a'. movelink (a[e := a ! n]) n p e = Some a' \<and> length a' = length a \<and>
    table_ok home1 (insert e (S - {n})) a' \<and> contents (insert e (S - {n})) a' = contents S a"
proof -
  obtain xs ys where xs: "C p = xs @ n # ys" "xs \<noteq> []" "hd xs = p" using intruder [OF C n] by metis
  define a1 where "a1 = a[e := a ! n, last xs := (a ! last xs)\<lparr>lnext := e\<rparr>]"
  note rel = relocate [OF C(1) e(1,2) xs(1,2) a1_def]
  have "distinct (xs @ n # ys)" using bucketsD [OF C(1), of p] xs(1) by (simp add: bucket_def)
  then have "last xs \<noteq> n" using last_in_set [OF xs(2)] by auto
  then have "a1 ! n = a ! n" using e(3) by (simp add: a1_def)
  then have "a1[n := a ! n] = a1" by (metis list_update_id)
  moreover have "a[e := a ! n, n := a ! n] = a[e := a ! n]" using e(3) by (metis list_update_id list_update_swap)
  ultimately have "movelink (a[e := a ! n]) n p e = Some a1" using rel(1) [of "a ! n"] xs(3) by simp
  moreover have "heads (C(p := xs @ e # ys))" using xs by (intro heads_upd C(2)) simp
  then have "table_ok home1 (insert e (S - {n})) a1" using merge_nothing [OF rel(2) _ _ home] e(3) by simp
  ultimately show ?thesis using rel(3) by (simp add: a1_def)
qed

text \<open>The record at the new position is in the bucket \<open>n\<close> as well, or starts the bucket \<open>t\<close>.\<close>

lemma last_joins:
  assumes C: "buckets home0 S a C" "heads C" and e: "e \<notin> S" "e < length a" and no: "\<And>b. NO_RECORD \<notin> set (C b)"
    and home: "\<And>r. home1 r = (if home0 r = n then t else home0 r)" and Cn: "C n \<noteq> []"
    and t: "t \<in> S" "t \<noteq> n" "g0 = home0 (ldata (a ! t))" "g0 = n \<or> g0 = t"
  shows "\<exists>a'. map_option (\<lambda>data. data[t := (data ! t)\<lparr>lnext := e\<rparr>])
      (movelink (a[e := a ! n]) (if n = g0 then t else NO_RECORD) e (lnext (a[e := a ! n] ! t))) = Some a' \<and>
    length a' = length a \<and> table_ok home1 (insert e (S - {n})) a' \<and> contents (insert e (S - {n})) a' = contents S a"
proof -
  have pth: "path a (C b) NO_RECORD" "distinct (C b)" for b using bucketsD [OF C(1), of b] by (simp_all add: bucket_def)
  note ho = head_occupied [OF C Cn]
  have mem: "t \<in> set (C g0)" using buckets_mem [OF C(1) t(1)] t(3) by simp
  show ?thesis
  proof (cases "g0 = n")
    case True
    then have "t \<in> set (tl (C n))" using mem ho(4) t(2) by (metis set_ConsD)
    then obtain us vs where uv: "C n = n # us @ t # vs" using ho(4) by (metis split_list)
    have "path a (n # us) t" "path a (t # vs) NO_RECORD" "t \<notin> set us" "distinct (n # t # us @ vs)"
      using pth [of n] uv path_append [of a "n # us" "t # vs" NO_RECORD] by auto
    note m = merge_through [OF C e t(2) home this]
    have "C t = []" using bucket_empty [OF C, of t] t(2,3) True by simp
    then have "set (C n) \<union> set (C t) = set (n # t # us @ vs)" using uv by auto
    then show ?thesis using m True by simp
  next
    case False
    then have Ct: "C t \<noteq> []" "g0 = t" using mem t(4) by auto
    obtain us vs where uv: "C n = n # us" "C t = t # vs" using ho(4) head_occupied(4) [OF C Ct(1)] by metis
    have "set (C n) \<inter> set (C t) = {}" using buckets_disjoint [OF C(1)] t(2) by blast
    then have "path a (n # us) NO_RECORD" "path a (t # vs) NO_RECORD" "NO_RECORD \<notin> set us" "distinct (n # t # us @ vs)"
      using pth [of n] pth [of t] no [of n] uv by auto
    note m = merge_through [OF C e t(2) home this]
    have "set (C n) \<union> set (C t) = set (n # t # us @ vs)" using uv by auto
    then show ?thesis using m False by simp
  qed
qed

text \<open>All cases of the code, for the two numberings of the buckets before and after.\<close>

lemma delete_move_last_ok:
  assumes T: "table_ok home0 ({..n} - {e}) a" and a: "length a = Suc n" "e \<le> n" "n < NO_RECORD" and n: "h_records h = n"
    and home: "\<And>r. home1 r = (if home0 r = n then t else home0 r)" and t: "0 < n \<Longrightarrow> t < n"
    and home0: "\<And>r. home0 r = my_hash_mask (rec_hashnr h r) blength (n + 1)"
    and home1: "\<And>r. home1 r = my_hash_mask (rec_hashnr h r) (h_blength h) n"
  shows "\<exists>a'. delete_move_last h blength a e = Some a' \<and> length a' = Suc n \<and> table_ok home1 {..<n} a' \<and>
    contents {..<n} a' = contents ({..n} - {e}) a"
proof (cases "e = n")
  case True
  have S: "{..n} - {n} = {..<n}" by auto
  obtain C where "buckets home0 ({..n} - {e}) a C" "heads C" using T by (auto simp: table_ok_def)
  then show ?thesis using merge_nothing [OF _ _ _ home] True a(1) n S by (auto simp: delete_move_last_def)
next
  case False
  let ?S = "{..n} - {e}"
  obtain C where C: "buckets home0 ?S a C" "heads C" using T by (auto simp: table_ok_def)
  have S: "insert e (?S - {n}) = {..<n}" "n \<in> ?S" "t < n" "t \<noteq> n" using False a(2) t by auto
  have e: "e \<notin> ?S" "e < length a" using a by auto
  define q where "q = home0 (ldata (a ! n))"
  define p where "p = (if q = n then t else q)"
  have qC: "C q \<noteq> []" using buckets_mem [OF C(1) S(2)] by (auto simp: q_def)
  note hq = head_occupied [OF C qC]
  have pn: "p < n" using S(3) hq(2) by (auto simp: p_def)
  have no: "NO_RECORD \<notin> set (C b)" for b using buckets_home(2) [OF C(1), of NO_RECORD b] a(3) by auto
  define g0 where "g0 = home0 (ldata (a ! p))"
  define g where "g = (if g0 = n then t else g0)"
  have code: "delete_move_last h blength a e =
     (if p = e then Some (a[e := a ! n])
      else if p \<noteq> g then movelink (a[e := a ! p, p := a ! n]) p g e
      else if q = g0 \<and> q \<noteq> n then movelink (a[e := a ! n]) n p e
      else map_option (\<lambda>data. data[p := (data ! p)\<lparr>lnext := e\<rparr>])
             (movelink (a[e := a ! n]) (if q = g0 then p else NO_RECORD) e (lnext (a[e := a ! n] ! p))))"
  proof -
    have M: "my_hash_mask (rec_hashnr h (ldata (a ! n))) (h_blength h) n = p" "my_hash_mask (rec_hashnr h (ldata (a ! p))) (h_blength h) n = g"
      "my_hash_mask (rec_hashnr h (ldata (a ! n))) blength (n + 1) = q" "my_hash_mask (rec_hashnr h (ldata (a ! p))) blength (n + 1) = g0"
      unfolding home0 [symmetric] home1 [symmetric] p_def g_def q_def g0_def by (simp_all add: home)
    show ?thesis unfolding delete_move_last_def Let_def n M using False by (simp only: if_False)
  qed
  consider (head) "q = n" "p = e" | (displace) "q = n" "p \<noteq> e" "p \<noteq> g" | (stay) "q \<noteq> n" | (join) "q = n" "p \<noteq> e" "p = g" by blast
  then show ?thesis
  proof cases
    case head
    then have Cn: "C n = n # tl (C n)" and te: "e = t" using hq(4) by (simp_all add: p_def)
    show ?thesis using move_head [OF C Cn _ _ S(4) home] e S(1) code head(2) a(1) te by simp
  next
    case displace
    have "p \<in> ?S" "p = t" "g0 \<noteq> n" "g = g0" using displace pn by (auto simp: p_def g_def)
    then show ?thesis using last_displaces [OF C e False home, of g] displace code qC S(1,4) a(1) by (simp add: g0_def)
  next
    case stay
    have "p = q" "p \<noteq> e" "g0 = q" using stay hq(2,3) by (simp_all add: p_def g0_def)
    then show ?thesis using last_relocates [OF C e False home S(2), of q] stay code S(1) a(1) by (simp add: g_def q_def)
  next
    case join
    have pt: "p \<in> ?S" "t = p" "g0 = n \<or> g0 = t" using join pn by (auto simp: p_def g_def split: if_splits)
    have c': "delete_move_last h blength a e = map_option (\<lambda>data. data[t := (data ! t)\<lparr>lnext := e\<rparr>])
      (movelink (a[e := a ! n]) (if n = g0 then t else NO_RECORD) e (lnext (a[e := a ! n] ! t)))"
      unfolding code pt(2) using join by simp
    show ?thesis unfolding c' S(1) [symmetric] a(1) [symmetric]
      using pt join(1) qC S(4) by (intro last_joins [OF C e no home]) (simp_all add: g0_def)
  qed
qed

section \<open>The whole operation\<close>

lemma delete_search_bucket:
  assumes C: "buckets home S a C" "heads C" and no: "\<And>b. NO_RECORD \<notin> set (C b)" and b: "home r \<in> S"
  shows "if r \<in> (\<lambda>i. ldata (a ! i)) ` S
    then \<exists>xs p ys. C (home r) = xs @ p # ys \<and> ldata (a ! p) = r \<and>
      delete_search a r (home r) None = Some (Some (p, if xs = [] then None else Some (last xs)))
    else delete_search a r (home r) None = Some None"
proof -
  let ?P = "\<lambda>i. ldata (a ! i) \<noteq> r" and ?D = "\<lambda>X. (\<lambda>i. ldata (a ! i)) ` X"
  have pth: "path a (C b) NO_RECORD" for b using bucketsD [OF C(1), of b] by (simp add: bucket_def)
  have inC: "r \<in> ?D S \<longleftrightarrow> r \<in> ?D (set (C (home r)))" using buckets_mem [OF C(1)] buckets_home(2) [OF C(1)] by blast
  show ?thesis
  proof (cases "C (home r) = []")
    case True
    define g where "g = home (ldata (a ! home r))"
    have gn: "g \<noteq> home r" using buckets_mem [OF C(1) b] True by (auto simp: g_def)
    then obtain xs ys where xs: "C g = xs @ home r # ys" using intruder [OF C b g_def [symmetric]] by metis
    have "ldata (a ! i) \<noteq> r" if "i \<in> set (home r # ys)" for i
    proof -
      have "i \<in> set (C g)" using that xs by auto
      then show ?thesis using buckets_home(1) [OF C(1)] gn by blast
    qed
    then have "r \<notin> ?D (set (home r # ys))" by blast
    moreover have "path a (home r # ys) NO_RECORD" using pth [of g] xs path_append [of a xs "home r # ys" NO_RECORD] by simp
    moreover have "NO_RECORD \<notin> set (home r # ys)" using no [of g] xs by simp
    ultimately have "delete_search a r (home r) None = Some None" using delete_search_path [of a "home r # ys" r None] by simp
    then show ?thesis using inC True by simp
  next
    case False
    have hd: "hd (C (home r)) = home r" using C(2) False by (simp add: heads_def)
    note ds = delete_search_path [OF pth no False, of r None, unfolded hd]
    show ?thesis
    proof (cases "r \<in> ?D (set (C (home r)))")
      case True
      then have ne: "dropWhile ?P (C (home r)) \<noteq> []" by (auto simp: dropWhile_eq_Nil_conv)
      let ?xs = "takeWhile ?P (C (home r))" and ?p = "hd (dropWhile ?P (C (home r)))"
      have "C (home r) = ?xs @ ?p # tl (dropWhile ?P (C (home r)))" using ne by simp
      moreover have "ldata (a ! ?p) = r" using hd_dropWhile [OF ne] by simp
      ultimately show ?thesis using True inC ds by (auto simp: Let_def simp del: takeWhile_dropWhile_id)
    qed (use inC ds in simp)
  qed
qed

lemma sizes_ok_shrink:
  assumes sz: "sizes_ok b (Suc n)" and b': "b' = (if n < drop_bit 1 b then drop_bit 1 b else b)"
  shows "sizes_ok b' n" "0 < n \<Longrightarrow> \<exists>t<n. \<forall>x. my_hash_mask x b' n = (if my_hash_mask x b (Suc n) = n then t else my_hash_mask x b (Suc n))"
proof -
  obtain k where k: "k < 32" "b = 2 ^ Suc k" "2 ^ k \<le> Suc n" "Suc n < 2 ^ Suc k" using sizes_okE [OF sz] by auto
  have half: "drop_bit 1 b = 2 ^ k" using k(2) by (simp add: drop_bit_eq_div)
  show sz': "sizes_ok b' n"
  proof (cases "n < 2 ^ k")
    case True
    then have "b' = 2 ^ k" "Suc n = 2 ^ k" using b' half k(3) by auto
    moreover have "(2 :: nat) ^ k div 2 \<le> n" using \<open>Suc n = 2 ^ k\<close> by (cases k) auto
    ultimately show ?thesis using k(1) by (auto simp: sizes_ok_def intro!: exI [of _ k])
  next
    case False
    then show ?thesis using b' half k by (auto simp: sizes_ok_def intro!: exI [of _ "Suc k"])
  qed
  assume n: "0 < n"
  then obtain j where j: "j < 32" "b' = 2 ^ Suc j" "2 ^ j \<le> n" "n < 2 ^ Suc j" using sizes_okE [OF sz'] by auto
  have eq: "my_hash_mask x b (Suc n) = my_hash_mask x b' (Suc n)" for x
  proof (cases "n < 2 ^ k")
    case True
    then have "b' = 2 ^ k" "Suc n = 2 ^ k" using b' half k(3) by auto
    then show ?thesis using my_hash_mask_double [OF k(1), of x] k(2) by simp
  qed (use b' half in simp)
  have "n - 2 ^ j < n" using n by simp
  moreover have "my_hash_mask x b' n = (if my_hash_mask x b (Suc n) = n then n - 2 ^ j else my_hash_mask x b (Suc n))" for x
    unfolding eq j(2) using my_hash_mask_grow(1) [OF j(1,3,4), of x] by simp
  ultimately show "\<exists>t<n. \<forall>x. my_hash_mask x b' n = (if my_hash_mask x b (Suc n) = n then t else my_hash_mask x b (Suc n))" by blast
qed

lemma delete_shrinks:
  assumes T: "table_ok home0 ({..n} - {e}) a" and a: "length a = Suc n" "e \<le> n" "n < NO_RECORD"
    and sz: "sizes_ok blength (Suc n)"
    and h: "h_records h = n" "h_blength h = (if n < drop_bit 1 blength then drop_bit 1 blength else blength)"
    and home0: "\<And>r. home0 r = my_hash_mask (rec_hashnr h r) blength (Suc n)"
  shows "\<exists>a'. delete_move_last h blength a e = Some a' \<and> wf_hash (h\<lparr>h_array := butlast a'\<rparr>) \<and>
    hash_rows (h\<lparr>h_array := butlast a'\<rparr>) = contents ({..n} - {e}) a"
proof -
  have "\<exists>a'. delete_move_last h blength a e = Some a' \<and> length a' = Suc n \<and> table_ok (home_of h) {..<n} a' \<and>
    contents {..<n} a' = contents ({..n} - {e}) a"
  proof (cases "n = 0")
    case True
    moreover have "buckets (home_of h) {} a (\<lambda>_. [])" "heads (\<lambda>_. [])" by (auto simp: buckets_def heads_def)
    then have "table_ok (home_of h) {} a" unfolding table_ok_def by blast
    ultimately show ?thesis using a h(1) by (auto simp: delete_move_last_def)
  next
    case False
    then obtain t where t: "t < n"
        "\<And>x. my_hash_mask x (h_blength h) n = (if my_hash_mask x blength (Suc n) = n then t else my_hash_mask x blength (Suc n))"
      using sizes_ok_shrink(2) [OF sz h(2)] by auto
    have "home_of h r = (if home0 r = n then t else home0 r)" for r using t(2) h(1) by (simp add: home_of_def home0)
    then show ?thesis using home0 h(1) t(1) by (intro delete_move_last_ok [OF T a h(1)]) (simp_all add: home_of_def)
  qed
  then obtain a' where a': "delete_move_last h blength a e = Some a'" "length a' = Suc n" "table_ok (home_of h) {..<n} a'"
    "contents {..<n} a' = contents ({..n} - {e}) a" by blast
  obtain C where C: "buckets (home_of h) {..<n} a' C" "heads C" using a'(3) by (auto simp: table_ok_def)
  have nth: "butlast a' ! i = a' ! i" if "i < n" for i using that a'(2) by (simp add: nth_butlast)
  then have "buckets (home_of h) {..<n} (butlast a') C" using a'(2) by (intro buckets_array [OF C(1)]) auto
  moreover have "home_of (h\<lparr>h_array := butlast a'\<rparr>) = home_of h" by (simp add: home_of_def rec_hashnr_def fun_eq_iff)
  ultimately have wf: "wf_hash (h\<lparr>h_array := butlast a'\<rparr>)"
    using a' a(3) h C(2) sizes_ok_shrink(1) [OF sz h(2)] by (auto simp: wf_hash_def table_ok_def)
  have "contents {..<n} (butlast a') = contents {..<n} a'" using nth by (intro contents_cong) simp
  then show ?thesis using a' wf hash_rows_contents [OF wf] h(1) by simp
qed

lemma my_hash_delete_ok:
  assumes wf: "wf_hash h"
  shows "if r \<in># hash_rows h
    then \<exists>h'. my_hash_delete h r = Some (h', False, if h_free h then [r] else []) \<and> wf_hash h' \<and>
      hash_rows h' = hash_rows h - {#r#} \<and> h' = h\<lparr>h_array := h_array h', h_records := h_records h - 1, h_blength := h_blength h'\<rparr>
    else my_hash_delete h r = Some (h, True, [])"
proof (cases "h_records h")
  case 0
  then show ?thesis using wf by (simp add: my_hash_delete_def hash_rows_def wf_hash_def)
next
  case (Suc n)
  obtain C where C: "buckets (home_of h) {..<Suc n} (h_array h) C" "heads C"
    and a: "length (h_array h) = Suc n" "Suc n \<le> NO_RECORD" and sz: "sizes_ok (h_blength h) (Suc n)"
    using wf_hashE [OF wf] Suc by metis
  have no: "NO_RECORD \<notin> set (C b)" for b using no_record_path [OF C(1)] a by simp
  have "home_of h r < Suc n" using my_hash_mask_less [OF sz] Suc by (simp add: home_of_def)
  then have ds: "if r \<in> (\<lambda>i. ldata (h_array h ! i)) ` {..<Suc n}
    then \<exists>xs p ys. C (home_of h r) = xs @ p # ys \<and> ldata (h_array h ! p) = r \<and>
      delete_search (h_array h) r (home_of h r) None = Some (Some (p, if xs = [] then None else Some (last xs)))
    else delete_search (h_array h) r (home_of h r) None = Some None"
    by (intro delete_search_bucket [OF C no]) simp
  have rows: "r \<in># hash_rows h \<longleftrightarrow> r \<in> (\<lambda>i. ldata (h_array h ! i)) ` {..<Suc n}"
  proof -
    have "set (h_array h) = (!) (h_array h) ` {..<Suc n}" using nth_image [of "Suc n" "h_array h"] a(1) by (simp add: atLeast0LessThan)
    then show ?thesis by (simp add: hash_rows_def image_image)
  qed
  have mask: "my_hash_mask (rec_hashnr h r) (h_blength h) (Suc n) = home_of h r" using Suc by (simp add: home_of_def)
  show ?thesis
  proof (cases "r \<in># hash_rows h")
    case False
    then show ?thesis using ds rows Suc by (simp add: my_hash_delete_def Let_def mask)
  next
    case True
    then obtain xs p ys where xs: "C (home_of h r) = xs @ p # ys" "ldata (h_array h ! p) = r"
      "delete_search (h_array h) r (home_of h r) None = Some (Some (p, if xs = [] then None else Some (last xs)))"
      using ds rows by auto
    obtain a' e where a': "delete_unlink (h_array h) p (if xs = [] then None else Some (last xs)) = (a', e)" "e < Suc n"
      "length a' = Suc n" "table_ok (home_of h) ({..<Suc n} - {e}) a'"
      "hash_rows h = add_mset r (contents ({..<Suc n} - {e}) a')"
      using delete_unlink_ok [OF C xs(1) no refl] xs(2) a(1) hash_rows_contents [OF wf] Suc by auto
    define h1 where "h1 = h\<lparr>h_records := n, h_blength := (if n < drop_bit 1 (h_blength h) then drop_bit 1 (h_blength h) else h_blength h)\<rparr>"
    have S: "{..<Suc n} = {..n}" by auto
    have "rec_hashnr h1 = rec_hashnr h" by (simp add: h1_def rec_hashnr_def fun_eq_iff)
    then obtain a2 where a2: "delete_move_last h1 (h_blength h) a' e = Some a2" "wf_hash (h1\<lparr>h_array := butlast a2\<rparr>)"
      "hash_rows (h1\<lparr>h_array := butlast a2\<rparr>) = contents ({..n} - {e}) a'"
      using delete_shrinks [OF a'(4) [unfolded S] a'(3) _ _ sz, of h1] a' a(2) Suc
      by (auto simp: h1_def home_of_def less_Suc_eq_le)
    have "my_hash_delete h r = Some (h1\<lparr>h_array := butlast a2\<rparr>, False, if h_free h then [r] else [])"
      using Suc xs(3) a'(1) a2(1) by (cases "n < drop_bit 1 (h_blength h)") (simp_all add: my_hash_delete_def Let_def mask h1_def)
    then show ?thesis using True a2 a'(5) S Suc by (auto simp: h1_def)
  qed
qed

end
