(* ===== verification/Refinement.thy ===== *)
theory Refinement
  imports Main
begin

text \<open>
  Sequences of operations: a component whose every operation implements one step of an abstract
  specification, while there is room for it, implements every sequence of steps.
\<close>

text \<open>The operations one after the other, with what each of them reports.\<close>

fun run_all :: "('op \<Rightarrow> 's \<Rightarrow> ('s \<times> 'b) option) \<Rightarrow> 'op list \<Rightarrow> 's \<Rightarrow> ('s \<times> 'b list) option" where
  "run_all step [] s = Some (s, [])"
| "run_all step (op # ops) s =
     (case step op s of None \<Rightarrow> None
      | Some (s, b) \<Rightarrow> map_option (\<lambda>(s, bs). (s, b # bs)) (run_all step ops s))"

fun spec_all :: "('op \<Rightarrow> 'a \<Rightarrow> 'a \<times> 'b) \<Rightarrow> 'op list \<Rightarrow> 'a \<Rightarrow> 'a \<times> 'b list" where
  "spec_all spec [] m = (m, [])"
| "spec_all spec (op # ops) m =
     (case spec op m of (m, b) \<Rightarrow> (case spec_all spec ops m of (m, bs) \<Rightarrow> (m, b # bs)))"

text \<open>\<open>inv k\<close> is the invariant of a state with room for \<open>k\<close> more operations.\<close>

locale step_refinement =
  fixes ok :: "'op \<Rightarrow> bool" and inv :: "nat \<Rightarrow> 's \<Rightarrow> bool" and abs :: "'s \<Rightarrow> 'a"
    and step :: "'op \<Rightarrow> 's \<Rightarrow> ('s \<times> 'b) option" and spec :: "'op \<Rightarrow> 'a \<Rightarrow> 'a \<times> 'b"
  assumes step_spec: "ok op \<Longrightarrow> inv (Suc k) s \<Longrightarrow> \<exists>s' b. step op s = Some (s', b) \<and> inv k s' \<and> spec op (abs s) = (abs s', b)"
begin

lemma run_spec:
  "list_all ok ops \<Longrightarrow> inv (length ops + k) s \<Longrightarrow>
    \<exists>s' bs. run_all step ops s = Some (s', bs) \<and> inv k s' \<and> spec_all spec ops (abs s) = (abs s', bs)"
proof (induction ops arbitrary: s)
  case (Cons op ops)
  obtain s1 b where s1: "step op s = Some (s1, b)" "inv (length ops + k) s1" "spec op (abs s) = (abs s1, b)"
    using step_spec [of op "length ops + k" s] Cons.prems by auto
  obtain s' bs where "run_all step ops s1 = Some (s', bs)" "inv k s'" "spec_all spec ops (abs s1) = (abs s', bs)"
    using Cons.IH [OF _ s1(2)] Cons.prems(1) by auto
  then show ?case using s1 by simp
qed simp

end

end
