(* ===== verification/Hash_Ops.thy ===== *)
theory Hash_Ops
  imports Hash_Delete Refinement
begin

unbundle bit_operations_syntax

text \<open>
  The hash table as a multiset of records: searching, sequences of insertions and deletions.
\<close>

section \<open>Searching all records of a key\<close>

lemma filter_split:
  assumes "j < length (filter P xs)"
  obtains us vs where "xs = us @ filter P xs ! j # vs" "filter P vs = drop (Suc j) (filter P xs)" "P (filter P xs ! j)"
proof -
  have "\<exists>us vs. xs = us @ filter P xs ! j # vs \<and> filter P vs = drop (Suc j) (filter P xs) \<and> P (filter P xs ! j)"
    using assms
  proof (induction xs arbitrary: j)
    case (Cons x xs)
    show ?case
    proof (cases "P x")
      case True
      show ?thesis
      proof (cases j)
        case 0
        then show ?thesis using True by (intro exI [of _ "[]"] exI [of _ xs]) simp
      next
        case (Suc i)
        then obtain us vs where "xs = us @ filter P xs ! i # vs" "filter P vs = drop (Suc i) (filter P xs)" "P (filter P xs ! i)"
          using Cons.IH [of i] Cons.prems True by auto
        then show ?thesis using Suc True by (intro exI [of _ "x # us"] exI [of _ vs]) simp
      qed
    next
      case False
      then obtain us vs where "xs = us @ filter P xs ! j # vs" "filter P vs = drop (Suc j) (filter P xs)" "P (filter P xs ! j)"
        using Cons.IH [of j] Cons.prems by auto
      then show ?thesis using False by (intro exI [of _ "x # us"] exI [of _ vs]) simp
    qed
  qed simp
  then show thesis using that by blast
qed

lemma matching_positions:
  assumes wf: "wf_hash h" and compat: "search_compatible h len"
    and C: "buckets (home_of h) {..<h_records h} (h_array h) C" "heads C"
  shows "mset (map (\<lambda>i. ldata (h_array h ! i)) (filter (\<lambda>i. key_matches h key len (ldata (h_array h ! i))) (C (key_home h key len)))) =
    filter_mset (key_matches h key len) (hash_rows h)"
proof -
  let ?P = "\<lambda>i. key_matches h key len (ldata (h_array h ! i))" and ?xs = "C (key_home h key len)"
  have rows: "hash_rows h = contents {..<h_records h} (h_array h)" by (rule hash_rows_contents [OF wf])
  have "distinct ?xs" using bucketsD [OF C(1), of "key_home h key len"] by (simp add: bucket_def)
  moreover have "set (filter ?P ?xs) = {i \<in> {..<h_records h}. ?P i}"
  proof -
    have "i \<in> set ?xs" if "i < h_records h" "?P i" for i
    proof -
      have "ldata (h_array h ! i) \<in># hash_rows h" using that(1) unfolding rows by (simp add: contents_def)
      then show ?thesis using buckets_mem [OF C(1), of i] that matches_home [OF compat that(2)] by simp
    qed
    then show ?thesis using buckets_home(2) [OF C(1)] by auto
  qed
  ultimately have "mset (map (\<lambda>i. ldata (h_array h ! i)) (filter ?P ?xs)) = contents {i \<in> {..<h_records h}. ?P i} (h_array h)"
    using contents_distinct [of "filter ?P ?xs" "h_array h"] by simp
  also have "\<dots> = filter_mset (key_matches h key len) (contents {..<h_records h} (h_array h))"
    by (simp add: contents_def filter_mset_image_mset filter_mset_mset_set)
  finally show ?thesis by (simp add: rows)
qed

text \<open>\<open>my_hash_next\<close> continues with the positions of the bucket that follow.\<close>

lemma my_hash_next_bucket:
  assumes path: "path (h_array h) (us @ i # vs) NO_RECORD" "NO_RECORD \<notin> set (us @ i # vs)"
  shows "my_hash_next h key len (Some i) = Some (find (\<lambda>i. key_matches h key len (ldata (h_array h ! i))) vs)"
proof -
  have "path (h_array h) vs NO_RECORD" "lnext (h_array h ! i) = (if vs = [] then NO_RECORD else hd vs)"
    using path(1) by (auto simp: path_append path_Cons)
  then show ?thesis using next_loop_path [of h vs key len] path(2) by (simp add: my_hash_next_def hashcmp_matches)
qed

text \<open>A table of two records whose keys are their low bytes, both in the first bucket.\<close>

definition byte_table :: HASH where
  "byte_table = my_hash_init2 0 (\<lambda>r. [word_of_nat r]) (\<lambda>key. if key = [] then 0 else unat (hd key)) (=) True True"

definition byte_table2 :: HASH where
  "byte_table2 = byte_table\<lparr>h_blength := 4, h_records := 2,
     h_array := [\<lparr>lnext = 1, ldata = 4\<rparr>, \<lparr>lnext = NO_RECORD, ldata = 6\<rparr>]\<rparr>"

lemma byte_table2_ok: "wf_hash byte_table2" "search_compatible byte_table2 1"
proof -
  let ?C = "(\<lambda>_ :: nat. [] :: nat list)(0 := [0, 1])" and ?a = "[\<lparr>lnext = 1, ldata = 4\<rparr>, \<lparr>lnext = NO_RECORD, ldata = 6\<rparr>]"
  have home: "home_of byte_table2 4 = 0" "home_of byte_table2 6 = 0"
    by (simp_all add: home_of_def byte_table2_def byte_table_def my_hash_init2_def rec_hashnr_def my_hash_mask_def size_dec_def)
  then have "bucket (home_of byte_table2) ?a b (?C b)" for b by (simp add: bucket_def)
  moreover have "(\<Union>b. set (?C b)) = {..<2}" by (auto simp: lessThan_Suc numeral_2_eq_2)
  ultimately have "buckets (home_of byte_table2) {..<2} ?a ?C" "heads ?C" by (auto simp: buckets_def heads_def)
  moreover have "sizes_ok 4 2" by (auto simp: sizes_ok_def intro!: exI [of _ 2])
  ultimately show "wf_hash byte_table2"
    unfolding wf_hash_def table_ok_def by (auto simp: byte_table2_def NO_RECORD_def)
  show "search_compatible byte_table2 1" by (simp add: search_compatible_def byte_table2_def byte_table_def my_hash_init2_def)
qed

text \<open>C26: The search for a key finds the records with that key, one after the other, and ends: there is a list of
  positions, holding exactly the records of the table that have the key, with the first of which
  \<open>my_hash_first\<close> starts, and along which every \<open>my_hash_next\<close> goes on, until none is left.\<close>

theorem hash_search_enumerates:
  assumes wf: "wf_hash h" and compat: "search_compatible h len"
  shows "\<exists>ps. mset (map (\<lambda>i. ldata (h_array h ! i)) ps) = filter_mset (key_matches h key len) (hash_rows h) \<and> distinct ps \<and>
    my_hash_first h key len = Some (if ps = [] then None else Some (hd ps)) \<and>
    (\<forall>j<length ps. my_hash_next h key len (Some (ps ! j)) = Some (if Suc j < length ps then Some (ps ! Suc j) else None))"
proof -
  obtain C where C: "buckets (home_of h) {..<h_records h} (h_array h) C" "heads C"
    and a: "length (h_array h) = h_records h" "h_records h \<le> NO_RECORD" using wf_hashE [OF wf] by metis
  let ?P = "\<lambda>i. key_matches h key len (ldata (h_array h ! i))" and ?xs = "C (key_home h key len)"
  have xs: "path (h_array h) ?xs NO_RECORD" "distinct ?xs" "NO_RECORD \<notin> set ?xs"
    using bucketsD [OF C(1), of "key_home h key len"] no_record_path [OF C(1)] a by (simp_all add: bucket_def)
  have "my_hash_next h key len (Some (filter ?P ?xs ! j)) =
      Some (if Suc j < length (filter ?P ?xs) then Some (filter ?P ?xs ! Suc j) else None)" if j: "j < length (filter ?P ?xs)" for j
  proof -
    obtain us vs where u: "?xs = us @ filter ?P ?xs ! j # vs" "filter ?P vs = drop (Suc j) (filter ?P ?xs)"
      using filter_split [OF j] by metis
    have "my_hash_next h key len (Some (filter ?P ?xs ! j)) = Some (find ?P vs)"
      using xs(1,3) u(1) by (intro my_hash_next_bucket [of _ us]) metis+
    then show ?thesis using find_filter [of ?P vs] u(2) hd_drop_conv_nth [of "Suc j" "filter ?P ?xs"] by (simp add: not_less)
  qed
  then show ?thesis
    using matching_positions [OF assms C, of key] my_hash_first_bucket [OF assms C, of key] find_filter [of ?P ?xs] xs(2)
    by (intro exI [of _ "filter ?P ?xs"]) auto
qed

theorem hash_search_enumerates_witness:
  "\<exists>ps. mset (map (\<lambda>i. ldata (h_array byte_table2 ! i)) ps) = {#6#} \<and> distinct ps \<and>
    my_hash_first byte_table2 [6] 1 = Some (if ps = [] then None else Some (hd ps)) \<and>
    (\<forall>j<length ps. my_hash_next byte_table2 [6] 1 (Some (ps ! j)) = Some (if Suc j < length ps then Some (ps ! Suc j) else None))"
proof -
  have "filter_mset (key_matches byte_table2 [6] 1) (hash_rows byte_table2) = {#6#}"
    by (simp add: key_matches_def hashcmp_def hash_rows_def byte_table2_def byte_table_def my_hash_init2_def)
  then show ?thesis using hash_search_enumerates [OF byte_table2_ok, of "[6]"] by simp
qed

section \<open>Sequences of insertions and deletions\<close>

text \<open>An operation of a client; the insertion with what \<open>alloc_dynamic\<close> yields.\<close>

datatype hash_op = Hash_insert "HASH_LINK option" ptr | Hash_delete ptr

text \<open>The new table, whether the operation reports an error, and the records given to the free function.\<close>

fun hash_op_step :: "hash_op \<Rightarrow> HASH \<Rightarrow> (HASH \<times> bool \<times> ptr list) option" where
  "hash_op_step (Hash_insert alloc record) h = map_option (\<lambda>(h, error). (h, error, [])) (my_hash_insert alloc h record)"
| "hash_op_step (Hash_delete record) h = my_hash_delete h record"

text \<open>The specification: a multiset of records, with at most one of a key when the table is unique.\<close>

definition same_key :: "HASH \<Rightarrow> ptr \<Rightarrow> ptr \<Rightarrow> bool" where
  "same_key h r x \<longleftrightarrow> length (h_get_key h x) = length (h_get_key h r) \<and> h_coll_eq h (h_get_key h x) (h_get_key h r)"

fun rows_op :: "HASH \<Rightarrow> hash_op \<Rightarrow> ptr multiset \<Rightarrow> ptr multiset \<times> bool \<times> ptr list" where
  "rows_op h (Hash_insert alloc record) m =
     (if (h_unique h \<and> filter_mset (same_key h record) m \<noteq> {#}) \<or> alloc = None then (m, True, [])
      else (add_mset record m, False, []))"
| "rows_op h (Hash_delete record) m =
     (if record \<in># m then (m - {#record#}, False, if h_free h then [record] else []) else (m, True, []))"

text \<open>Two tables with the same functions and the same uniqueness.\<close>

definition same_config :: "HASH \<Rightarrow> HASH \<Rightarrow> bool" where
  "same_config h h' \<longleftrightarrow> h_key_length h' = h_key_length h \<and> h_unique h' = h_unique h \<and> h_get_key h' = h_get_key h \<and>
     h_hash_function h' = h_hash_function h \<and> h_coll_eq h' = h_coll_eq h \<and> h_free h' = h_free h"

definition hash_inv :: "HASH \<Rightarrow> nat \<Rightarrow> HASH \<Rightarrow> bool" where
  "hash_inv h0 k h \<longleftrightarrow> wf_hash h \<and> same_config h0 h \<and> h_records h + k \<le> NO_RECORD"

text \<open>What a client promises: keys are not empty, and equal keys have equal hash values.\<close>

definition client_ok :: "HASH \<Rightarrow> hash_op \<Rightarrow> bool" where
  "client_ok h0 op \<longleftrightarrow> (case op of Hash_insert alloc r \<Rightarrow> h_get_key h0 r \<noteq> [] | Hash_delete r \<Rightarrow> True) \<and>
     (\<forall>x y. h_coll_eq h0 x y \<longrightarrow> h_hash_function h0 x = h_hash_function h0 y)"

lemma same_configD:
  assumes "same_config h0 h"
  shows "h_get_key h = h_get_key h0" "h_hash_function h = h_hash_function h0" "h_coll_eq h = h_coll_eq h0" "h_unique h = h_unique h0"
  using assms by (simp_all add: same_config_def)

lemma same_config_upd:
  assumes "same_config h0 h" "h' = h\<lparr>h_array := a, h_records := n, h_blength := b\<rparr>"
  shows "same_config h0 h'" "h_records h' = n"
  using assms by (simp_all add: same_config_def)

lemma matches_same_key:
  "same_config h0 h \<Longrightarrow> h_get_key h0 r \<noteq> [] \<Longrightarrow> key_matches h (h_get_key h r) (length (h_get_key h r)) = same_key h0 r"
  by (auto simp: key_matches_def hashcmp_def same_key_def Let_def same_configD fun_eq_iff)

lemma hash_op_step_spec:
  assumes "client_ok h0 op" "hash_inv h0 (Suc k) h"
  shows "\<exists>h' b. hash_op_step op h = Some (h', b) \<and> hash_inv h0 k h' \<and> rows_op h0 op (hash_rows h) = (hash_rows h', b)"
proof -
  have wf: "wf_hash h" and cfg: "same_config h0 h" and room: "h_records h < NO_RECORD" "h_records h + Suc k \<le> NO_RECORD"
    using assms(2) by (auto simp: hash_inv_def)
  have unique: "h_unique h = h_unique h0" "h_free h = h_free h0" using cfg by (simp_all add: same_config_def)
  have unchanged: "hash_inv h0 k h" using assms(2) by (simp add: hash_inv_def)
  show ?thesis
  proof (cases op)
    case (Hash_insert alloc r)
    have key: "h_get_key h0 r \<noteq> []" using assms(1) Hash_insert by (simp add: client_ok_def)
    have "search_compatible h (length (h_get_key h r))"
      using assms(1) key same_configD [OF cfg] by (simp add: search_compatible_def client_ok_def)
    note ins = my_hash_insert_ok [OF wf room(1) this, of alloc, unfolded matches_same_key [OF cfg key]]
    have dup: "(\<exists>x \<in># hash_rows h. same_key h0 r x) \<longleftrightarrow> filter_mset (same_key h0 r) (hash_rows h) \<noteq> {#}"
      using set_mset_eq_empty_iff [of "filter_mset (same_key h0 r) (hash_rows h)"] by auto
    show ?thesis
    proof (cases "(h_unique h \<and> (\<exists>x \<in># hash_rows h. same_key h0 r x)) \<or> alloc = None")
      case True
      then show ?thesis using ins Hash_insert dup unchanged unique by (intro exI [of _ h] exI [of _ "(True, [])"]) auto
    next
      case False
      then obtain h' where h': "my_hash_insert alloc h r = Some (h', False)" "wf_hash h'" "hash_rows h' = add_mset r (hash_rows h)"
        "h' = h\<lparr>h_array := h_array h', h_records := h_records h + 1, h_blength := h_blength h'\<rparr>" using ins by auto
      then show ?thesis using False dup same_config_upd [OF cfg h'(4)] Hash_insert room(2) unique by (auto simp: hash_inv_def)
    qed
  next
    case (Hash_delete r)
    show ?thesis
    proof (cases "r \<in># hash_rows h")
      case True
      then obtain h' where h': "my_hash_delete h r = Some (h', False, if h_free h then [r] else [])" "wf_hash h'"
        "hash_rows h' = hash_rows h - {#r#}"
        "h' = h\<lparr>h_array := h_array h', h_records := h_records h - 1, h_blength := h_blength h'\<rparr>" using my_hash_delete_ok [OF wf, of r] by auto
      then show ?thesis using True same_config_upd [OF cfg h'(4)] Hash_delete room(2) unique by (auto simp: hash_inv_def)
    next
      case False
      then show ?thesis using my_hash_delete_ok [OF wf, of r] Hash_delete unchanged
        by (intro exI [of _ h] exI [of _ "(True, [])"]) simp
    qed
  qed
qed

interpretation hash_ops: step_refinement "client_ok h0" "hash_inv h0" hash_rows hash_op_step "rows_op h0" for h0
  by unfold_locales (rule hash_op_step_spec)

text \<open>C25: Every sequence of insertions and deletions on a fresh hash table, as long as the number of records fits, is
  carried out to the end, reports for every operation what a multiset of records reports, frees the same
  records, and leaves a well-formed table with the records of that multiset: an insertion fails when the table
  is unique and has a record of that key, or when there is no memory, and a deletion fails when the record is
  not there; the failing operation changes nothing.\<close>

theorem hash_refines_multiset:
  assumes "h0 = my_hash_init2 kl gk hf ce fr u" "list_all (client_ok h0) ops" "length ops \<le> NO_RECORD"
  shows "\<exists>h reports. run_all hash_op_step ops h0 = Some (h, reports) \<and> wf_hash h \<and>
    spec_all (rows_op h0) ops {#} = (hash_rows h, reports)"
proof -
  have wf: "wf_hash h0" "hash_rows h0 = {#}" using my_hash_init2_wf assms(1) by auto
  have "h_records h0 = 0" using assms(1) by (simp add: my_hash_init2_def)
  then have "hash_inv h0 (length ops + 0) h0" using wf(1) assms(3) by (simp add: hash_inv_def same_config_def)
  from hash_ops.run_spec [OF assms(2) this] wf(2) show ?thesis by (auto simp: hash_inv_def)
qed

theorem hash_refines_multiset_witness:
  "\<exists>h. run_all hash_op_step [Hash_insert (Some \<lparr>lnext = 9, ldata = 9\<rparr>) 5, Hash_insert (Some \<lparr>lnext = 0, ldata = 0\<rparr>) 7,
      Hash_insert (Some \<lparr>lnext = 0, ldata = 0\<rparr>) 261, Hash_insert None 8, Hash_delete 5, Hash_delete 5] byte_table =
    Some (h, [(False, []), (False, []), (True, []), (True, []), (False, [5]), (True, [])]) \<and> wf_hash h \<and> hash_rows h = {#7#}"
proof -
  let ?ops = "[Hash_insert (Some \<lparr>lnext = 9, ldata = 9\<rparr>) 5, Hash_insert (Some \<lparr>lnext = 0, ldata = 0\<rparr>) 7,
      Hash_insert (Some \<lparr>lnext = 0, ldata = 0\<rparr>) 261, Hash_insert None 8, Hash_delete 5, Hash_delete 5]"
  have "list_all (client_ok byte_table) ?ops" "length ?ops \<le> NO_RECORD"
    by (simp_all add: client_ok_def byte_table_def my_hash_init2_def NO_RECORD_def)
  from hash_refines_multiset [OF byte_table_def this] obtain h reports where
    h: "run_all hash_op_step ?ops byte_table = Some (h, reports)" "wf_hash h" "spec_all (rows_op byte_table) ?ops {#} = (hash_rows h, reports)"
    by blast
  have "spec_all (rows_op byte_table) ?ops {#} =
      ({#7#}, [(False, []), (False, []), (True, []), (True, []), (False, [5]), (True, [])])"
    by (simp add: byte_table_def my_hash_init2_def same_key_def ex_disj_distrib conj_disj_distribR)
  then have "hash_rows h = {#7#}" "reports = [(False, []), (False, []), (True, []), (True, []), (False, [5]), (True, [])]"
    unfolding h(3) prod.inject by blast+
  then show ?thesis using h(1,2) by blast
qed

end
