(* ===== verification/Hash_Update.thy ===== *)
theory Hash_Update
  imports Hash_Ops
begin

unbundle bit_operations_syntax

text \<open>
  The change of a record's key: the table is well-formed but for one record, which is still in the bucket of
  its old key.
\<close>

section \<open>The check for another record with the key\<close>

lemma other_with_key_path:
  assumes "path (h_array h) zs NO_RECORD" "NO_RECORD \<notin> set zs"
  shows "other_with_key h key record (find (\<lambda>i. key_matches h key (length key) (ldata (h_array h ! i))) zs) =
    Some (\<exists>i \<in> set zs. key_matches h key (length key) (ldata (h_array h ! i)) \<and> ldata (h_array h ! i) \<noteq> record)"
  using assms
proof (induction zs)
  case Nil
  then show ?case by (simp add: other_with_key.simps)
next
  case (Cons z zs)
  then have IH: "other_with_key h key record (find (\<lambda>i. key_matches h key (length key) (ldata (h_array h ! i))) zs) =
    Some (\<exists>i \<in> set zs. key_matches h key (length key) (ldata (h_array h ! i)) \<and> ldata (h_array h ! i) \<noteq> record)"
    by (simp add: path_Cons)
  have nx: "my_hash_next h key (length key) (Some z) = Some (find (\<lambda>i. key_matches h key (length key) (ldata (h_array h ! i))) zs)"
    using Cons.prems by (intro my_hash_next_bucket [of _ "[]"]) simp_all
  show ?case
  proof (cases "key_matches h key (length key) (ldata (h_array h ! z))")
    case True
    then have "other_with_key h key record (find (\<lambda>i. key_matches h key (length key) (ldata (h_array h ! i))) (z # zs)) =
      (if ldata (h_array h ! z) \<noteq> record then Some True else other_with_key h key record (find (\<lambda>i. key_matches h key (length key) (ldata (h_array h ! i))) zs))"
      using other_with_key.simps [of h key "record" "Some z"] by (simp add: nx)
    then show ?thesis using True IH by auto
  qed (use IH in auto)
qed

text \<open>All records but one are in the buckets of their keys; that one is in the bucket \<open>old\<close>.\<close>

definition old_home :: "HASH \<Rightarrow> ptr \<Rightarrow> nat \<Rightarrow> ptr \<Rightarrow> nat" where
  "old_home h record old r = (if r = record then old else home_of h r)"

lemma key_home_record: "key_home h (h_get_key h record) (length (h_get_key h record)) = home_of h record"
  by (simp add: key_home_def home_of_def rec_hashnr_def)

lemma first_other_with_key:
  assumes C: "buckets (old_home h record old) {..<h_records h} (h_array h) C" "heads C"
    and a: "length (h_array h) = h_records h" "h_records h \<le> NO_RECORD" and sz: "sizes_ok (h_blength h) (h_records h)" "0 < h_records h"
    and key: "key = h_get_key h record" and compat: "search_compatible h (length key)"
  shows "Option.bind (my_hash_first h key (length key)) (other_with_key h key record) =
    Some (\<exists>x \<in># hash_rows h. key_matches h key (length key) x \<and> x \<noteq> record)"
proof -
  let ?P = "\<lambda>i. key_matches h key (length key) (ldata (h_array h ! i))" and ?b = "home_of h record" and ?old = "old_home h record old"
  have kh: "key_home h key (length key) = ?b" using key_home_record key by simp
  have b: "?b < h_records h" using my_hash_mask_less [OF sz] by (simp add: home_of_def)
  then have bS: "?b \<in> {..<h_records h}" by simp
  have row: "ldata (h_array h ! i) \<in># hash_rows h" if "i < h_records h" for i using that a(1) by (simp add: hash_rows_def)
  have home: "home_of h (ldata (h_array h ! i)) = ?b" if "i < h_records h" "?P i" for i
    using matches_home [OF compat that(2) row [OF that(1)]] kh by simp
  have first: "my_hash_first h key (length key) = first_loop h key (length key) ?b True"
    using sz kh by (auto simp: my_hash_first_def my_hash_first_from_hash_value_def my_hash_inited_def sizes_ok_def key_home_def)
  have pth: "path (h_array h) (C g) NO_RECORD" "NO_RECORD \<notin> set (C g)" for g
    using bucketsD [OF C(1), of g] no_record_path [OF C(1)] a by (simp_all add: bucket_def)
  have others: "(\<exists>x \<in># hash_rows h. key_matches h key (length key) x \<and> x \<noteq> record) \<longleftrightarrow>
      (\<exists>i<h_records h. ?P i \<and> ldata (h_array h ! i) \<noteq> record)"
    using a(1) by (auto simp: hash_rows_def in_set_conv_nth Bex_def)
  have inC: "i \<in> set (C ?b)" if "i < h_records h" "?P i" "ldata (h_array h ! i) \<noteq> record" for i
    using buckets_mem [OF C(1), of i] home that by (simp add: old_home_def)
  have "\<exists>zs. path (h_array h) zs NO_RECORD \<and> NO_RECORD \<notin> set zs \<and> first_loop h key (length key) ?b True = Some (find ?P zs) \<and>
      (\<exists>i \<in> set zs. ?P i \<and> ldata (h_array h ! i) \<noteq> record) = (\<exists>i<h_records h. ?P i \<and> ldata (h_array h ! i) \<noteq> record)"
  proof (cases "C ?b = []")
    case False
    note ho = head_occupied [OF C False]
    have "hd (C ?b) = ?b" using C(2) False by (simp add: heads_def)
    moreover have "home_of h (ldata (h_array h ! ?b)) = ?b" using ho(3) by (auto simp: old_home_def split: if_splits)
    ultimately have "first_loop h key (length key) ?b True = Some (find ?P (C ?b))"
      using first_loop_path [OF pth False, of True key "length key"] by (simp add: hashcmp_matches)
    moreover have "(\<exists>i \<in> set (C ?b). ?P i \<and> ldata (h_array h ! i) \<noteq> record) = (\<exists>i<h_records h. ?P i \<and> ldata (h_array h ! i) \<noteq> record)"
      using inC buckets_home(2) [OF C(1), of _ ?b] by blast
    ultimately show ?thesis using pth by blast
  next
    case True
    then have none: "\<not> (\<exists>i<h_records h. ?P i \<and> ldata (h_array h ! i) \<noteq> record)" using inC by auto
    define g where "g = ?old (ldata (h_array h ! ?b))"
    have gb: "g \<noteq> ?b" using buckets_mem [OF C(1) bS] True by (auto simp: g_def)
    obtain xs ys where ys: "C g = xs @ ?b # ys" using intruder [OF C bS g_def [symmetric] gb] by metis
    have p: "path (h_array h) (?b # ys) NO_RECORD" "NO_RECORD \<notin> set (?b # ys)"
      using pth [of g] ys path_append [of "h_array h" xs "?b # ys" NO_RECORD] by auto
    show ?thesis
    proof (cases "ldata (h_array h ! ?b) = record")
      case True
      then have "first_loop h key (length key) ?b True = Some (find ?P (?b # ys))"
        using first_loop_path [OF p, of True key "length key"] by (simp add: hashcmp_matches)
      moreover have "set (?b # ys) \<subseteq> {..<h_records h}" using buckets_home(2) [OF C(1), of _ g] ys by auto
      then have "\<not> (\<exists>i \<in> set (?b # ys). ?P i \<and> ldata (h_array h ! i) \<noteq> record)" using none by blast
      ultimately show ?thesis using p none by blast
    next
      case False
      then have "home_of h (ldata (h_array h ! ?b)) \<noteq> ?b" using gb by (simp add: g_def old_home_def)
      then have "first_loop h key (length key) ?b True = Some None"
        using home [OF b] b a by (subst first_loop_next) (auto simp: hashcmp_matches)
      then show ?thesis using none by (intro exI [of _ "[]"]) auto
    qed
  qed
  then show ?thesis using other_with_key_path [of h _ key "record"] unfolding first others by fastforce
qed

section \<open>Moving the record to its new bucket\<close>

lemma update_place:
  assumes T: "table_ok home S a" and e: "e \<notin> S" "e < length a" and b: "home r = b" "b = e \<or> b \<in> S"
    and org: "ldata org = r"
  shows "\<exists>a'. (if b = e then Some (a[e := \<lparr>lnext = NO_RECORD, ldata = r\<rparr>])
      else if b \<noteq> home (ldata (a ! b))
      then map_option (\<lambda>data. data[b := org\<lparr>lnext := NO_RECORD\<rparr>]) (movelink (a[e := a ! b]) b (home (ldata (a ! b))) e)
      else Some (a[e := org\<lparr>lnext := lnext (a ! b)\<rparr>, b := (a ! b)\<lparr>lnext := e\<rparr>])) = Some a' \<and>
    length a' = length a \<and> table_ok home (insert e S) a' \<and> contents (insert e S) a' = add_mset r (contents S a)"
proof -
  obtain C where C: "buckets home S a C" "heads C" using T by (auto simp: table_ok_def)
  have eta: "org\<lparr>lnext := k\<rparr> = \<lparr>lnext = k, ldata = r\<rparr>" "l\<lparr>lnext := k\<rparr> = \<lparr>lnext = k, ldata = ldata l\<rparr>" for k and l :: HASH_LINK
    using org by simp_all
  consider "b = e" | "b \<noteq> e" "b \<in> S" "home (ldata (a ! b)) = b" | "b \<noteq> e" "b \<in> S" "home (ldata (a ! b)) \<noteq> b" using b(2) by blast
  then show ?thesis
  proof cases
    case 1
    have "C e = []" using bucket_empty [OF C] e(1) by simp
    then show ?thesis
      using put_alone [OF C(1) e _ , of r] heads_upd [OF C(2), of "[e]" e] 1 b(1) unfolding table_ok_def by auto
  next
    case 2
    show ?thesis using push_front [OF C e 2(2,3) b(1) refl, of r "ldata (a ! b)"] 2 by (simp add: eta org)
  next
    case 3
    obtain a1 where a1: "\<And>X. movelink (a[e := a ! b, b := X]) b (home (ldata (a ! b))) e = Some (a1[b := X])" "length a1 = length a"
      "table_ok home (insert e S) (a1[b := \<lparr>lnext = NO_RECORD, ldata = r\<rparr>])"
      "contents (insert e S) (a1[b := \<lparr>lnext = NO_RECORD, ldata = r\<rparr>]) = add_mset r (contents S a)"
      using displace [OF C e 3(2) refl 3(3) b(1)] by blast
    have "a[e := a ! b, b := a ! b] = a[e := a ! b]" using 3(1) by (metis list_update_id nth_list_update_neq)
    then show ?thesis using a1(1) [of "a ! b"] a1(2-4) 3 by (simp add: eta org)
  qed
qed

lemma update_move_unlink:
  assumes "delete_unlink data p previous = (data', hole)" "p < length data" "hole < length data" "previous \<noteq> Some p"
    and "lnext (data ! p) \<noteq> p"
  shows "update_move h data p previous b =
    (if b = hole then Some (data'[hole := \<lparr>lnext = NO_RECORD, ldata = ldata (data ! p)\<rparr>])
     else if b \<noteq> my_hash_rec_mask h (data' ! b) (h_blength h) (h_records h)
     then map_option (\<lambda>d. d[b := (data ! p)\<lparr>lnext := NO_RECORD\<rparr>])
       (movelink (data'[hole := data' ! b]) b (my_hash_rec_mask h (data' ! b) (h_blength h) (h_records h)) hole)
     else Some (data'[hole := (data ! p)\<lparr>lnext := lnext (data' ! b)\<rparr>, b := (data' ! b)\<lparr>lnext := hole\<rparr>]))"
proof -
  have unlink: "(case previous of
        None \<Rightarrow> if lnext (data ! p) \<noteq> NO_RECORD then (data[p := data ! lnext (data ! p)], lnext (data ! p)) else (data, p)
      | Some q \<Rightarrow> (data[q := (data ! q)\<lparr>lnext := lnext (data ! p)\<rparr>], p)) = (data', hole)"
    using assms(1) by (cases previous) (auto simp: delete_unlink_def)
  have len: "length data' = length data" using assms(1) by (auto simp: delete_unlink_def split: option.splits if_splits)
  have same: "data' ! p = data ! p" if "hole = p"
    using assms(1,4,5) that by (auto simp: delete_unlink_def split: option.splits if_splits)
  have eta: "l\<lparr>lnext := k\<rparr> = \<lparr>lnext = k, ldata = ldata l\<rparr>" for k and l :: HASH_LINK by simp
  show ?thesis
    unfolding update_move_def Let_def unlink prod.case using assms(3) len same
    by (cases "b = hole"; cases "hole = p") (simp_all add: eta)
qed

lemma table_ok_cong:
  assumes "table_ok home S a" "\<And>i. i \<in> S \<Longrightarrow> home' (ldata (a ! i)) = home (ldata (a ! i))"
  shows "table_ok home' S a"
proof -
  obtain C where C: "buckets home S a C" "heads C" using assms(1) by (auto simp: table_ok_def)
  have "bucket home' a b (C b)" for b
    using buckets_home(1,2) [OF C(1)] assms(2) by (intro bucket_cong [OF bucketsD [OF C(1)]]) auto
  then show ?thesis using C unfolding table_ok_def buckets_def by blast
qed

lemma update_move_ok:
  assumes C: "buckets (old_home h record old) {..<h_records h} (h_array h) C" "heads C"
    and a: "length (h_array h) = h_records h" "h_records h \<le> NO_RECORD" and b: "home_of h record < h_records h"
    and p: "C old = xs @ p # ys" "ldata (h_array h ! p) = record" and once: "count (hash_rows h) record = 1"
  shows "\<exists>a'. update_move h (h_array h) p (if xs = [] then None else Some (last xs)) (home_of h record) = Some a' \<and>
    length a' = h_records h \<and> table_ok (home_of h) {..<h_records h} a' \<and> contents {..<h_records h} a' = hash_rows h"
proof -
  let ?n = "h_records h" and ?prev = "if xs = [] then None else Some (last xs)"
  have no: "NO_RECORD \<notin> set (C g)" for g using no_record_path [OF C(1)] a by simp
  have rows: "contents {..<?n} (h_array h) = hash_rows h" using contents_all [of "h_array h"] a(1) by (simp add: hash_rows_def)
  obtain a1 e where u: "delete_unlink (h_array h) p ?prev = (a1, e)" "e \<in> {..<?n}" "length a1 = ?n"
    "table_ok (old_home h record old) ({..<?n} - {e}) a1" "hash_rows h = add_mset record (contents ({..<?n} - {e}) a1)"
    using delete_unlink_ok [OF C p(1) no refl] p(2) a(1) rows by auto
  have "record \<notin># contents ({..<?n} - {e}) a1" using once u(5) by (simp add: count_eq_zero_iff)
  then have "ldata (a1 ! i) \<noteq> record" if "i \<in> {..<?n} - {e}" for i using that by (auto simp: contents_def)
  then have T: "table_ok (home_of h) ({..<?n} - {e}) a1" by (intro table_ok_cong [OF u(4)]) (simp add: old_home_def)
  have bk: "distinct (xs @ p # ys)" "path (h_array h) (xs @ p # ys) NO_RECORD" "set (xs @ p # ys) \<subseteq> {..<?n}"
    using bucketsD [OF C(1), of old] buckets_home(2) [OF C(1), of _ old] p(1) by (auto simp: bucket_def)
  have "?prev \<noteq> Some p" using bk(1) last_in_set [of xs] by auto
  moreover have "lnext (h_array h ! p) = (if ys = [] then NO_RECORD else hd ys)" using bk(2) by (simp add: path_append path_Cons)
  then have "lnext (h_array h ! p) \<noteq> p" using bk(1,3) a(2) hd_in_set [of ys] by (auto split: if_splits)
  ultimately have code: "update_move h (h_array h) p ?prev (home_of h record) =
     (if home_of h record = e then Some (a1[e := \<lparr>lnext = NO_RECORD, ldata = record\<rparr>])
      else if home_of h record \<noteq> home_of h (ldata (a1 ! home_of h record))
      then map_option (\<lambda>d. d[home_of h record := (h_array h ! p)\<lparr>lnext := NO_RECORD\<rparr>])
        (movelink (a1[e := a1 ! home_of h record]) (home_of h record) (home_of h (ldata (a1 ! home_of h record))) e)
      else Some (a1[e := (h_array h ! p)\<lparr>lnext := lnext (a1 ! home_of h record)\<rparr>, home_of h record := (a1 ! home_of h record)\<lparr>lnext := e\<rparr>]))"
    using update_move_unlink [OF u(1), of h "home_of h record"] bk(3) u(2) a(1) p(2) by (simp add: rec_mask_home)
  have "insert e ({..<?n} - {e}) = {..<?n}" using u(2) by auto
  moreover have "e \<notin> {..<?n} - {e}" "e < length a1" "home_of h record = e \<or> home_of h record \<in> {..<?n} - {e}"
    using u(2,3) b by auto
  ultimately show ?thesis
    using update_place [OF T _ _ refl _ p(2)] unfolding code by (simp add: u(3,5))
qed

lemma update_without_duplicate:
  assumes C: "buckets (old_home h record old) {..<h_records h} (h_array h) C" "heads C"
    and a: "length (h_array h) = h_records h" "h_records h \<le> NO_RECORD" and sz: "sizes_ok (h_blength h) (h_records h)"
    and lt: "home_of h record < h_records h" "old < h_records h"
    and once: "record \<in># hash_rows h" "count (hash_rows h) record = 1"
  shows "\<exists>a'. (if old = home_of h record then Some (h, False) else
      (case delete_search (h_array h) record old None of None \<Rightarrow> None | Some None \<Rightarrow> Some (h, True)
       | Some (Some (pos, previous)) \<Rightarrow>
           map_option (\<lambda>data. (h\<lparr>h_array := data\<rparr>, False)) (update_move h (h_array h) pos previous (home_of h record)))) =
      Some (h\<lparr>h_array := a'\<rparr>, False) \<and> wf_hash (h\<lparr>h_array := a'\<rparr>) \<and> hash_rows (h\<lparr>h_array := a'\<rparr>) = hash_rows h"
proof -
  let ?n = "h_records h" and ?new = "home_of h record"
  have wf': "wf_hash (h\<lparr>h_array := a'\<rparr>) \<and> hash_rows (h\<lparr>h_array := a'\<rparr>) = hash_rows h"
    if "length a' = ?n" "table_ok (home_of h) {..<?n} a'" "contents {..<?n} a' = hash_rows h" for a'
  proof -
    have "home_of (h\<lparr>h_array := a'\<rparr>) = home_of h" by (simp add: home_of_def rec_hashnr_def fun_eq_iff)
    then have w: "wf_hash (h\<lparr>h_array := a'\<rparr>)" using that a sz by (simp add: wf_hash_def)
    then show ?thesis using hash_rows_contents [OF w] that(3) by simp
  qed
  show ?thesis
  proof (cases "old = ?new")
    case True
    then have "old_home h record old = home_of h" by (auto simp: old_home_def)
    then have "wf_hash (h\<lparr>h_array := h_array h\<rparr>) \<and> hash_rows (h\<lparr>h_array := h_array h\<rparr>) = hash_rows h"
      using C a contents_all [of "h_array h"] by (intro wf') (auto simp: table_ok_def hash_rows_def)
    then show ?thesis using True by (intro exI [of _ "h_array h"]) simp
  next
    case False
    have no: "NO_RECORD \<notin> set (C g)" for g using no_record_path [OF C(1)] a by simp
    have "old_home h record old record = old" by (simp add: old_home_def)
    moreover have "record \<in> (\<lambda>i. ldata (h_array h ! i)) ` {..<?n}" using once(1) a(1) by (auto simp: hash_rows_def in_set_conv_nth)
    ultimately obtain xs p ys where p: "C old = xs @ p # ys" "ldata (h_array h ! p) = record"
      "delete_search (h_array h) record old None = Some (Some (p, if xs = [] then None else Some (last xs)))"
      using delete_search_bucket [OF C no, of "record"] lt by auto
    obtain a' where "update_move h (h_array h) p (if xs = [] then None else Some (last xs)) ?new = Some a'"
      "length a' = ?n" "table_ok (home_of h) {..<?n} a'" "contents {..<?n} a' = hash_rows h"
      using update_move_ok [OF C a lt(1) p(1,2) once(2)] by auto
    then show ?thesis using False p(3) wf' by (intro exI [of _ a']) simp
  qed
qed

text \<open>C27: The key of one record of a well-formed table has changed, and \<open>my_hash_update\<close> is called with the old
  key: when the table is unique and another record has the new key, an error is reported and nothing is changed;
  otherwise the same records are afterwards in a table that is well-formed for the new keys.\<close>

theorem hash_update_rehashes:
  assumes wf: "wf_hash h0" and h: "h = h0\<lparr>h_get_key := gk\<rparr>" and others: "\<forall>r. r \<noteq> record \<longrightarrow> gk r = h_get_key h0 r"
    and old: "take (if old_len \<noteq> 0 then old_len else h_key_length h0) old_key = h_get_key h0 record"
    and once: "count (hash_rows h0) record = 1" and compat: "search_compatible h (length (gk record))"
  shows "if h_unique h \<and> (\<exists>x \<in># hash_rows h. key_matches h (gk record) (length (gk record)) x \<and> x \<noteq> record)
    then my_hash_update h record old_key old_len = Some (h, True)
    else \<exists>a'. my_hash_update h record old_key old_len = Some (h\<lparr>h_array := a'\<rparr>, False) \<and>
      wf_hash (h\<lparr>h_array := a'\<rparr>) \<and> hash_rows (h\<lparr>h_array := a'\<rparr>) = hash_rows h"
proof -
  let ?n = "h_records h" and ?old = "home_of h0 record" and ?new = "home_of h record"
  have rows: "hash_rows h = hash_rows h0" using h by (simp add: hash_rows_def)
  obtain C where C0: "buckets (home_of h0) {..<?n} (h_array h) C" and hd: "heads C"
    and a: "length (h_array h) = ?n" "?n \<le> NO_RECORD" and sz: "sizes_ok (h_blength h) ?n"
    using wf_hashE [OF wf] h by (metis HASH.select_convs(2,3,5) HASH.surjective HASH.update_convs(6))
  have "old_home h record ?old = home_of h0"
    using others h by (auto simp: old_home_def home_of_def rec_hashnr_def fun_eq_iff)
  with C0 have C: "buckets (old_home h record ?old) {..<?n} (h_array h) C" by simp
  have rec: "record \<in># hash_rows h" using once rows by (metis count_eq_zero_iff zero_neq_one)
  then have n: "0 < ?n" using a(1) by (cases "h_array h") (auto simp: hash_rows_def)
  have lt: "?new < ?n" "?old < ?n" using my_hash_mask_less [OF sz n] h by (simp_all add: home_of_def)
  have key: "gk record = h_get_key h record" using h by simp
  note dup = first_other_with_key [OF C hd a sz n key compat]
  have idx: "my_hash_mask (h_hash_function h (take (if old_len \<noteq> 0 then old_len else h_key_length h) old_key)) (h_blength h) ?n = ?old"
    using old h by (cases "old_len = 0") (simp_all add: home_of_def rec_hashnr_def)
  note rest = update_without_duplicate [OF C hd a sz lt rec once [folded rows]]
  have new: "my_hash_mask (rec_hashnr h record) (h_blength h) ?n = ?new" by (simp add: home_of_def)
  define D where "D = (\<exists>x \<in># hash_rows h. key_matches h (gk record) (length (gk record)) x \<and> x \<noteq> record)"
  have "my_hash_update h record old_key old_len = (if h_unique h \<and> D then Some (h, True) else if ?old = ?new then Some (h, False) else
      (case delete_search (h_array h) record ?old None of None \<Rightarrow> None | Some None \<Rightarrow> Some (h, True)
       | Some (Some (pos, previous)) \<Rightarrow> map_option (\<lambda>data. (h\<lparr>h_array := data\<rparr>, False)) (update_move h (h_array h) pos previous ?new)))"
    using dup unfolding my_hash_update_def Let_def idx new key [symmetric] D_def [symmetric] by (cases "h_unique h"; cases D) simp_all
  then show ?thesis using rest unfolding D_def [symmetric] by simp
qed

text \<open>In the table of two records the key of the second changes, and it moves to the other bucket.\<close>

theorem hash_update_rehashes_witness:
  "\<exists>a'. my_hash_update (byte_table2\<lparr>h_get_key := \<lambda>r. if r = 6 then [5] else [word_of_nat r]\<rparr>) 6 [6] 1 =
      Some (byte_table2\<lparr>h_get_key := \<lambda>r. if r = 6 then [5] else [word_of_nat r], h_array := a'\<rparr>, False) \<and>
    wf_hash (byte_table2\<lparr>h_get_key := \<lambda>r. if r = 6 then [5] else [word_of_nat r], h_array := a'\<rparr>)"
proof -
  let ?gk = "\<lambda>r. if r = 6 then [5] else [word_of_nat r] :: byte list" and ?h = "byte_table2\<lparr>h_get_key := \<lambda>r. if r = 6 then [5] else [word_of_nat r]\<rparr>"
  note d = byte_table2_def byte_table_def my_hash_init2_def
  have "\<forall>r. r \<noteq> 6 \<longrightarrow> ?gk r = h_get_key byte_table2 r" "take (if (1 :: nat) \<noteq> 0 then 1 else h_key_length byte_table2) [6] = h_get_key byte_table2 6"
    "count (hash_rows byte_table2) 6 = 1" "search_compatible ?h (length (?gk 6))"
    by (simp_all add: d hash_rows_def search_compatible_def)
  note upd = hash_update_rehashes [OF byte_table2_ok(1) refl this]
  have "\<not> (h_unique ?h \<and> (\<exists>x \<in># hash_rows ?h. key_matches ?h (?gk 6) (length (?gk 6)) x \<and> x \<noteq> 6))"
    by (simp add: d hash_rows_def key_matches_def hashcmp_def)
  from upd [unfolded if_not_P [OF this]] show ?thesis by blast
qed

end
