(* ===== verification/Hash_Check.thy ===== *)
theory Hash_Check
  imports Hash_Update
begin

text \<open>
  The consistency check of the debug build (\<open>my_hash_check\<close>) accepts the well-formed tables and no others; on
  a damaged table it may run forever.
\<close>

section \<open>Paths are determined by their start\<close>

lemma path_unique:
  assumes "path a xs NO_RECORD" "path a ys NO_RECORD" "xs \<noteq> []" "ys \<noteq> []" "hd xs = hd ys"
    and "NO_RECORD \<notin> set xs" "NO_RECORD \<notin> set ys"
  shows "xs = ys"
  using assms
proof (induction xs arbitrary: ys)
  case (Cons x xs)
  obtain zs where ys: "ys = x # zs" using Cons.prems(4,5) by (cases ys) auto
  have eq: "(if xs = [] then NO_RECORD else hd xs) = (if zs = [] then NO_RECORD else hd zs)"
    using Cons.prems(1,2) by (simp add: ys path_Cons)
  have "xs = zs"
  proof (cases "xs = [] \<or> zs = []")
    case True
    then show ?thesis using eq Cons.prems(6,7) by (metis hd_in_set list.set_intros(2) ys)
  next
    case False
    then show ?thesis using Cons.prems eq by (intro Cons.IH) (auto simp: ys path_Cons)
  qed
  then show ?case by (simp add: ys)
qed simp

lemma path_distinct:
  assumes "path a zs NO_RECORD" "NO_RECORD \<notin> set zs"
  shows "distinct zs"
  using assms
proof (induction zs)
  case (Cons z zs)
  have "z \<notin> set zs"
  proof
    assume "z \<in> set zs"
    then obtain us vs where uv: "zs = us @ z # vs" by (meson split_list)
    have "path a (z # vs) NO_RECORD" using Cons.prems(1) by (simp add: uv path_append path_Cons)
    then have "z # vs = z # zs" using Cons.prems uv by (intro path_unique [of a]) auto
    then show False using uv by simp
  qed
  then show ?case using Cons by (simp add: path_Cons)
qed simp

section \<open>Well-formed tables are accepted\<close>

lemma check_links_path:
  assumes "path (h_array h) zs NO_RECORD" "NO_RECORD \<notin> set zs" "\<And>i. i \<in> set zs \<Longrightarrow> i < h_records h \<and> home_of h (ldata (h_array h ! i)) = b"
    and "found + length zs \<le> h_records h"
  shows "check_links h b (if zs = [] then NO_RECORD else hd zs) found err = Some (found + length zs, err)"
  using assms
proof (induction zs arbitrary: found)
  case Nil
  then show ?case by (simp add: check_links.simps)
next
  case (Cons z zs)
  have "check_links h b z found err = check_links h b (lnext (h_array h ! z)) (found + 1) err"
    using Cons.prems(2-4) Cons.prems(3) [of z] by (subst check_links.simps) (simp add: rec_mask_home Let_def linorder_not_le [symmetric])
  also have "lnext (h_array h ! z) = (if zs = [] then NO_RECORD else hd zs)" using Cons.prems(1) by (simp add: path_Cons)
  also have "check_links h b \<dots> (found + 1) err = Some (found + 1 + length zs, err)"
    using Cons.prems by (intro Cons.IH) (simp_all add: path_Cons)
  finally show ?case by simp
qed

lemma check_from_buckets:
  assumes C: "buckets (home_of h) {..<h_records h} (h_array h) C" "heads C" and a: "length (h_array h) = h_records h" "h_records h \<le> NO_RECORD"
    and js: "set js \<subseteq> {..<h_records h}" "found + sum_list (map (\<lambda>j. length (C j)) js) \<le> h_records h"
  shows "check_from h js found err = Some (found + sum_list (map (\<lambda>j. length (C j)) js), err)"
  using js
proof (induction js arbitrary: found)
  case (Cons j js)
  have IH: "check_from h js (found + length (C j)) err = Some (found + length (C j) + sum_list (map (\<lambda>j. length (C j)) js), err)"
    using Cons.prems by (intro Cons.IH) auto
  show ?case
  proof (cases "C j = []")
    case True
    then have "home_of h (ldata (h_array h ! j)) \<noteq> j" using buckets_mem [OF C(1), of j] Cons.prems(1) by auto
    then show ?thesis using IH True by (simp add: rec_mask_home)
  next
    case False
    obtain zs where zs: "C j = j # zs" using head_occupied(4) [OF C False] by blast
    have "path (h_array h) (j # zs) NO_RECORD" using bucketsD [OF C(1), of j] zs by (simp add: bucket_def)
    then have p: "path (h_array h) zs NO_RECORD" "lnext (h_array h ! j) = (if zs = [] then NO_RECORD else hd zs)" by (simp_all add: path_Cons)
    have "check_links h j (lnext (h_array h ! j)) (found + 1) err = Some (found + 1 + length zs, err)"
      unfolding p(2) using p(1) no_record_path [OF C(1), of j] a zs buckets_home(1,2) [OF C(1), of _ j] Cons.prems(2)
      by (intro check_links_path) auto
    moreover have "home_of h (ldata (h_array h ! j)) = j" using head_occupied(3) [OF C False] .
    ultimately show ?thesis using IH zs by (simp add: rec_mask_home)
  qed
qed simp

lemma bucket_sizes:
  assumes C: "buckets home {..<n} a C" and home: "\<And>r. home r < n"
  shows "sum_list (map (\<lambda>j. length (C j)) [0..<n]) = n"
proof -
  have d: "distinct (C b)" for b using bucketsD [OF C, of b] by (simp add: bucket_def)
  have "b < n" if "i \<in> set (C b)" for i b using buckets_home(1) [OF C that] home by metis
  then have "(\<Union>b. set (C b)) = (\<Union>b\<in>{..<n}. set (C b))" by blast
  moreover have "(\<Union>b. set (C b)) = {..<n}" using C by (simp add: buckets_def)
  ultimately have "{..<n} = (\<Union>b\<in>{..<n}. set (C b))" by simp
  then have "n = card (\<Union>b\<in>{..<n}. set (C b))" by (metis card_lessThan)
  also have "\<dots> = (\<Sum>b<n. card (set (C b)))" using buckets_disjoint [OF C] by (intro card_UN_disjoint) blast+
  also have "\<dots> = (\<Sum>b<n. length (C b))" using d by (simp add: distinct_card)
  also have "\<dots> = sum_list (map (\<lambda>j. length (C j)) [0..<n])" by (simp add: sum_list_distinct_conv_sum_set atLeast0LessThan)
  finally show ?thesis by simp
qed

lemma check_accepts:
  assumes wf: "wf_hash h"
  shows "my_hash_check h = Some False"
proof (cases "h_records h = 0")
  case False
  obtain C where C: "buckets (home_of h) {..<h_records h} (h_array h) C" "heads C"
    and a: "length (h_array h) = h_records h" "h_records h \<le> NO_RECORD" and sz: "sizes_ok (h_blength h) (h_records h)"
    using wf_hashE [OF wf] by metis
  have "home_of h r < h_records h" for r using my_hash_mask_less [OF sz] False by (simp add: home_of_def)
  note sizes = bucket_sizes [OF C(1) this]
  have "check_from h [0..<h_records h] 0 False = Some (h_records h, False)"
    using check_from_buckets [OF C a, of "[0..<h_records h]" 0 False] sizes by (simp add: atLeast0LessThan)
  then show ?thesis by (simp add: my_hash_check_def)
qed (simp add: my_hash_check_def)

section \<open>Accepted tables are well-formed\<close>

text \<open>What the loop over the links has seen when it ends without an error.\<close>

definition chain_seen :: "HASH \<Rightarrow> nat \<Rightarrow> nat \<Rightarrow> nat \<Rightarrow> bool \<Rightarrow> nat \<times> bool \<Rightarrow> bool" where
  "chain_seen h b idx found err y \<longleftrightarrow> (snd y \<or> h_records h < fst y \<or> (\<not> err \<and>
     (\<exists>zs. idx = (if zs = [] then NO_RECORD else hd zs) \<and> path (h_array h) zs NO_RECORD \<and> NO_RECORD \<notin> set zs \<and>
       (\<forall>i \<in> set zs. i < h_records h \<and> home_of h (ldata (h_array h ! i)) = b) \<and> fst y = found + length zs)))"

lemma chain_seen_step:
  assumes "idx \<noteq> NO_RECORD" "idx < h_records h" "home_of h (ldata (h_array h ! idx)) = b"
    and "chain_seen h b (lnext (h_array h ! idx)) (Suc found) err y"
  shows "chain_seen h b idx found err y"
proof -
  have "\<exists>zs. idx = (if zs = [] then NO_RECORD else hd zs) \<and> path (h_array h) zs NO_RECORD \<and> NO_RECORD \<notin> set zs \<and>
       (\<forall>i \<in> set zs. i < h_records h \<and> home_of h (ldata (h_array h ! i)) = b) \<and> fst y = found + length zs"
    if "lnext (h_array h ! idx) = (if zs = [] then NO_RECORD else hd zs)" "path (h_array h) zs NO_RECORD" "NO_RECORD \<notin> set zs"
      "\<forall>i \<in> set zs. i < h_records h \<and> home_of h (ldata (h_array h ! i)) = b" "fst y = Suc found + length zs" for zs
    using that assms(1-3) by (intro exI [of _ "idx # zs"]) (auto simp: path_Cons)
  then show ?thesis using assms(4) unfolding chain_seen_def by blast
qed

lemma check_links_sound:
  assumes "check_links h b idx found err = Some y"
  shows "chain_seen h b idx found err y"
proof (rule check_links.raw_induct [where P = chain_seen, OF _ assms])
  fix links :: "HASH \<Rightarrow> nat \<Rightarrow> nat \<Rightarrow> nat \<Rightarrow> bool \<Rightarrow> (nat \<times> bool) option" and h b idx found err y
  assume IH: "\<And>h b idx found err y. links h b idx found err = Some y \<Longrightarrow> chain_seen h b idx found err y"
    and body: "(if idx = NO_RECORD \<or> \<not> found < h_records h + 1 then Some (found, err)
      else
        let err = (err \<or> h_records h \<le> idx);
            right = my_hash_rec_mask h (h_array h ! idx) (h_blength h) (h_records h) = b in
        links h b (lnext (h_array h ! idx)) (if right then found + 1 else found) (err \<or> \<not> right)) = Some y"
  show "chain_seen h b idx found err y"
  proof (cases "idx = NO_RECORD \<or> \<not> found < h_records h + 1")
    case True
    then have "y = (found, err)" using body by simp
    then show ?thesis using True by (cases "idx = NO_RECORD") (auto simp: chain_seen_def intro: exI [of _ "[]"])
  next
    case False
    then have nx: "links h b (lnext (h_array h ! idx)) (if home_of h (ldata (h_array h ! idx)) = b then found + 1 else found)
        (err \<or> h_records h \<le> idx \<or> home_of h (ldata (h_array h ! idx)) \<noteq> b) = Some y"
      using body unfolding if_not_P [OF False] Let_def rec_mask_home by (simp add: disj_assoc)
    show ?thesis
    proof (cases "home_of h (ldata (h_array h ! idx)) = b \<and> idx < h_records h")
      case True
      then have "chain_seen h b (lnext (h_array h ! idx)) (Suc found) err y" using IH [OF nx] by (simp flip: not_less)
      then show ?thesis using True False chain_seen_step [of idx h b found err y] by blast
    next
      case False
      then show ?thesis using IH [OF nx] by (auto simp: chain_seen_def not_less)
    qed
  qed
qed

lemma check_from_sound:
  assumes "check_from h js found err = Some (f, False)" "f \<le> h_records h" "distinct js" "set js \<subseteq> {..<h_records h}"
    and no: "h_records h \<le> NO_RECORD"
  shows "\<not> err \<and> (\<exists>C. (\<forall>j. j \<notin> set js \<longrightarrow> C j = []) \<and>
    (\<forall>j. bucket (home_of h) (h_array h) j (C j) \<and> set (C j) \<subseteq> {..<h_records h} \<and> (C j \<noteq> [] \<longrightarrow> hd (C j) = j)) \<and>
    f = found + sum_list (map (\<lambda>j. length (C j)) js))"
  using assms(1,3,4)
proof (induction js arbitrary: found err)
  case Nil
  then show ?case by (auto intro!: exI [of _ "\<lambda>_. []"])
next
  case (Cons j js)
  show ?case
  proof (cases "home_of h (ldata (h_array h ! j)) = j")
    case False
    then have "check_from h js found err = Some (f, False)" using Cons.prems(1) by (simp add: rec_mask_home)
    then obtain C where C: "\<not> err" "\<forall>i. i \<notin> set js \<longrightarrow> C i = []"
      "\<forall>j. bucket (home_of h) (h_array h) j (C j) \<and> set (C j) \<subseteq> {..<h_records h} \<and> (C j \<noteq> [] \<longrightarrow> hd (C j) = j)"
      "f = found + sum_list (map (\<lambda>j. length (C j)) js)" using Cons.IH [of found err] Cons.prems(2,3) by auto
    then have "C j = []" using Cons.prems(2) by simp
    then show ?thesis using C by (intro conjI exI [of _ C]) simp_all
  next
    case True
    then obtain f1 e1 where l: "check_links h j (lnext (h_array h ! j)) (found + 1) err = Some (f1, e1)" "check_from h js f1 e1 = Some (f, False)"
      using Cons.prems(1) by (auto simp: rec_mask_home bind_eq_Some_conv)
    obtain C where C: "\<not> e1" "\<forall>i. i \<notin> set js \<longrightarrow> C i = []"
      "\<forall>j. bucket (home_of h) (h_array h) j (C j) \<and> set (C j) \<subseteq> {..<h_records h} \<and> (C j \<noteq> [] \<longrightarrow> hd (C j) = j)"
      "f = f1 + sum_list (map (\<lambda>j. length (C j)) js)" using Cons.IH [OF l(2)] Cons.prems(2,3) by auto
    have "chain_seen h j (lnext (h_array h ! j)) (Suc found) err (f1, False)" using check_links_sound [OF l(1)] C(1) by simp
    moreover have "j \<noteq> NO_RECORD" "j < h_records h" using Cons.prems(3) no by auto
    ultimately have "chain_seen h j j found err (f1, False)" using True chain_seen_step [of j h j found err] by blast
    then obtain zs where zs: "\<not> err" "j = hd zs" "zs \<noteq> []" "path (h_array h) zs NO_RECORD" "NO_RECORD \<notin> set zs"
      "\<forall>i \<in> set zs. i < h_records h \<and> home_of h (ldata (h_array h ! i)) = j" "f1 = found + length zs"
      using assms(2) C(4) \<open>j \<noteq> NO_RECORD\<close> by (auto simp: chain_seen_def split: if_splits)
    have bk: "bucket (home_of h) (h_array h) j zs" using zs(4,6) path_distinct [OF zs(4,5)] by (simp add: bucket_def)
    have "map (\<lambda>i. length ((C(j := zs)) i)) js = map (\<lambda>i. length (C i)) js" using Cons.prems(2) by (intro map_cong) auto
    then have "f = found + sum_list (map (\<lambda>i. length ((C(j := zs)) i)) (j # js))"
      using C(4) zs(7) by (simp only: list.map sum_list.Cons fun_upd_same add.assoc)
    moreover have "\<forall>i. bucket (home_of h) (h_array h) i ((C(j := zs)) i) \<and> set ((C(j := zs)) i) \<subseteq> {..<h_records h} \<and>
        ((C(j := zs)) i \<noteq> [] \<longrightarrow> hd ((C(j := zs)) i) = i)"
      using C(3) bk zs(2,6) by auto
    moreover have "\<forall>i. i \<notin> set (j # js) \<longrightarrow> (C(j := zs)) i = []" using C(2) by simp
    ultimately show ?thesis using zs(1) by blast
  qed
qed

lemma check_wf:
  assumes "my_hash_check h = Some False" and a: "length (h_array h) = h_records h" "h_records h \<le> NO_RECORD"
    and sz: "sizes_ok (h_blength h) (h_records h)"
  shows "wf_hash h"
proof -
  have "check_from h [0..<h_records h] 0 False = Some (h_records h, False)"
    using assms(1) by (auto simp: my_hash_check_def)
  then obtain C where C: "\<forall>j. j \<notin> set [0..<h_records h] \<longrightarrow> C j = []"
      "\<forall>j. bucket (home_of h) (h_array h) j (C j) \<and> set (C j) \<subseteq> {..<h_records h} \<and> (C j \<noteq> [] \<longrightarrow> hd (C j) = j)"
      "h_records h = sum_list (map (\<lambda>j. length (C j)) [0..<h_records h])"
    using check_from_sound [of h "[0..<h_records h]" 0 False "h_records h"] a(2) by (auto simp: atLeast0LessThan)
  have disj: "set (C i) \<inter> set (C j) = {}" if "i \<noteq> j" for i j using C(2) that unfolding bucket_def disjoint_iff by metis
  have "card (set (C j)) = length (C j)" for j using C(2) by (simp add: bucket_def distinct_card)
  then have "h_records h = (\<Sum>j<h_records h. card (set (C j)))"
    using C(3) by (simp add: sum_list_distinct_conv_sum_set atLeast0LessThan)
  also have "\<dots> = card (\<Union>j\<in>{..<h_records h}. set (C j))" using disj by (intro card_UN_disjoint [symmetric]) auto
  also have "(\<Union>j\<in>{..<h_records h}. set (C j)) = (\<Union>j. set (C j))" using C(1) by fastforce
  finally have "(\<Union>j. set (C j)) = {..<h_records h}" using C(2) by (intro card_subset_eq) auto
  then have "buckets (home_of h) {..<h_records h} (h_array h) C" using C(2) a(1) by (simp add: buckets_def)
  moreover have "heads C" using C(2) by (simp add: heads_def)
  ultimately show ?thesis using a sz by (auto simp: wf_hash_def table_ok_def)
qed

text \<open>C28: For a table whose array has as many elements as there are records and whose sizes fit, the consistency
  check of the debug build ends and finds no error if and only if the table is well-formed: every bucket
  is a list of links, starting at the position of its number, through exactly its records.\<close>

theorem hash_check_exact:
  assumes "length (h_array h) = h_records h" "h_records h \<le> NO_RECORD" "sizes_ok (h_blength h) (h_records h)"
  shows "my_hash_check h = Some False \<longleftrightarrow> wf_hash h"
  using check_accepts check_wf [OF _ assms] by blast

theorem hash_check_exact_witness: "my_hash_check byte_table2 = Some False"
proof -
  have "length (h_array byte_table2) = h_records byte_table2 \<and> h_records byte_table2 \<le> NO_RECORD \<and>
      sizes_ok (h_blength byte_table2) (h_records byte_table2)"
    using byte_table2_ok(1) by (simp add: wf_hash_def)
  then show ?thesis using hash_check_exact byte_table2_ok(1) by blast
qed

section \<open>A damaged table\<close>

text \<open>
  The bound of the loop counts only records that are in the right chain, so it does not stop at a
  record in a wrong chain that is linked to itself.
\<close>

definition looping_table :: HASH where
  "looping_table = byte_table\<lparr>h_blength := 4, h_records := 3, h_array :=
     [\<lparr>lnext = 1, ldata = 4\<rparr>, \<lparr>lnext = 1, ldata = 6\<rparr>, \<lparr>lnext = NO_RECORD, ldata = 2\<rparr>]\<rparr>"

lemma check_links_loops: "check_links looping_table 0 1 1 err = None"
proof -
  have home: "my_hash_rec_mask looping_table \<lparr>lnext = Suc 0, ldata = 6\<rparr> (h_blength looping_table) 3 \<noteq> 0"
    by (simp add: my_hash_rec_mask_def looping_table_def byte_table_def my_hash_init2_def rec_hashnr_def my_hash_mask_def size_dec_def)
  have nth: "h_array looping_table ! Suc 0 = \<lparr>lnext = 1, ldata = 6\<rparr>" "h_records looping_table = 3" by (simp_all add: looping_table_def)
  have "\<not> (h = looping_table \<and> i = 0 \<and> idx = 1 \<and> found = 1)" if "check_links h i idx found err = Some y" for h i idx found err y
  proof (rule check_links.raw_induct [where P = "\<lambda>h i idx found err y. \<not> (h = looping_table \<and> i = 0 \<and> idx = 1 \<and> found = 1)", OF _ that])
    fix links :: "HASH \<Rightarrow> nat \<Rightarrow> nat \<Rightarrow> nat \<Rightarrow> bool \<Rightarrow> (nat \<times> bool) option" and h i idx found err y
    assume IH: "\<And>h i idx found err y. links h i idx found err = Some y \<Longrightarrow> \<not> (h = looping_table \<and> i = 0 \<and> idx = 1 \<and> found = 1)"
      and body: "(if idx = NO_RECORD \<or> \<not> found < h_records h + 1 then Some (found, err)
        else
          let err = (err \<or> h_records h \<le> idx);
              right = my_hash_rec_mask h (h_array h ! idx) (h_blength h) (h_records h) = i in
          links h i (lnext (h_array h ! idx)) (if right then found + 1 else found) (err \<or> \<not> right)) = Some y"
    show "\<not> (h = looping_table \<and> i = 0 \<and> idx = 1 \<and> found = 1)"
      using body IH [of looping_table 0 1 1 True y] home by (auto simp: nth Let_def NO_RECORD_def)
  qed
  then show ?thesis by (metis option.exhaust)
qed

text \<open>C35: The consistency check does not end on a table in which a record, linked to itself, hangs at the end of the chain
  of another bucket, although a bound on the number of links is meant to stop it.\<close>

theorem hash_check_may_loop: "my_hash_check looping_table = None"
proof -
  have home: "home_of looping_table (ldata (h_array looping_table ! 0)) = 0" "lnext (h_array looping_table ! 0) = 1"
    by (simp_all add: home_of_def looping_table_def byte_table_def my_hash_init2_def rec_hashnr_def my_hash_mask_def size_dec_def)
  have "h_records looping_table = 3" by (simp add: looping_table_def)
  then have "[0..<h_records looping_table] = [0, 1, 2]" by (simp add: upt_rec)
  then show ?thesis using home by (simp add: my_hash_check_def rec_mask_home check_links_loops [simplified])
qed

end
