(* ===== verification/Spec2Isabelle.thy ===== *)
theory Spec2Isabelle
  imports Queues Mdl_Tickets Mdl_Deadlock Bitmap_Sets Base64_Codec Hash_Check
begin

text \<open>
  Verification of core components of a relational database server (MariaDB 10.1 lineage, C and C++).
\<close>

end
